(* ===== verification/Prelude.thy ===== *)
theory Prelude
  imports Main "HOL-Library.Word"
begin

unbundle bit_operations_syntax

text \<open>
  Shared vocabulary of the development.

  \<^item> bytes are \<open>8 word\<close>, a Go \<open>[]byte\<close> is a list of them; a Go \<open>string\<close> (a byte sequence) is a
    HOL \<open>string\<close>, whose characters are exactly the 256 bytes;
  \<^item> \<open>int64\<close> is a \<open>64 word\<close> read with \<open>sint\<close>;
  \<^item> a nil-able slice is an \<open>option\<close>;
  \<^item> every \<open>errors.New\<close> / \<open>fmt.Errorf\<close> site of \<open>src/csenc\<close> is a constructor of \<open>error\<close>; a wrapping
    \<open>%w\<close> is a constructor with an \<open>error\<close> argument, which \<open>err_is\<close> looks through as \<open>errors.Is\<close> does;
  \<^item> a Go result \<open>(v, err)\<close> is \<open>error + 'a\<close>, a bare \<open>error\<close> result is \<open>error option\<close>.

  The generic list and result lemmas that several components use are at the end.
\<close>

type_synonym byte = "8 word"
type_synonym bytes = "8 word list"
type_synonym int64 = "64 word"

section \<open>Errors\<close>

text \<open>
  \<open>ErrEOF\<close>, \<open>ErrUnexpectedEOF\<close>, \<open>ErrClosedPipe\<close> are the sentinels of package \<open>io\<close>; \<open>ErrExternal\<close> is
  an error raised by a reader, a writer or a library the caller supplies.
\<close>

datatype error =
    ErrEOF
  | ErrUnexpectedEOF
  | ErrClosedPipe
  | ErrExternal string
    \<comment> \<open>encoding/hex, encoding/base64, crypto/aes, crypto/rsa\<close>
  | ErrHexInvalidByte byte
  | ErrHexLength
  | ErrB64Corrupt
  | ErrAesKeySize nat
  | ErrRsaExponentSmall
  | ErrRsaExponentLarge
  | ErrRsaMessageTooLong
  | ErrRsaEvenModulus
  | ErrRsaDecryption
    \<comment> \<open>wire.go\<close>
  | ErrDictKeyNoValue
  | ErrUnknownTag byte
    \<comment> \<open>decrypt.go\<close>
  | ErrReadMagic error
  | ErrBadMagic
  | ErrReadMagicChecksum error
  | ErrMagicChecksum
  | ErrTopLevelNotDict nat
  | ErrMissingType
  | ErrUnknownTopLevelType string
  | ErrMissingPayload
  | ErrNoDataBlocks
  | ErrPlaintextMD5 string string
  | ErrEncKey1 error
  | ErrEncKey2 error
  | ErrB64Kind nat
  | ErrEncryptMode int64
  | ErrCompressMode int64
  | ErrNoRecoverySecret
  | ErrHashMismatch string
  | ErrEncKey1Align nat
  | ErrEncKey1Padding error
  | ErrRsaOaep error
  | ErrSessionKeyHex int64 error
  | ErrPadAlign nat
  | ErrPadRange nat
  | ErrPadTail
  | ErrDataAlign nat
  | ErrFinalPadding error
  | ErrBadDataDict
  | ErrInspectNotDict
    \<comment> \<open>encrypt.go\<close>
  | ErrNeedSecret
  | ErrMajorVersion int64
  | ErrWriteClosed
  | ErrRandSessionKey error
  | ErrRsaOaepSession error
  | ErrBlobTooLong nat
  | ErrNegativeInt int64
    \<comment> \<open>PEM keys: file.go, encrypt.go\<close>
  | ErrNoPemBlock
  | ErrPemPassphrase
  | ErrPemDecrypt error
  | ErrPemBlockType string
  | ErrPkcs8NotRsa
  | ErrPkixNotRsa
    \<comment> \<open>batch.go, main.go\<close>
  | ErrOutputDirRequired
  | ErrBatchSecret
  | ErrIsDirectory
  | ErrIsDirectoryCli
  | ErrVersionFormat string
  | ErrVersionMajor string error
  | ErrVersionMinor string error
  | ErrVersionRange int64

text \<open>The chain of causes \<open>errors.Is\<close> walks: one \<open>Unwrap\<close> step per \<open>%w\<close>.\<close>

fun unwrap :: "error \<Rightarrow> error option" where
  "unwrap (ErrReadMagic e) = Some e"
| "unwrap (ErrReadMagicChecksum e) = Some e"
| "unwrap (ErrEncKey1 e) = Some e"
| "unwrap (ErrEncKey2 e) = Some e"
| "unwrap (ErrEncKey1Padding e) = Some e"
| "unwrap (ErrRsaOaep e) = Some e"
| "unwrap (ErrSessionKeyHex v e) = Some e"
| "unwrap (ErrFinalPadding e) = Some e"
| "unwrap (ErrRandSessionKey e) = Some e"
| "unwrap (ErrRsaOaepSession e) = Some e"
| "unwrap (ErrPemDecrypt e) = Some e"
| "unwrap (ErrVersionMajor s e) = Some e"
| "unwrap (ErrVersionMinor s e) = Some e"
| "unwrap e = None"

lemma unwrap_size [termination_simp]: "unwrap e = Some e' \<Longrightarrow> size e' < size e"
  by (cases e) auto

fun err_is :: "error \<Rightarrow> error \<Rightarrow> bool" where
  "err_is e target =
     (e = target \<or> (case unwrap e of None \<Rightarrow> False | Some e' \<Rightarrow> err_is e' target))"

declare err_is.simps [simp del]

lemma err_is_refl [simp]: "err_is e e"
  by (simp add: err_is.simps)

section \<open>Collections of rewrite rules\<close>

named_theorems length_simps \<open>lengths of encoded, hashed and encrypted byte strings\<close>
named_theorems roundtrip_simps \<open>decoder-after-encoder equations\<close>

lemma unat_byte_less: "unat (b :: byte) < 256"
  using unsigned_less [of b, where 'a = nat] by simp

section \<open>Lists of fixed-size blocks\<close>

lemma take_append_exact [simp]: "length xs = n \<Longrightarrow> take n (xs @ ys) = xs"
  by simp

lemma drop_append_exact [simp]: "length xs = n \<Longrightarrow> drop n (xs @ ys) = ys"
  by simp

lemma map2_xor_cancel:
  "length xs = length ys \<Longrightarrow>
     map2 (\<lambda>a b. a XOR b) (map2 (\<lambda>a b. a XOR b) xs ys) ys = (xs :: 'a :: len word list)"
  by (induction xs ys rule: list_induct2) (auto simp: xor.assoc)

lemma concat_replicate_const [simp]: "concat (replicate n [x]) = replicate n x"
  by (induction n) auto

lemma length_concat_const: "(\<And>x. x \<in> set xs \<Longrightarrow> length x = n) \<Longrightarrow> length (concat xs) = n * length xs"
  by (induction xs) simp_all

text \<open>A list whose length is a multiple of a block size is empty or starts with a full block.\<close>

lemma block_cases:
  fixes xs :: "'a list"
  assumes "n dvd length xs" and "0 < n"
  obtains (Nil) "xs = []" | (Block) b ys where "xs = b @ ys" "length b = n" "n dvd length ys"
proof (cases "xs = []")
  case True
  then show ?thesis by (rule Nil)
next
  case False
  with assms have "n \<le> length xs" by (simp add: dvd_imp_le)
  then have "length (take n xs) = n" and "length (drop n xs) = length xs - n" by simp_all
  with assms(1) show ?thesis
    using Block [of "take n xs" "drop n xs"] \<open>n \<le> length xs\<close> by (simp add: dvd_minus_self)
qed

lemma block_induct [consumes 2, case_names Nil Block]:
  fixes xs :: "'a list"
  assumes "n dvd length xs" and "0 < n"
    and "P []"
    and step: "\<And>b ys. length b = n \<Longrightarrow> n dvd length ys \<Longrightarrow> P ys \<Longrightarrow> P (b @ ys)"
  shows "P xs"
  using assms(1)
proof (induction xs rule: length_induct)
  case (1 xs)
  from "1.prems" assms(2) show ?case
  proof (cases rule: block_cases)
    case Nil
    with assms(3) show ?thesis by simp
  next
    case (Block b ys)
    with assms(2) "1.IH" have "P ys" by simp
    with Block show ?thesis by (simp add: step)
  qed
qed

lemma block16_induct [consumes 1, case_names Nil Block]:
  fixes xs :: "'a list"
  assumes "16 dvd length xs" and "P []"
    and "\<And>b ys. length b = 16 \<Longrightarrow> 16 dvd length ys \<Longrightarrow> P ys \<Longrightarrow> P (b @ ys)"
  shows "P xs"
  using assms(1) by (rule block_induct) (simp_all add: assms)

section \<open>Results\<close>

lemma sum_case_Inl_neq [simp]:
  "(case r of Inl e \<Rightarrow> Inl e | Inr v \<Rightarrow> f v) = Inr w \<longleftrightarrow> (\<exists>v. r = Inr v \<and> f v = Inr w)"
  by (cases r) auto

end
