(* ===== verification/GoBytes.thy ===== *)
theory GoBytes
  imports Prelude
begin

text \<open>
  The parts of the Go standard library on bytes that \<open>src/csenc\<close> calls: string/byte conversion,
  \<open>encoding/hex\<close>, \<open>encoding/base64\<close> (\<open>StdEncoding\<close>), \<open>encoding/binary\<close> big-endian integers and
  \<open>math/big\<close>'s \<open>SetBytes\<close> and \<open>Int64\<close>, each with its decoder-after-encoder law.
\<close>

section \<open>Strings and bytes\<close>

definition bytes_of_string :: "string \<Rightarrow> bytes" where
  "bytes_of_string s = map of_char s"

definition string_of_bytes :: "bytes \<Rightarrow> string" where
  "string_of_bytes bs = map (\<lambda>b. char_of (unat b)) bs"

lemma unat_of_char: "unat (of_char c :: 8 word) = (of_char c :: nat)"
proof -
  have "(of_char c :: nat) < 256" by (metis mod_less_divisor of_char_mod_256 zero_less_numeral)
  then have "unat (of_nat (of_char c) :: 8 word) = (of_char c :: nat)"
    by (simp add: unat_of_nat)
  then show ?thesis by (simp only: of_nat_of_char)
qed

lemma string_of_bytes_of_string [simp, roundtrip_simps]: "string_of_bytes (bytes_of_string s) = s"
  by (simp add: string_of_bytes_def bytes_of_string_def unat_of_char comp_def)

lemma of_char_char_of_unat: "(of_char (char_of (unat b)) :: 8 word) = b"
proof -
  have "unat (of_char (char_of (unat b)) :: 8 word) = unat b"
    using unat_byte_less [of b] by (simp add: unat_of_char)
  then show ?thesis by (simp only: word_unat_eq_iff)
qed

lemma bytes_of_string_of_bytes [simp, roundtrip_simps]: "bytes_of_string (string_of_bytes bs) = bs"
  by (simp add: string_of_bytes_def bytes_of_string_def of_char_char_of_unat comp_def)

lemma length_bytes_of_string [simp]: "length (bytes_of_string s) = length s"
  by (simp add: bytes_of_string_def)

lemma length_string_of_bytes [simp]: "length (string_of_bytes bs) = length bs"
  by (simp add: string_of_bytes_def)

lemma bytes_of_string_Nil_iff [simp]: "bytes_of_string s = [] \<longleftrightarrow> s = []"
  by (simp add: bytes_of_string_def)

lemma string_of_bytes_Nil_iff [simp]: "string_of_bytes bs = [] \<longleftrightarrow> bs = []"
  by (simp add: string_of_bytes_def)

lemma bytes_of_string_append [simp]: "bytes_of_string (s @ t) = bytes_of_string s @ bytes_of_string t"
  by (simp add: bytes_of_string_def)

lemma string_of_bytes_append [simp]: "string_of_bytes (s @ t) = string_of_bytes s @ string_of_bytes t"
  by (simp add: string_of_bytes_def)

lemma bytes_of_string_inject [simp]: "bytes_of_string s = bytes_of_string t \<longleftrightarrow> s = t"
  by (metis string_of_bytes_of_string)

lemma take_bytes_of_string: "take n (bytes_of_string s) = bytes_of_string (take n s)"
  by (simp add: bytes_of_string_def take_map)

section \<open>encoding/hex\<close>

definition hex_digit :: "nat \<Rightarrow> char" where
  "hex_digit n = ''0123456789abcdef'' ! n"

definition hex_encode :: "bytes \<Rightarrow> string" where
  "hex_encode bs = concat (map (\<lambda>b. [hex_digit (unat b div 16), hex_digit (unat b mod 16)]) bs)"

text \<open>\<open>reverseHexTable\<close>: both letter cases are accepted.\<close>

definition hex_value :: "char \<Rightarrow> nat option" where
  "hex_value c =
     (let n = (of_char c :: nat) in
      if 48 \<le> n \<and> n \<le> 57 then Some (n - 48)
      else if 97 \<le> n \<and> n \<le> 102 then Some (n - 87)
      else if 65 \<le> n \<and> n \<le> 70 then Some (n - 55)
      else None)"

fun hex_decode :: "string \<Rightarrow> error + bytes" where
  "hex_decode [] = Inr []"
| "hex_decode [p] =
     (case hex_value p of None \<Rightarrow> Inl (ErrHexInvalidByte (of_char p)) | Some _ \<Rightarrow> Inl ErrHexLength)"
| "hex_decode (p # q # s) =
     (case hex_value p of
        None \<Rightarrow> Inl (ErrHexInvalidByte (of_char p))
      | Some a \<Rightarrow>
          (case hex_value q of
             None \<Rightarrow> Inl (ErrHexInvalidByte (of_char q))
           | Some b \<Rightarrow>
               (case hex_decode s of
                  Inl e \<Rightarrow> Inl e
                | Inr bs \<Rightarrow> Inr (word_of_nat (16 * a + b) # bs))))"

lemma hex_value_digit: "n < 16 \<Longrightarrow> hex_value (hex_digit n) = Some n"
proof -
  have "list_all (\<lambda>n. hex_value (hex_digit n) = Some n) [0..<16]" by code_simp
  then show "n < 16 \<Longrightarrow> hex_value (hex_digit n) = Some n" by (simp add: list_all_iff)
qed

lemma length_hex_encode [simp, length_simps]: "length (hex_encode bs) = 2 * length bs"
  by (induction bs) (simp_all add: hex_encode_def)

lemma hex_decode_encode [simp, roundtrip_simps]: "hex_decode (hex_encode bs) = Inr bs"
proof (induction bs)
  case Nil
  then show ?case by (simp add: hex_encode_def)
next
  case (Cons b bs)
  have "unat b < 256" using unat_byte_less [of b] by simp
  then have "unat b div 16 < 16" by simp
  moreover have "word_of_nat (16 * (unat b div 16) + unat b mod 16) = b" by simp
  ultimately show ?case using Cons
    by (simp add: hex_encode_def hex_value_digit del: mult_div_mod_eq div_mult_mod_eq)
qed

lemma hex_encode_inject [simp]: "hex_encode xs = hex_encode ys \<longleftrightarrow> xs = ys"
  by (metis hex_decode_encode sum.inject(2))

section \<open>encoding/base64, StdEncoding\<close>

definition b64_alphabet :: string where
  "b64_alphabet = ''ABCDEFGHIJKLMNOPQRSTUVWXYZabcdefghijklmnopqrstuvwxyz0123456789+/''"

definition b64_char :: "nat \<Rightarrow> char" where
  "b64_char n = b64_alphabet ! n"

definition b64_value :: "char \<Rightarrow> nat option" where
  "b64_value c =
     (let n = (of_char c :: nat) in
      if 65 \<le> n \<and> n \<le> 90 then Some (n - 65)
      else if 97 \<le> n \<and> n \<le> 122 then Some (n - 71)
      else if 48 \<le> n \<and> n \<le> 57 then Some (n + 4)
      else if n = 43 then Some 62
      else if n = 47 then Some 63
      else None)"

fun b64_encode :: "bytes \<Rightarrow> string" where
  "b64_encode [] = []"
| "b64_encode [a] =
     [b64_char (unat a div 4), b64_char (unat a mod 4 * 16), CHR ''='', CHR ''='']"
| "b64_encode [a, b] =
     [b64_char (unat a div 4), b64_char (unat a mod 4 * 16 + unat b div 16),
      b64_char (unat b mod 16 * 4), CHR ''='']"
| "b64_encode (a # b # c # bs) =
     [b64_char (unat a div 4), b64_char (unat a mod 4 * 16 + unat b div 16),
      b64_char (unat b mod 16 * 4 + unat c div 64), b64_char (unat c mod 64)] @ b64_encode bs"

text \<open>
  \<open>DecodeString\<close> skips carriage returns and newlines anywhere, wants quanta of four characters, and
  allows padding only in the last quantum (where it ignores the unused low bits).
\<close>

fun b64_quanta :: "string \<Rightarrow> error + bytes" where
  "b64_quanta [] = Inr []"
| "b64_quanta (p # q # r # s # cs) =
     (case (b64_value p, b64_value q) of
        (Some a, Some b) \<Rightarrow>
          (case (b64_value r, b64_value s) of
             (Some c, Some d) \<Rightarrow>
               (case b64_quanta cs of
                  Inl e \<Rightarrow> Inl e
                | Inr bs \<Rightarrow>
                    Inr (word_of_nat (a * 4 + b div 16) # word_of_nat (b mod 16 * 16 + c div 4) #
                         word_of_nat (c mod 4 * 64 + d) # bs))
           | (Some c, None) \<Rightarrow>
               if s = CHR ''='' \<and> cs = []
               then Inr [word_of_nat (a * 4 + b div 16), word_of_nat (b mod 16 * 16 + c div 4)]
               else Inl ErrB64Corrupt
           | (None, _) \<Rightarrow>
               if r = CHR ''='' \<and> s = CHR ''='' \<and> cs = []
               then Inr [word_of_nat (a * 4 + b div 16)]
               else Inl ErrB64Corrupt)
      | _ \<Rightarrow> Inl ErrB64Corrupt)"
| "b64_quanta _ = Inl ErrB64Corrupt"

definition b64_decode :: "string \<Rightarrow> error + bytes" where
  "b64_decode s = b64_quanta (filter (\<lambda>c. c \<noteq> CHR 0x0A \<and> c \<noteq> CHR 0x0D) s)"

lemma b64_value_char: "n < 64 \<Longrightarrow> b64_value (b64_char n) = Some n"
proof -
  have "[0..<64] = (0::nat) # 1 # [2..<64]"
    by (simp add: upt_rec [of 0] upt_rec [of "Suc 0"] numeral_2_eq_2)
  then have "map b64_value b64_alphabet = map Some [0..<64]"
    by (simp add: b64_value_def b64_alphabet_def upt_rec_numeral)
  moreover have "length b64_alphabet = 64" by (simp add: b64_alphabet_def)
  ultimately show "n < 64 \<Longrightarrow> b64_value (b64_char n) = Some n"
    by (metis add_0 b64_char_def diff_zero length_upt nth_map nth_upt)
qed

lemma b64_value_pad [simp]: "b64_value (CHR ''='') = None"
  by code_simp

lemma b64_char_not_newline:
  "n < 64 \<Longrightarrow> b64_char n \<noteq> CHR 0x0A \<and> b64_char n \<noteq> CHR 0x0D"
proof -
  have "b64_value (CHR 0x0A) = None" and "b64_value (CHR 0x0D) = None" by code_simp+
  then show "n < 64 \<Longrightarrow> b64_char n \<noteq> CHR 0x0A \<and> b64_char n \<noteq> CHR 0x0D"
    by (metis b64_value_char option.distinct(1))
qed

lemma byte_div_mod_bounds:
  fixes a :: byte
  shows "unat a div 4 < 64" "unat a mod 4 * 16 < 64" "unat a div 16 < 16" "unat a mod 16 * 4 < 64"
    "unat a div 64 < 4" "unat a mod 64 < 64"
  using unat_byte_less [of a] by (simp_all add: less_mult_imp_div_less)

lemma b64_mix_bounds:
  fixes a b :: byte
  shows "unat a mod 4 * 16 + unat b div 16 < 64" "unat a mod 16 * 4 + unat b div 64 < 64"
proof -
  have "unat a mod 4 \<le> 3" "unat a mod 16 \<le> 15" by (simp_all add: less_Suc_eq_le [symmetric])
  moreover have "unat b div 16 < 16" "unat b div 64 < 4" by (rule byte_div_mod_bounds)+
  ultimately show "unat a mod 4 * 16 + unat b div 16 < 64" "unat a mod 16 * 4 + unat b div 64 < 64"
    by linarith+
qed

lemma b64_reassemble:
  fixes a b c :: byte
  shows "word_of_nat (unat a div 4 * 4 + (unat a mod 4 * 16) div 16) = a"
    and "word_of_nat (unat a div 4 * 4 + (unat a mod 4 * 16 + unat b div 16) div 16) = a"
    and "word_of_nat ((unat a mod 4 * 16 + unat b div 16) mod 16 * 16 + (unat b mod 16 * 4) div 4) = b"
    and "word_of_nat ((unat a mod 4 * 16 + unat b div 16) mod 16 * 16
           + (unat b mod 16 * 4 + unat c div 64) div 4) = b"
    and "word_of_nat ((unat b mod 16 * 4 + unat c div 64) mod 4 * 64 + unat c mod 64) = c"
proof -
  have *: "unat b div 16 < 16" "unat c div 64 < 4" by (rule byte_div_mod_bounds)+
  show "word_of_nat (unat a div 4 * 4 + (unat a mod 4 * 16) div 16) = a"
    "word_of_nat (unat a div 4 * 4 + (unat a mod 4 * 16 + unat b div 16) div 16) = a"
    "word_of_nat ((unat a mod 4 * 16 + unat b div 16) mod 16 * 16 + (unat b mod 16 * 4) div 4) = b"
    "word_of_nat ((unat a mod 4 * 16 + unat b div 16) mod 16 * 16
           + (unat b mod 16 * 4 + unat c div 64) div 4) = b"
    "word_of_nat ((unat b mod 16 * 4 + unat c div 64) mod 4 * 64 + unat c mod 64) = c"
    using * by (simp_all del: of_nat_add of_nat_mult)
qed

lemma b64_quanta_encode: "b64_quanta (b64_encode bs) = Inr bs"
  by (induction bs rule: b64_encode.induct)
    (simp_all add: b64_value_char byte_div_mod_bounds b64_mix_bounds b64_reassemble
       del: of_nat_add of_nat_mult)

lemma b64_encode_no_newline: "c \<in> set (b64_encode bs) \<Longrightarrow> c \<noteq> CHR 0x0A \<and> c \<noteq> CHR 0x0D"
  by (induction bs rule: b64_encode.induct)
    (auto simp: b64_char_not_newline byte_div_mod_bounds b64_mix_bounds)

lemma b64_decode_encode [simp, roundtrip_simps]: "b64_decode (b64_encode bs) = Inr bs"
proof -
  have "filter (\<lambda>c. c \<noteq> CHR 0x0A \<and> c \<noteq> CHR 0x0D) (b64_encode bs) = b64_encode bs"
    by (rule filter_True) (blast dest: b64_encode_no_newline)
  then show ?thesis by (simp add: b64_decode_def b64_quanta_encode)
qed

lemma length_b64_encode [length_simps]: "length (b64_encode bs) = 4 * ((length bs + 2) div 3)"
proof (induction bs rule: b64_encode.induct)
  case (4 a b c bs)
  have "(length bs + 5) div 3 = (length bs + 2) div 3 + 1" by simp
  with 4 show ?case by (simp add: add.commute)
qed simp_all

section \<open>Big-endian integers\<close>

definition be_nat :: "bytes \<Rightarrow> nat" where
  "be_nat bs = foldl (\<lambda>acc b. 256 * acc + unat b) 0 bs"

text \<open>The \<open>k\<close> low-order bytes of a number, most significant first.\<close>

primrec be_bytes :: "nat \<Rightarrow> nat \<Rightarrow> bytes" where
  "be_bytes 0 n = []"
| "be_bytes (Suc k) n = word_of_nat (n div 256 ^ k) # be_bytes k n"

lemma length_be_bytes [simp, length_simps]: "length (be_bytes k n) = k"
  by (induction k) simp_all

lemma foldl_be_nat:
  "foldl (\<lambda>acc b. 256 * acc + unat (b :: byte)) a bs = a * 256 ^ length bs + be_nat bs"
proof (induction bs arbitrary: a)
  case (Cons b bs)
  show ?case
    using Cons.IH [of "256 * a + unat b"] Cons.IH [of "unat b"]
    by (simp add: be_nat_def algebra_simps)
qed (simp add: be_nat_def)

lemma be_nat_Nil [simp]: "be_nat [] = 0"
  by (simp add: be_nat_def)

lemma be_nat_Cons: "be_nat (b # bs) = unat b * 256 ^ length bs + be_nat bs"
  using foldl_be_nat [of "unat b" bs] by (simp add: be_nat_def)

lemma be_nat_bound: "be_nat bs < 256 ^ length bs"
proof (induction bs)
  case (Cons b bs)
  have "unat b + 1 \<le> 256" using unat_byte_less [of b] by simp
  then have "(unat b + 1) * 256 ^ length bs \<le> 256 * 256 ^ length bs" by (rule mult_le_mono1)
  then have "unat b * 256 ^ length bs + 256 ^ length bs \<le> 256 * 256 ^ length bs"
    by (simp only: distrib_right mult_1)
  with Cons show ?case unfolding be_nat_Cons length_Cons power_Suc by linarith
qed simp

lemma be_nat_be_bytes: "be_nat (be_bytes k n) = n mod 256 ^ k"
proof (induction k)
  case (Suc k)
  have "n mod 256 ^ Suc k = 256 ^ k * (n div 256 ^ k mod 256) + n mod 256 ^ k"
    by (metis mod_mult2_eq mult.commute power_Suc)
  with Suc show ?case by (simp add: be_nat_Cons unat_of_nat mult.commute)
qed simp

lemma be_nat_be_bytes_id [simp]: "n < 256 ^ k \<Longrightarrow> be_nat (be_bytes k n) = n"
  by (simp add: be_nat_be_bytes)

lemma be_bytes_mod: "be_bytes k (n mod 256 ^ k) = be_bytes k n"
proof -
  have "\<And>j. j \<le> k \<Longrightarrow> be_bytes j (n mod 256 ^ k) = be_bytes j n"
  proof -
    fix j
    show "j \<le> k \<Longrightarrow> be_bytes j (n mod 256 ^ k) = be_bytes j n"
    proof (induction j)
      case (Suc j)
      then have "256 ^ k = 256 ^ j * (256 * 256 ^ (k - Suc j) :: nat)"
        by (metis le_add_diff_inverse mult.assoc power_Suc power_add power_Suc2)
      then have "n mod 256 ^ k div 256 ^ j = n div 256 ^ j mod (256 * 256 ^ (k - Suc j))"
        by (simp add: mod_mult2_eq)
      moreover have "(word_of_nat (m mod (256 * c)) :: byte) = word_of_nat m" for m c :: nat
        by (simp add: word_of_nat_eq_iff take_bit_eq_mod mod_mod_cancel)
      ultimately show ?case using Suc by simp
    qed simp
  qed
  then show ?thesis by simp
qed

lemma be_bytes_be_nat [simp]: "be_bytes (length bs) (be_nat bs) = bs"
proof (induction bs)
  case (Cons b bs)
  have "be_nat (b # bs) mod 256 ^ length bs = be_nat bs"
    by (simp add: be_nat_Cons be_nat_bound)
  then have "be_bytes (length bs) (be_nat (b # bs)) = bs"
    by (metis Cons.IH be_bytes_mod)
  moreover have "be_nat (b # bs) div 256 ^ length bs = unat b"
    by (simp add: be_nat_Cons be_nat_bound)
  ultimately show ?case by simp
qed simp

text \<open>The number of bytes of a positional notation without leading zeros (one for zero).\<close>

fun num_bytes :: "nat \<Rightarrow> nat" where
  "num_bytes n = (if n < 256 then 1 else Suc (num_bytes (n div 256)))"

declare num_bytes.simps [simp del]

lemma num_bytes_bound: "n < 256 ^ num_bytes n"
proof (induction n rule: num_bytes.induct)
  case (1 n)
  show ?case
  proof (cases "n < 256")
    case False
    with 1 have "n div 256 < 256 ^ num_bytes (n div 256)" by simp
    then have "n < 256 * 256 ^ num_bytes (n div 256)"
      by (simp add: less_mult_imp_div_less div_less_iff_less_mult mult.commute)
    with False show ?thesis by (subst num_bytes.simps) simp
  qed (subst num_bytes.simps, simp)
qed

lemma num_bytes_le: "n < 256 ^ k \<Longrightarrow> 0 < k \<Longrightarrow> num_bytes n \<le> k"
proof (induction n arbitrary: k rule: num_bytes.induct)
  case (1 n)
  show ?case
  proof (cases "n < 256")
    case False
    obtain j where k: "k = Suc j" using "1.prems"(2) by (cases k) auto
    with "1.prems" have "n div 256 < 256 ^ j" by (simp add: div_less_iff_less_mult mult.commute)
    moreover have "0 < j" using k "1.prems"(1) False by (cases j) auto
    ultimately show ?thesis using "1.IH" [OF False, of j] False k by (subst num_bytes.simps) simp
  qed (use "1.prems" in \<open>subst num_bytes.simps, simp\<close>)
qed

lemma num_bytes_pos [simp]: "0 < num_bytes n"
  by (simp add: num_bytes.simps [of n])

lemma num_bytes_lower: "0 < n \<Longrightarrow> 256 ^ (num_bytes n - 1) \<le> n"
proof (induction n rule: num_bytes.induct)
  case (1 n)
  show ?case
  proof (cases "n < 256")
    case True
    with 1 show ?thesis by (simp add: num_bytes.simps [of n])
  next
    case False
    with "1.IH" have "256 ^ (num_bytes (n div 256) - 1) \<le> n div 256" by simp
    then have "256 * 256 ^ (num_bytes (n div 256) - 1) \<le> n" by simp
    then have "256 ^ num_bytes (n div 256) \<le> n"
      by (metis Suc_pred' num_bytes_pos power_Suc)
    with False show ?thesis by (simp add: num_bytes.simps [of n])
  qed
qed

text \<open>
  \<open>binary.BigEndian.PutUint16/Uint16\<close> and \<open>PutUint64\<close>; \<open>big.Int.SetBytes\<close> is \<open>be_nat\<close>, and
  \<open>big.Int.Int64\<close> returns the low 64 bits (the documentation leaves values outside the range open,
  the implementation truncates).
\<close>

definition put_uint16 :: "16 word \<Rightarrow> bytes" where
  "put_uint16 n = be_bytes 2 (unat n)"

definition uint16 :: "bytes \<Rightarrow> 16 word" where
  "uint16 bs = word_of_nat (be_nat bs)"

definition put_uint64 :: "64 word \<Rightarrow> bytes" where
  "put_uint64 n = be_bytes 8 (unat n)"

definition big_int64 :: "nat \<Rightarrow> int64" where
  "big_int64 n = word_of_nat n"

lemma length_put_uint16 [simp]: "length (put_uint16 n) = 2"
  by (simp add: put_uint16_def)

lemma uint16_put [simp, roundtrip_simps]: "uint16 (put_uint16 n) = n"
  using unsigned_less [of n, where 'a = nat] by (simp add: uint16_def put_uint16_def)

lemma big_int64_unat [simp, roundtrip_simps]: "big_int64 (unat n) = n"
  by (simp add: big_int64_def)

end
