(* ===== verification/GoIO.thy ===== *)
theory GoIO
  imports GoBytes
begin

text \<open>
  The \<open>io\<close> interfaces at which \<open>src/csenc\<close> meets the outside.

  \<^item> An \<open>io.Reader\<close> is what it will still deliver and the error it ends with (\<open>ErrEOF\<close> for a clean
    end); \<open>io.ReadFull\<close>, the only way the package reads a stream, does not depend on how the reader
    splits its data.
  \<^item> An \<open>io.Writer\<close> at the end of the pipeline is a \<open>sink\<close>: the bytes it accepted and, where it is
    faulty, how many more it takes before it fails for good with which error.
  \<^item> The contract of every writer of the pipeline is the locale \<open>io_writer\<close>: a successful write adds
    exactly its bytes to what the writer has accepted (\<open>accepted s d\<close>: the writer in state \<open>s\<close> has
    taken the bytes \<open>d\<close>). \<open>copy_chunks\<close> is the write side of \<open>io.Copy\<close>.
\<close>

section \<open>Readers\<close>

record reader =
  rest :: bytes
  rend :: error

definition reader_of :: "bytes \<Rightarrow> reader" where
  "reader_of bs = \<lparr>rest = bs, rend = ErrEOF\<rparr>"

definition read_full :: "nat \<Rightarrow> reader \<Rightarrow> error + (bytes \<times> reader)" where
  "read_full n r =
     (if n \<le> length (rest r) then Inr (take n (rest r), r\<lparr>rest := drop n (rest r)\<rparr>)
      else if rend r = ErrEOF then Inl (if rest r = [] then ErrEOF else ErrUnexpectedEOF)
      else Inl (rend r))"

lemma rest_reader_of [simp]: "rest (reader_of bs) = bs" "rend (reader_of bs) = ErrEOF"
  by (simp_all add: reader_of_def)

lemma read_full_append:
  "length bs = n \<Longrightarrow> rest r = bs @ s \<Longrightarrow> read_full n r = Inr (bs, r\<lparr>rest := s\<rparr>)"
  by (simp add: read_full_def)

lemma read_full_InrD:
  "read_full n r = Inr (bs, r') \<Longrightarrow>
     length bs = n \<and> rest r = bs @ rest r' \<and> r' = r\<lparr>rest := rest r'\<rparr>"
  by (auto simp: read_full_def split: if_splits)

lemma read_full_0 [simp]: "read_full 0 r = Inr ([], r)"
  by (simp add: read_full_def)

section \<open>Sinks\<close>

record sink =
  written :: bytes
  room :: "(nat \<times> error) option"

definition new_sink :: sink where
  "new_sink = \<lparr>written = [], room = None\<rparr>"

definition sink_write :: "sink \<Rightarrow> bytes \<Rightarrow> sink \<times> error option" where
  "sink_write s b =
     (case room s of
        None \<Rightarrow> (s\<lparr>written := written s @ b\<rparr>, None)
      | Some (n, e) \<Rightarrow>
          if length b \<le> n
          then (s\<lparr>written := written s @ b, room := Some (n - length b, e)\<rparr>, None)
          else (s\<lparr>written := written s @ take n b, room := Some (0, e)\<rparr>, Some e))"

lemma sink_write_ok: "sink_write s b = (s', None) \<Longrightarrow> written s' = written s @ b"
  by (auto simp: sink_write_def split: option.splits prod.splits if_splits)

lemma sink_write_prefix:
  "sink_write s b = (s', r) \<Longrightarrow> \<exists>n. written s' = written s @ take n b"
  by (auto simp: sink_write_def split: option.splits prod.splits if_splits intro: exI [of _ "length b"])

lemma sink_write_room:
  "room s = None \<Longrightarrow> sink_write s b = (s\<lparr>written := written s @ b\<rparr>, None)"
  by (simp add: sink_write_def)

lemma new_sink_simps [simp]: "written new_sink = []" "room new_sink = None"
  by (simp_all add: new_sink_def)

section \<open>The writer interface\<close>

fun copy_chunks :: "('s \<Rightarrow> bytes \<Rightarrow> 's \<times> error option) \<Rightarrow> 's \<Rightarrow> bytes list \<Rightarrow> 's \<times> error option" where
  "copy_chunks wr s [] = (s, None)"
| "copy_chunks wr s (b # bs) =
     (case wr s b of (s', Some e) \<Rightarrow> (s', Some e) | (s', None) \<Rightarrow> copy_chunks wr s' bs)"

locale io_writer =
  fixes wr :: "'s \<Rightarrow> bytes \<Rightarrow> 's \<times> error option"
    and accepted :: "'s \<Rightarrow> bytes \<Rightarrow> bool"
  assumes write_accepted: "accepted s d \<Longrightarrow> wr s b = (s', None) \<Longrightarrow> accepted s' (d @ b)"
begin

lemma copy_accepted:
  "accepted s d \<Longrightarrow> copy_chunks wr s bs = (s', None) \<Longrightarrow> accepted s' (d @ concat bs)"
proof (induction bs arbitrary: s d)
  case (Cons b bs)
  from Cons.prems obtain t where t: "wr s b = (t, None)" "copy_chunks wr t bs = (s', None)"
    by (auto split: prod.splits option.splits)
  from write_accepted [OF Cons.prems(1) t(1)] Cons.IH [OF _ t(2), of "d @ b"]
  show ?case by simp
qed simp

text \<open>Two consecutive writes are accepted as one: the split of the data into writes does not matter.\<close>

lemma write_twice:
  "accepted s d \<Longrightarrow> wr s a = (s', None) \<Longrightarrow> wr s' b = (s'', None) \<Longrightarrow> accepted s'' (d @ a @ b)"
  using write_accepted [of s d a s'] write_accepted [of s' "d @ a" b s''] by simp

end

text \<open>The sink that started at \<open>base\<close>.\<close>

definition sink_accepted :: "bytes \<Rightarrow> sink \<Rightarrow> bytes \<Rightarrow> bool" where
  "sink_accepted base s d \<longleftrightarrow> written s = base @ d"

interpretation sink: io_writer sink_write "sink_accepted base" for base
  by unfold_locales (auto simp: sink_accepted_def dest: sink_write_ok)

end
