(* ===== verification/Wire.thy ===== *)
theory Wire
  imports GoIO
begin

text \<open>
  \<open>wire.go\<close>: the object stream. \<open>wvalue\<close> is \<open>Value\<close> (the fields that match \<open>Kind\<close>, as arguments of one
  constructor per kind), \<open>wpair\<close> is \<open>Pair\<close>. \<open>read_one\<close> and the loop of its dict case, \<open>read_members\<close>,
  call each other; they terminate because every value takes at least its tag byte from the reader.

  \<open>enc_value\<close> is the reference encoding of the format; the lemmas show that the reader inverts it in
  any context, takes a non-empty prefix of the stream and reads nothing beyond it.
\<close>

section \<open>Values\<close>

datatype wvalue =
    VNil
  | VDict "wpair list"
  | VBytes bytes
  | VString string
  | VInt nat
and wpair = WPair (wkey: wvalue) (wval: wvalue)

definition tagEnd :: byte where "tagEnd = 0x40"
definition tagDict :: byte where "tagDict = 0x42"
definition tagBytes :: byte where "tagBytes = 0x11"
definition tagString :: byte where "tagString = 0x10"
definition tagInt :: byte where "tagInt = 0x01"

lemmas tag_defs = tagEnd_def tagDict_def tagBytes_def tagString_def tagInt_def

text \<open>The numbering of the \<open>Kind\<close> enumeration, used in messages.\<close>

fun kind_num :: "wvalue \<Rightarrow> nat" where
  "kind_num VNil = 0"
| "kind_num (VDict ms) = 1"
| "kind_num (VBytes b) = 2"
| "kind_num (VString s) = 3"
| "kind_num (VInt n) = 4"

fun lookup_members :: "wpair list \<Rightarrow> string \<Rightarrow> wvalue option" where
  "lookup_members [] name = None"
| "lookup_members (WPair k v # ms) name =
     (if k = VString name then Some v else lookup_members ms name)"

fun Lookup :: "wvalue \<Rightarrow> string \<Rightarrow> wvalue option" where
  "Lookup (VDict ms) name = lookup_members ms name"
| "Lookup v name = None"

section \<open>Reading\<close>

definition readShortBlob :: "reader \<Rightarrow> error + (bytes \<times> reader)" where
  "readShortBlob r =
     (case read_full 2 r of
        Inl e \<Rightarrow> Inl e
      | Inr (lenBuf, r1) \<Rightarrow>
          let n = unat (uint16 lenBuf)
          in if n = 0 then Inr ([], r1) else read_full n r1)"

definition readInt :: "reader \<Rightarrow> error + (nat \<times> reader)" where
  "readInt r =
     (case read_full 1 r of
        Inl e \<Rightarrow> Inl e
      | Inr (szBuf, r1) \<Rightarrow>
          (case read_full (unat (szBuf ! 0)) r1 of
             Inl e \<Rightarrow> Inl e
           | Inr (digits, r2) \<Rightarrow> Inr (be_nat digits, r2)))"

lemma readShortBlob_shorter:
  "readShortBlob r = Inr (b, r') \<Longrightarrow> length (rest r') < length (rest r)"
  by (auto simp: readShortBlob_def Let_def dest!: read_full_InrD split: sum.splits if_splits)

lemma readInt_shorter:
  "readInt r = Inr (n, r') \<Longrightarrow> length (rest r') < length (rest r)"
  by (auto simp: readInt_def dest!: read_full_InrD split: sum.splits)

function (domintros) read_one :: "reader \<Rightarrow> error + (wvalue \<times> bool \<times> reader)"
  and read_members :: "wpair list \<Rightarrow> reader \<Rightarrow> error + (wvalue \<times> bool \<times> reader)" where
  "read_one r =
     (case read_full 1 r of
        Inl e \<Rightarrow> Inl e
      | Inr (head, r1) \<Rightarrow>
          let tag = head ! 0 in
          if tag = tagEnd then Inr (VNil, True, r1)
          else if tag = tagDict then read_members [] r1
          else if tag = tagBytes then
            (case readShortBlob r1 of Inl e \<Rightarrow> Inl e | Inr (b, r2) \<Rightarrow> Inr (VBytes b, False, r2))
          else if tag = tagString then
            (case readShortBlob r1 of
               Inl e \<Rightarrow> Inl e
             | Inr (b, r2) \<Rightarrow> Inr (VString (string_of_bytes b), False, r2))
          else if tag = tagInt then
            (case readInt r1 of Inl e \<Rightarrow> Inl e | Inr (n, r2) \<Rightarrow> Inr (VInt n, False, r2))
          else Inl (ErrUnknownTag tag))"
| "read_members members r =
     (case read_one r of
        Inl e \<Rightarrow> Inl e
      | Inr (key, term, r1) \<Rightarrow>
          if term then Inr (VDict members, False, r1)
          else
            (case read_one r1 of
               Inl e \<Rightarrow> Inl e
             | Inr (val, termV, r2) \<Rightarrow>
                 if termV then Inl ErrDictKeyNoValue
                 else read_members (members @ [WPair key val]) r2))"
  by pat_completeness auto

lemma read_shorter_dom:
  "read_one_read_members_dom (Inl r) \<Longrightarrow>
     read_one r = Inr (v, t, r') \<Longrightarrow> length (rest r') < length (rest r)"
  "read_one_read_members_dom (Inr (ms, r)) \<Longrightarrow>
     read_members ms r = Inr (v, t, r') \<Longrightarrow> length (rest r') < length (rest r)"
proof (induction r and ms r arbitrary: v t r' and v t r' rule: read_one_read_members.pinduct)
  case (1 r)
  from "1.prems" obtain head r1 where h: "read_full 1 r = Inr (head, r1)"
    by (auto simp: read_one.psimps [OF "1.hyps"] split: sum.splits)
  then have l: "length (rest r1) < length (rest r)" by (auto dest!: read_full_InrD)
  show ?case
  proof (cases "head ! 0 \<noteq> tagEnd \<and> head ! 0 = tagDict")
    case True
    with "1.prems" h have "read_members [] r1 = Inr (v, t, r')"
      by (simp add: read_one.psimps [OF "1.hyps"] tag_defs)
    with "1.IH" [OF h refl refl] True l show ?thesis by (auto dest: less_trans)
  next
    case False
    with "1.prems" h l show ?thesis
      by (auto simp: read_one.psimps [OF "1.hyps"] Let_def
          dest!: readShortBlob_shorter readInt_shorter split: sum.splits if_splits)
  qed
next
  case (2 ms r)
  show ?case
  proof (cases "read_one r")
    case (Inl e)
    with "2.prems" show ?thesis by (simp add: read_members.psimps [OF "2.hyps"])
  next
    case (Inr x)
    then obtain k t1 r1 where x: "read_one r = Inr (k, t1, r1)" by (cases x) auto
    with "2.IH"(1) have r1: "length (rest r1) < length (rest r)" by blast
    show ?thesis
    proof (cases t1)
      case True
      with "2.prems" x r1 show ?thesis by (simp add: read_members.psimps [OF "2.hyps"])
    next
      case False
      with "2.prems" x obtain w r2 where y: "read_one r1 = Inr (w, False, r2)"
        and z: "read_members (ms @ [WPair k w]) r2 = Inr (v, t, r')"
        by (auto simp: read_members.psimps [OF "2.hyps"] split: sum.splits if_splits)
      from "2.IH"(2) [OF x refl refl False y] have "length (rest r2) < length (rest r1)" .
      moreover from "2.IH"(3) [OF x refl refl False y refl refl _ z]
      have "length (rest r') < length (rest r2)" by simp
      ultimately show ?thesis using r1 by simp
    qed
  qed
qed

lemma read_twice_shorter_dom:
  "read_one_read_members_dom (Inl r) \<Longrightarrow> read_one r = Inr (k, t, r1) \<Longrightarrow>
   read_one_read_members_dom (Inl r1) \<Longrightarrow> read_one r1 = Inr (v, t', r2) \<Longrightarrow>
   length (rest r2) < length (rest r)"
  using read_shorter_dom(1) [of r k t r1] read_shorter_dom(1) [of r1 v t' r2] by simp

termination read_one
proof (relation "measure (\<lambda>x. case x of Inl r \<Rightarrow> 2 * length (rest r)
    | Inr (ms, r) \<Rightarrow> 2 * length (rest r) + 1)", goal_cases)
  case 1
  then show ?case by simp
qed (auto dest!: read_full_InrD dest: read_shorter_dom(1) read_twice_shorter_dom)

declare read_one.simps [simp del] read_members.simps [simp del]

section \<open>The stream reader\<close>

text \<open>
  \<open>StreamReader.Next\<close>: \<open>Inr None\<close> is \<open>ok = false, err = nil\<close>. \<open>io.EOF\<close> is compared by identity, and so
  is every \<open>io.EOF\<close> that \<open>readOne\<close> passes up from inside a value.
\<close>

definition Next :: "reader \<Rightarrow> error + (wvalue \<times> reader) option" where
  "Next r =
     (case read_one r of
        Inl e \<Rightarrow> if e = ErrEOF then Inr None else Inl e
      | Inr (v, term, r') \<Rightarrow> if term then Inr None else Inr (Some (v, r')))"

section \<open>A read takes a prefix of the stream\<close>

text \<open>
  \<open>takes f r p r' x\<close>: on \<open>r\<close> the reading function \<open>f\<close> gave \<open>x\<close> and consumed exactly the bytes \<open>p\<close>, and
  it does the same on every reader that starts with \<open>p\<close>, whatever follows.
\<close>

definition takes :: "(reader \<Rightarrow> error + 'r) \<Rightarrow> (reader \<Rightarrow> 'r) \<Rightarrow> bytes \<Rightarrow> bool" where
  "takes f mk p \<longleftrightarrow> (\<forall>q s. rest q = p @ s \<longrightarrow> f q = Inr (mk (q\<lparr>rest := s\<rparr>)))"

lemma takesD: "takes f mk p \<Longrightarrow> rest q = p @ s \<Longrightarrow> f q = Inr (mk (q\<lparr>rest := s\<rparr>))"
  by (simp add: takes_def)

lemma takes_read_full: "length p = n \<Longrightarrow> takes (read_full n) (\<lambda>q. (p, q)) p"
  by (simp add: takes_def read_full_def)

text \<open>Sequencing: where \<open>f\<close> succeeds with \<open>mk1\<close>, \<open>h\<close> goes on as \<open>g\<close>.\<close>

lemma takes_seq:
  assumes "takes f mk1 p" and "takes g mk s" and "\<And>q q'. f q = Inr (mk1 q') \<Longrightarrow> h q = g q'"
  shows "takes h mk (p @ s)"
proof -
  have "h q = Inr (mk (q\<lparr>rest := u\<rparr>))" if "rest q = (p @ s) @ u" for q u
  proof -
    from that have "f q = Inr (mk1 (q\<lparr>rest := s @ u\<rparr>))" by (intro takesD [OF assms(1)]) simp
    then have "h q = g (q\<lparr>rest := s @ u\<rparr>)" by (rule assms(3))
    then show ?thesis using takesD [OF assms(2), of "q\<lparr>rest := s @ u\<rparr>" u] by simp
  qed
  then show ?thesis by (simp add: takes_def)
qed

lemma takes_done: "(\<And>q. g q = Inr (mk q)) \<Longrightarrow> takes g mk []"
  by (simp add: takes_def)

lemma takes_then:
  assumes "takes f mk1 p" and "\<And>q q'. f q = Inr (mk1 q') \<Longrightarrow> h q = Inr (mk q')"
  shows "takes h mk p"
  using takes_seq [OF assms(1) takes_done, of "\<lambda>q. Inr (mk q)" mk h] assms(2) by simp

lemma readShortBlob_prefix:
  assumes "readShortBlob r = Inr (b, r')"
  shows "\<exists>p. p \<noteq> [] \<and> rest r = p @ rest r' \<and> r' = r\<lparr>rest := rest r'\<rparr> \<and> length b \<le> 65535 \<and>
    takes readShortBlob (\<lambda>q. (b, q)) p"
proof -
  from assms obtain l r1 where l: "read_full 2 r = Inr (l, r1)"
    and n: "(if unat (uint16 l) = 0 then Inr ([], r1) else read_full (unat (uint16 l)) r1) = Inr (b, r')"
    by (auto simp: readShortBlob_def Let_def split: sum.splits)
  let ?g = "\<lambda>l q. if unat (uint16 l) = 0 then Inr ([], q) else read_full (unat (uint16 l)) q"
  from n have b: "length b = unat (uint16 l)" "rest r1 = b @ rest r'" "r' = r1\<lparr>rest := rest r'\<rparr>"
    by (auto dest!: read_full_InrD split: if_splits)
  then have g: "takes (?g l) (\<lambda>q. (b, q)) b"
    by (auto simp: takes_def read_full_def)
  have "takes readShortBlob (\<lambda>q. (b, q)) (l @ b)"
    by (rule takes_seq [OF takes_read_full [of l 2] g])
      (use l in \<open>auto simp: readShortBlob_def dest: read_full_InrD\<close>)
  moreover have "length b \<le> 65535"
    using b(1) unsigned_less [of "uint16 l", where 'a = nat] by simp
  moreover have "rest r = (l @ b) @ rest r'" "l @ b \<noteq> []" "r' = r\<lparr>rest := rest r'\<rparr>"
    using read_full_InrD [OF l] b by auto
  ultimately show ?thesis by blast
qed

lemma readInt_prefix:
  assumes "readInt r = Inr (n, r')"
  shows "\<exists>p. p \<noteq> [] \<and> rest r = p @ rest r' \<and> r' = r\<lparr>rest := rest r'\<rparr> \<and> n < 256 ^ 255 \<and>
    takes readInt (\<lambda>q. (n, q)) p"
proof -
  from assms obtain l r1 ds where l: "read_full 1 r = Inr (l, r1)"
    and ds: "read_full (unat (l ! 0)) r1 = Inr (ds, r')" and n: "n = be_nat ds"
    by (auto simp: readInt_def split: sum.splits)
  let ?g = "\<lambda>l q. case read_full (unat (l ! 0)) q of Inl e \<Rightarrow> Inl e | Inr (ds, q') \<Rightarrow> Inr (be_nat ds, q')"
  have len: "length ds = unat (l ! 0)" using ds by (auto dest: read_full_InrD)
  then have "takes (?g l) (\<lambda>q. (n, q)) ds"
    using n by (auto simp: takes_def read_full_def)
  then have "takes readInt (\<lambda>q. (n, q)) (l @ ds)"
    by (intro takes_seq [OF takes_read_full [of l 1]])
      (use l in \<open>auto simp: readInt_def dest: read_full_InrD\<close>)
  moreover have "n < 256 ^ 255"
  proof -
    have "length ds \<le> 255" using len unat_byte_less [of "l ! 0"] by simp
    then have "(256 :: nat) ^ length ds \<le> 256 ^ 255" by (intro power_increasing) simp_all
    with be_nat_bound [of ds] n show ?thesis by simp
  qed
  moreover have "rest r = (l @ ds) @ rest r'" "l @ ds \<noteq> []" "r' = r\<lparr>rest := rest r'\<rparr>"
    using read_full_InrD [OF l] read_full_InrD [OF ds] by auto
  ultimately show ?thesis by blast
qed

text \<open>What the reader can produce: no \<open>VNil\<close> inside, lengths and integers within the wire's bounds.\<close>

primrec wf_value :: "wvalue \<Rightarrow> bool" and wf_pair :: "wpair \<Rightarrow> bool" where
  "wf_value VNil = False"
| "wf_value (VDict ms) = list_all wf_pair ms"
| "wf_value (VBytes b) = (length b \<le> 65535)"
| "wf_value (VString s) = (length s \<le> 65535)"
| "wf_value (VInt n) = (n < 256 ^ 255)"
| "wf_pair (WPair k v) = (wf_value k \<and> wf_value v)"

lemma takes_tag:
  assumes "takes g mk p"
    and "\<And>q q'. read_full 1 q = Inr ([tag], q') \<Longrightarrow> read_one q = g q'"
  shows "takes read_one mk (tag # p)"
  using takes_seq [OF takes_read_full [of "[tag]" 1] assms(1), of read_one] assms(2) by simp

lemmas read_one_tag = read_one.simps [unfolded Let_def]

lemma takes_atom:
  assumes "takes f (\<lambda>q. (x, q)) p"
    and "\<And>q q'. read_full 1 q = Inr ([tag], q') \<Longrightarrow>
      read_one q = (case f q' of Inl e \<Rightarrow> Inl e | Inr (x, r2) \<Rightarrow> Inr (mk x, False, r2))"
  shows "takes read_one (\<lambda>q. (mk x, False, q)) (tag # p)"
proof (rule takes_tag [OF _ assms(2)])
  show "takes (\<lambda>q. case f q of Inl e \<Rightarrow> Inl e | Inr (x, r2) \<Rightarrow> Inr (mk x, False, r2)) (\<lambda>q. (mk x, False, q)) p"
    by (rule takes_then [OF assms(1)]) simp
qed

lemma takes_atoms:
  shows "takes readShortBlob (\<lambda>q. (b, q)) p \<Longrightarrow> takes read_one (\<lambda>q. (VBytes b, False, q)) (tagBytes # p)"
    and "takes readShortBlob (\<lambda>q. (b, q)) p \<Longrightarrow>
      takes read_one (\<lambda>q. (VString (string_of_bytes b), False, q)) (tagString # p)"
    and "takes readInt (\<lambda>q. (n, q)) p \<Longrightarrow> takes read_one (\<lambda>q. (VInt n, False, q)) (tagInt # p)"
    and "takes (read_members []) (\<lambda>q. (v, False, q)) p \<Longrightarrow> takes read_one (\<lambda>q. (v, False, q)) (tagDict # p)"
    and "takes read_one (\<lambda>q. (VNil, True, q)) [tagEnd]"
proof -
  assume b: "takes readShortBlob (\<lambda>q. (b, q)) p"
  show "takes read_one (\<lambda>q. (VBytes b, False, q)) (tagBytes # p)"
    by (rule takes_atom [OF b]) (simp add: read_one_tag, simp add: tag_defs)
  show "takes read_one (\<lambda>q. (VString (string_of_bytes b), False, q)) (tagString # p)"
    by (rule takes_atom [OF b, where mk = "\<lambda>b. VString (string_of_bytes b)"])
      (simp add: read_one_tag, simp add: tag_defs)
next
  assume "takes readInt (\<lambda>q. (n, q)) p"
  then show "takes read_one (\<lambda>q. (VInt n, False, q)) (tagInt # p)"
    by (rule takes_atom) (simp add: read_one_tag, simp add: tag_defs)
next
  assume "takes (read_members []) (\<lambda>q. (v, False, q)) p"
  then show "takes read_one (\<lambda>q. (v, False, q)) (tagDict # p)"
    by (rule takes_tag) (simp add: read_one_tag, simp add: tag_defs)
next
  show "takes read_one (\<lambda>q. (VNil, True, q)) [tagEnd]"
    by (intro takes_tag [OF takes_done]) (auto simp: read_one_tag)
qed

lemma takes_members_end:
  assumes "takes read_one (\<lambda>q. (k, True, q)) p"
  shows "takes (read_members ms) (\<lambda>q. (VDict ms, False, q)) p"
  by (rule takes_then [OF assms]) (simp add: read_members.simps [of ms])

lemma takes_members:
  assumes "takes read_one (\<lambda>q. (k, False, q)) pk" and "takes read_one (\<lambda>q. (w, False, q)) pw"
    and "takes (read_members (ms @ [WPair k w])) mk p"
  shows "takes (read_members ms) mk (pk @ pw @ p)"
  by (rule takes_seq [OF assms(1) takes_seq [OF assms(2,3), where h = "\<lambda>r1. case read_one r1 of
         Inl e \<Rightarrow> Inl e
       | Inr (val, termV, r2) \<Rightarrow> if termV then Inl ErrDictKeyNoValue
            else read_members (ms @ [WPair k val]) r2"]])
    (simp_all add: read_members.simps [of ms])

lemma read_prefix:
  "read_one r = Inr (v, t, r') \<Longrightarrow>
     \<exists>p. p \<noteq> [] \<and> rest r = p @ rest r' \<and> r' = r\<lparr>rest := rest r'\<rparr> \<and>
       (if t then v = VNil else wf_value v) \<and> takes read_one (\<lambda>q. (v, t, q)) p"
  "read_members ms r = Inr (v, t, r') \<Longrightarrow> list_all wf_pair ms \<Longrightarrow>
     \<exists>p. p \<noteq> [] \<and> rest r = p @ rest r' \<and> r' = r\<lparr>rest := rest r'\<rparr> \<and>
       \<not> t \<and> wf_value v \<and> takes (read_members ms) (\<lambda>q. (v, t, q)) p"
proof (induction r and ms r arbitrary: v t r' and v t r' rule: read_one_read_members.induct)
  case (1 r)
  from "1.prems" obtain head r1 where h: "read_full 1 r = Inr (head, r1)"
    by (auto simp: read_one.simps [of r] split: sum.splits)
  then obtain tag where head: "head = [tag]" by (auto dest!: read_full_InrD simp: length_Suc_conv)
  with h have r: "rest r = tag # rest r1" "r1 = r\<lparr>rest := rest r1\<rparr>"
    by (auto dest!: read_full_InrD)
  from "1.prems" h head consider
      (End) "tag = tagEnd" "v = VNil" "t" "r' = r1"
    | (Dict) "tag = tagDict" "read_members [] r1 = Inr (v, t, r')"
    | (Bytes) b where "tag = tagBytes" "readShortBlob r1 = Inr (b, r')" "v = VBytes b" "\<not> t"
    | (String) b where "tag = tagString" "readShortBlob r1 = Inr (b, r')"
        "v = VString (string_of_bytes b)" "\<not> t"
    | (Int) n where "tag = tagInt" "readInt r1 = Inr (n, r')" "v = VInt n" "\<not> t"
    by (auto simp: read_one_tag [of r] split: sum.splits if_splits)
  then obtain p where "rest r1 = p @ rest r'" "r' = r1\<lparr>rest := rest r'\<rparr>"
    "if t then v = VNil else wf_value v" "takes read_one (\<lambda>q. (v, t, q)) (tag # p)"
  proof cases
    case End
    with that [of "[]"] takes_atoms(5) show ?thesis by auto
  next
    case Dict
    with "1.IH" [OF h refl refl] head obtain p where p: "rest r1 = p @ rest r'"
      "r' = r1\<lparr>rest := rest r'\<rparr>" "\<not> t" "wf_value v" "takes (read_members []) (\<lambda>q. (v, t, q)) p"
      by (auto simp: tag_defs)
    with Dict that [OF p(1,2)] takes_atoms(4) show ?thesis by simp
  next
    case Bytes
    from readShortBlob_prefix [OF Bytes(2)] obtain p where p: "rest r1 = p @ rest r'"
      "r' = r1\<lparr>rest := rest r'\<rparr>" "length b \<le> 65535" "takes readShortBlob (\<lambda>q. (b, q)) p" by auto
    with Bytes that [OF p(1,2)] takes_atoms(1) [OF p(4)] show ?thesis by simp
  next
    case String
    from readShortBlob_prefix [OF String(2)] obtain p where p: "rest r1 = p @ rest r'"
      "r' = r1\<lparr>rest := rest r'\<rparr>" "length b \<le> 65535" "takes readShortBlob (\<lambda>q. (b, q)) p" by auto
    with String that [OF p(1,2)] takes_atoms(2) [OF p(4)] show ?thesis by simp
  next
    case Int
    from readInt_prefix [OF Int(2)] obtain p where p: "rest r1 = p @ rest r'"
      "r' = r1\<lparr>rest := rest r'\<rparr>" "n < 256 ^ 255" "takes readInt (\<lambda>q. (n, q)) p" by auto
    with Int that [OF p(1,2)] takes_atoms(3) [OF p(4)] show ?thesis by simp
  qed
  with r show ?case by (intro exI [of _ "tag # p"]) auto
next
  case (2 ms r)
  from "2.prems"(1) obtain k t1 r1 where k: "read_one r = Inr (k, t1, r1)"
    by (cases "read_one r") (auto simp: read_members.simps [of ms r])
  from "2.IH"(1) [OF k] obtain p where p: "p \<noteq> []" "rest r = p @ rest r1"
    "r1 = r\<lparr>rest := rest r1\<rparr>" "if t1 then k = VNil else wf_value k"
    "takes read_one (\<lambda>q. (k, t1, q)) p" by blast
  show ?case
  proof (cases t1)
    case True
    with "2.prems" k have v: "v = VDict ms" "\<not> t" "r' = r1" by (simp_all add: read_members.simps [of ms r])
    with p(5) True have "takes (read_members ms) (\<lambda>q. (v, t, q)) p" by (simp add: takes_members_end)
    with p v "2.prems"(2) show ?thesis by auto
  next
    case False
    with "2.prems" k obtain w r2 where w: "read_one r1 = Inr (w, False, r2)"
      and m: "read_members (ms @ [WPair k w]) r2 = Inr (v, t, r')"
      by (auto simp: read_members.simps [of ms r] split: sum.splits if_splits)
    from "2.IH"(2) [OF k refl refl False w] obtain p2 where p2: "rest r1 = p2 @ rest r2"
      "r2 = r1\<lparr>rest := rest r2\<rparr>" "wf_value w" "takes read_one (\<lambda>q. (w, False, q)) p2" by auto
    with p(4) False "2.prems"(2) have wf: "list_all wf_pair (ms @ [WPair k w])" by simp
    from "2.IH"(3) [OF k refl refl False w refl refl _ m wf] obtain p3 where
      p3: "rest r2 = p3 @ rest r'" "r' = r2\<lparr>rest := rest r'\<rparr>" "\<not> t" "wf_value v"
        "takes (read_members (ms @ [WPair k w])) (\<lambda>q. (v, t, q)) p3" by auto
    have "takes (read_members ms) (\<lambda>q. (v, t, q)) (p @ p2 @ p3)"
      using takes_members [OF _ p2(4) p3(5), where pk = p] p(5) False by simp
    with p p2 p3 show ?thesis by (intro exI [of _ "p @ p2 @ p3"]) auto
  qed
qed

lemma read_one_shorter: "read_one r = Inr (v, t, r') \<Longrightarrow> length (rest r') < length (rest r)"
  by (drule read_prefix(1)) auto

lemma Next_shorter: "Next r = Inr (Some (v, r')) \<Longrightarrow> length (rest r') < length (rest r)"
  by (auto simp: Next_def dest: read_one_shorter split: sum.splits if_splits)

lemma Next_wf: "Next r = Inr (Some (v, r')) \<Longrightarrow> wf_value v"
  by (auto simp: Next_def dest!: read_prefix(1) split: sum.splits if_splits)

section \<open>The reference encoding\<close>

definition enc_blob :: "bytes \<Rightarrow> bytes" where
  "enc_blob b = put_uint16 (word_of_nat (length b)) @ b"

definition enc_int :: "nat \<Rightarrow> bytes" where
  "enc_int n = word_of_nat (num_bytes n) # be_bytes (num_bytes n) n"

primrec enc_value :: "wvalue \<Rightarrow> bytes" and enc_pair :: "wpair \<Rightarrow> bytes" where
  "enc_value VNil = [tagEnd]"
| "enc_value (VDict ms) = tagDict # concat (map enc_pair ms) @ [tagEnd]"
| "enc_value (VBytes b) = tagBytes # enc_blob b"
| "enc_value (VString s) = tagString # enc_blob (bytes_of_string s)"
| "enc_value (VInt n) = tagInt # enc_int n"
| "enc_pair (WPair k v) = enc_value k @ enc_value v"

lemma takes_readShortBlob:
  assumes "length b \<le> 65535"
  shows "takes readShortBlob (\<lambda>q. (b, q)) (enc_blob b)"
proof -
  have "unat (word_of_nat (length b) :: 16 word) = length b"
    using assms by (simp add: unat_of_nat)
  then have "takes (\<lambda>q. if length b = 0 then Inr ([], q) else read_full (length b) q) (\<lambda>q. (b, q)) b"
    and "\<And>q q'. read_full 2 q = Inr (put_uint16 (word_of_nat (length b)), q') \<Longrightarrow>
      readShortBlob q = (if length b = 0 then Inr ([], q') else read_full (length b) q')"
    by (auto simp: takes_def read_full_def readShortBlob_def)
  then show ?thesis
    unfolding enc_blob_def by (intro takes_seq [OF takes_read_full]) simp_all
qed

lemma takes_readInt:
  assumes "n < 256 ^ 255"
  shows "takes readInt (\<lambda>q. (n, q)) (enc_int n)"
proof -
  have "num_bytes n \<le> 255" using assms by (intro num_bytes_le) simp_all
  then have "unat (word_of_nat (num_bytes n) :: byte) = num_bytes n" by (simp add: unat_of_nat)
  then have "takes readInt (\<lambda>q. (n, q)) ([word_of_nat (num_bytes n)] @ be_bytes (num_bytes n) n)"
    by (intro takes_seq [OF takes_read_full [of _ 1] takes_then [OF takes_read_full [of _ "num_bytes n"],
          where h = "\<lambda>q. case read_full (num_bytes n) q of Inl e \<Rightarrow> Inl e
            | Inr (ds, q') \<Rightarrow> Inr (be_nat ds, q')"]])
      (simp_all add: readInt_def num_bytes_bound)
  then show ?thesis by (simp add: enc_int_def)
qed

lemma takes_read_one:
  "wf_value v \<Longrightarrow> takes read_one (\<lambda>q. (v, False, q)) (enc_value v)"
  "wf_pair x \<Longrightarrow> takes read_one (\<lambda>q. (wkey x, False, q)) (enc_value (wkey x)) \<and>
     takes read_one (\<lambda>q. (wval x, False, q)) (enc_value (wval x))"
proof (induction v and x)
  case (VDict ms)
  have "takes (read_members acc) (\<lambda>q. (VDict (acc @ ms), False, q)) (concat (map enc_pair ms) @ [tagEnd])"
    for acc
    using VDict
  proof (induction ms arbitrary: acc)
    case Nil
    show ?case using takes_members_end [OF takes_atoms(5)] by simp
  next
    case (Cons x ms)
    obtain k v where x: "x = WPair k v" by (cases x)
    have "takes read_one (\<lambda>q. (k, False, q)) (enc_value k)" "takes read_one (\<lambda>q. (v, False, q)) (enc_value v)"
      using Cons.prems(1) [of x] Cons.prems(2) x by auto
    moreover have "takes (read_members (acc @ [x])) (\<lambda>q. (VDict ((acc @ [x]) @ ms), False, q))
        (concat (map enc_pair ms) @ [tagEnd])"
      using Cons.prems by (intro Cons.IH) auto
    ultimately show ?case
      using takes_members [of k "enc_value k" v "enc_value v" acc] by (simp add: x)
  qed
  from takes_atoms(4) [OF this [of "[]"]] show ?case by simp
next
  case (VBytes b)
  then show ?case by (simp add: takes_atoms(1) takes_readShortBlob)
next
  case (VString s)
  then show ?case using takes_atoms(2) [OF takes_readShortBlob, of "bytes_of_string s"] by simp
next
  case (VInt n)
  then show ?case by (simp add: takes_atoms(3) takes_readInt)
qed simp_all

lemma read_one_enc_value:
  "wf_value v \<Longrightarrow> rest r = enc_value v @ s \<Longrightarrow> read_one r = Inr (v, False, r\<lparr>rest := s\<rparr>)"
  using takesD [OF takes_read_one(1)] by blast

lemma Next_enc_value:
  "wf_value v \<Longrightarrow> rest r = enc_value v @ s \<Longrightarrow> Next r = Inr (Some (v, r\<lparr>rest := s\<rparr>))"
  by (simp add: Next_def read_one_enc_value)

lemma Next_end: "rest r = [] \<Longrightarrow> rend r = ErrEOF \<Longrightarrow> Next r = Inr None"
  by (simp add: Next_def read_one.simps [of r] read_full_def)

lemma read_members_cut:
  "list_all wf_pair ms \<Longrightarrow> rest r = concat (map enc_pair ms) \<Longrightarrow> rend r = ErrEOF \<Longrightarrow>
     read_members acc r = Inl ErrEOF"
proof (induction ms arbitrary: acc r)
  case Nil
  then show ?case by (simp add: read_members.simps [of acc r] read_one.simps [of r] read_full_def)
next
  case (Cons x ms)
  obtain k v where x: "x = WPair k v" by (cases x)
  let ?r = "r\<lparr>rest := concat (map enc_pair ms)\<rparr>"
  have "read_one r = Inr (k, False, r\<lparr>rest := enc_value v @ rest ?r\<rparr>)"
    and "read_one (r\<lparr>rest := enc_value v @ rest ?r\<rparr>) = Inr (v, False, ?r)"
    using Cons.prems x
      read_one_enc_value [of k r] read_one_enc_value [of v "r\<lparr>rest := enc_value v @ rest ?r\<rparr>" "rest ?r"]
    by simp_all
  moreover have "read_members (acc @ [x]) ?r = Inl ErrEOF"
    using Cons.prems by (intro Cons.IH) simp_all
  ultimately show ?case by (simp add: read_members.simps [of acc r] x)
qed

lemma read_one_cut_dict:
  "list_all wf_pair ms \<Longrightarrow> rest r = tagDict # concat (map enc_pair ms) \<Longrightarrow> rend r = ErrEOF \<Longrightarrow>
     read_one r = Inl ErrEOF"
  using read_members_cut [of ms "r\<lparr>rest := concat (map enc_pair ms)\<rparr>" "[]"]
  by (simp add: read_one_tag [of r] read_full_def tag_defs)

lemma lookup_members_append:
  "lookup_members (xs @ ys) name =
     (case lookup_members xs name of None \<Rightarrow> lookup_members ys name | Some v \<Rightarrow> Some v)"
  by (induction xs name rule: lookup_members.induct) simp_all

section \<open>Properties\<close>

text \<open>
  C8: The stream decoder inverts the reference encoding: from any position where the encoding of a
  well-formed value (nested dicts included) stands, whatever follows it, \<open>readOne\<close> returns exactly
  that value and leaves the reader right behind it.
\<close>

theorem readOne_inverts_encoding:
  assumes "wf_value v" and "rest r = enc_value v @ s"
  shows "read_one r = Inr (v, False, r\<lparr>rest := s\<rparr>)"
  using assms by (rule read_one_enc_value)

theorem readOne_inverts_encoding_witness:
  "read_one (reader_of (enc_value (VDict [WPair (VString ''k'') (VInt 300)]) @ [7])) =
     Inr (VDict [WPair (VString ''k'') (VInt 300)], False, (reader_of [])\<lparr>rest := [7]\<rparr>)"
  using readOne_inverts_encoding [of "VDict [WPair (VString ''k'') (VInt 300)]"
      "reader_of (enc_value (VDict [WPair (VString ''k'') (VInt 300)]) @ [7])" "[7]"]
  by (simp add: reader_of_def)

text \<open>
  C9: Streaming locality: a successful \<open>readOne\<close> consumes a non-empty prefix of the stream, its value
  is a terminator or a value within the wire's bounds, and the same prefix gives the same result in
  front of any other continuation (nothing beyond it is read).
\<close>

theorem readOne_consumes_prefix:
  assumes "read_one r = Inr (v, t, r')"
  shows "\<exists>p. p \<noteq> [] \<and> rest r = p @ rest r' \<and> (if t then v = VNil else wf_value v) \<and>
    (\<forall>s e. read_one \<lparr>rest = p @ s, rend = e\<rparr> = Inr (v, t, \<lparr>rest = s, rend = e\<rparr>))"
  using read_prefix(1) [OF assms] by (force simp: takes_def)

theorem readOne_consumes_prefix_witness:
  "\<exists>p. p \<noteq> [] \<and> [0x11, 0, 1, 65, 9] = p @ [9] \<and>
    (\<forall>s e. read_one \<lparr>rest = p @ s, rend = e\<rparr> = Inr (VBytes [65], False, \<lparr>rest = s, rend = e\<rparr>))"
proof -
  have "read_one (reader_of [0x11, 0, 1, 65, 9]) = Inr (VBytes [65], False, reader_of [9])"
    by (simp add: read_one_tag tag_defs read_full_def readShortBlob_def uint16_def be_nat_def
        reader_of_def)
  from readOne_consumes_prefix [OF this] show ?thesis by auto
qed

text \<open>
  C18: A truncated stream can pass for a complete one: a dict cut off at any boundary between its
  values, before its terminator, makes \<open>Next\<close> report a clean end of stream (no value and no error),
  because the \<open>io.EOF\<close> of the inner read reaches \<open>Next\<close> unchanged.
\<close>

theorem Next_truncated_dict_is_clean_end:
  assumes "list_all wf_pair ms"
  shows "Next (reader_of (tagDict # concat (map enc_pair ms))) = Inr None"
  using assms read_one_cut_dict [of ms "reader_of (tagDict # concat (map enc_pair ms))"]
  by (simp add: Next_def)

theorem Next_truncated_dict_is_clean_end_witness:
  "Next (reader_of (tagDict # concat (map enc_pair [WPair (VString ''type'') (VString ''metadata'')]))) =
     Inr None"
  by (rule Next_truncated_dict_is_clean_end) simp

end
