(* ===== verification/WireEncoder.thy ===== *)
theory WireEncoder
  imports Wire
begin

text \<open>
  The wire encoders of \<open>encrypt.go\<close>: \<open>wireEnc\<close> with its sticky error, its operations, and the dicts the
  writer emits. \<open>emits f ok bs\<close> is what an encoder program \<open>f\<close> promises: it does nothing once an error
  is set; where it leaves no error it has appended exactly \<open>bs\<close>; and on a sink that never fails it
  succeeds if \<open>ok\<close> holds. The locale \<open>emitter\<close> composes programs; every operation interprets it.
\<close>

record wireEnc =
  ew :: sink
  eerr :: "error option"

definition writeAll :: "bytes \<Rightarrow> wireEnc \<Rightarrow> wireEnc" where
  "writeAll b e =
     (if eerr e \<noteq> None then e
      else let (s, r) = sink_write (ew e) b in e\<lparr>ew := s, eerr := r\<rparr>)"

definition dictStart :: "wireEnc \<Rightarrow> wireEnc" where
  "dictStart e = writeAll [tagDict] e"

definition dictEnd :: "wireEnc \<Rightarrow> wireEnc" where
  "dictEnd e = writeAll [tagEnd] e"

definition writeShortBlob :: "bytes \<Rightarrow> wireEnc \<Rightarrow> wireEnc" where
  "writeShortBlob b e =
     (if 0xFFFF < length b
      then (if eerr e = None then e\<lparr>eerr := Some (ErrBlobTooLong (length b))\<rparr> else e)
      else writeAll b (writeAll (put_uint16 (word_of_nat (length b))) e))"

text \<open>The loop \<open>for start < 7 && b[start] == 0\<close>.\<close>

fun skip_zeros :: "nat \<Rightarrow> bytes \<Rightarrow> bytes" where
  "skip_zeros 0 bs = bs"
| "skip_zeros (Suc k) [] = []"
| "skip_zeros (Suc k) (b # bs) = (if b = 0 then skip_zeros k bs else b # bs)"

definition writeIntBody :: "int64 \<Rightarrow> wireEnc \<Rightarrow> wireEnc" where
  "writeIntBody n e =
     (if sint n < 0
      then (if eerr e = None then e\<lparr>eerr := Some (ErrNegativeInt n)\<rparr> else e)
      else if n = 0 then writeAll [1, 0] e
      else let b = skip_zeros 7 (put_uint64 n)
           in writeAll b (writeAll [word_of_nat (length b)] e))"

definition enc_key :: "string \<Rightarrow> wireEnc \<Rightarrow> wireEnc" where
  "enc_key s e = writeShortBlob (bytes_of_string s) (writeAll [tagString] e)"

definition strPair :: "string \<Rightarrow> string \<Rightarrow> wireEnc \<Rightarrow> wireEnc" where
  "strPair k v e = writeShortBlob (bytes_of_string v) (writeAll [tagString] (enc_key k e))"

definition intPair :: "string \<Rightarrow> int64 \<Rightarrow> wireEnc \<Rightarrow> wireEnc" where
  "intPair k v e = writeIntBody v (writeAll [tagInt] (enc_key k e))"

definition bytesValue :: "bytes \<Rightarrow> wireEnc \<Rightarrow> wireEnc" where
  "bytesValue b e = writeShortBlob b (writeAll [tagBytes] e)"

section \<open>The promise of an encoder program\<close>

locale emitter =
  fixes f :: "wireEnc \<Rightarrow> wireEnc" and ok :: bool and bs :: bytes
  assumes sticky: "eerr e \<noteq> None \<Longrightarrow> f e = e"
    and emitted: "eerr (f e) = None \<Longrightarrow> written (ew (f e)) = written (ew e) @ bs \<and> ok"
    and succeeds: "eerr e = None \<Longrightarrow> room (ew e) = None \<Longrightarrow> ok \<Longrightarrow>
      eerr (f e) = None \<and> room (ew (f e)) = None"
begin

lemma no_error_before: "eerr (f e) = None \<Longrightarrow> eerr e = None"
  using sticky by fastforce

lemma ok_iff_succeeds: "eerr e = None \<Longrightarrow> room (ew e) = None \<Longrightarrow> eerr (f e) = None \<longleftrightarrow> ok"
  using emitted succeeds by blast

end

definition run_ops :: "(wireEnc \<Rightarrow> wireEnc) list \<Rightarrow> wireEnc \<Rightarrow> wireEnc" where
  "run_ops fs = fold (\<lambda>f e. f e) fs"

lemma run_ops_simps [simp]:
  "run_ops [] e = e" "run_ops (f # fs) e = run_ops fs (f e)" "run_ops (fs @ gs) e = run_ops gs (run_ops fs e)"
  by (simp_all add: run_ops_def)

lemma run_ops_Cons_fun: "run_ops (f # fs) = (\<lambda>e. run_ops fs (f e))"
  and run_ops_append_fun: "run_ops (fs @ gs) = (\<lambda>e. run_ops gs (run_ops fs e))"
  by (simp_all add: fun_eq_iff)

lemma emitter_cong: "emitter f a x \<Longrightarrow> a = b \<Longrightarrow> x = y \<Longrightarrow> emitter f b y"
  by simp

lemma emitter_seq:
  assumes "emitter f a x" and "emitter g b y"
  shows "emitter (\<lambda>e. g (f e)) (a \<and> b) (x @ y)"
proof
  fix e
  show "eerr e \<noteq> None \<Longrightarrow> g (f e) = e"
    using assms by (metis emitter.sticky)
  show "written (ew (g (f e))) = written (ew e) @ (x @ y) \<and> a \<and> b" if "eerr (g (f e)) = None"
    using emitter.emitted [OF assms(2) that]
      emitter.emitted [OF assms(1) emitter.no_error_before [OF assms(2) that]] by simp
  show "eerr e = None \<Longrightarrow> room (ew e) = None \<Longrightarrow> a \<and> b \<Longrightarrow>
      eerr (g (f e)) = None \<and> room (ew (g (f e))) = None"
    using emitter.succeeds [OF assms(1)] emitter.succeeds [OF assms(2)] by blast
qed

lemma emitter_ops_Nil: "emitter (run_ops []) True []"
  by unfold_locales simp_all

lemma emitter_ops_Cons:
  "emitter f a x \<Longrightarrow> emitter (run_ops fs) b y \<Longrightarrow> emitter (run_ops (f # fs)) (a \<and> b) (x @ y)"
  unfolding run_ops_Cons_fun by (rule emitter_seq)

lemma emitter_ops_append:
  "emitter (run_ops fs) a x \<Longrightarrow> emitter (run_ops gs) b y \<Longrightarrow>
     emitter (run_ops (fs @ gs)) (a \<and> b) (x @ y)"
  unfolding run_ops_append_fun by (rule emitter_seq)

lemma emitter_ops_if:
  "emitter (run_ops fs) a x \<Longrightarrow>
     emitter (run_ops (if c then fs else [])) (c \<longrightarrow> a) (if c then x else [])"
  using emitter_ops_Nil by (cases c) simp_all

section \<open>The operations keep the promise\<close>

lemma emitter_writeAll: "emitter (writeAll b) True b"
  by unfold_locales
    (auto simp: writeAll_def sink_write_room dest: sink_write_ok split: prod.splits if_splits)

lemma emitter_writeShortBlob: "emitter (writeShortBlob b) (length b \<le> 65535) (enc_blob b)"
proof (cases "length b \<le> 65535")
  case True
  then have "writeShortBlob b = (\<lambda>e. writeAll b (writeAll (put_uint16 (word_of_nat (length b))) e))"
    by (intro ext) (simp add: writeShortBlob_def)
  with True emitter_seq [OF emitter_writeAll emitter_writeAll] show ?thesis
    by (simp add: enc_blob_def)
next
  case False
  then show ?thesis
    by unfold_locales (simp_all add: writeShortBlob_def split: if_splits)
qed

lemma skip_zeros_be_bytes:
  "n < 256 ^ Suc k \<Longrightarrow> skip_zeros k (be_bytes (Suc k) n) = be_bytes (num_bytes n) n"
proof (induction k)
  case 0
  then show ?case by (simp add: num_bytes.simps [of n])
next
  case (Suc k)
  show ?case
  proof (cases "n < 256 ^ Suc k")
    case True
    with Suc.IH show ?thesis by simp
  next
    case False
    have q: "n div 256 ^ Suc k < 256" using Suc.prems by (simp add: div_less_iff_less_mult mult.commute)
    moreover have "n div 256 ^ Suc k \<noteq> 0" using False by (simp add: div_eq_0_iff)
    ultimately have "(word_of_nat (n div 256 ^ Suc k) :: byte) \<noteq> 0"
      by (simp add: word_of_nat_eq_0_iff nat_dvd_not_less)
    moreover have "num_bytes n = Suc (Suc k)"
    proof (rule antisym)
      show "num_bytes n \<le> Suc (Suc k)" using Suc.prems by (intro num_bytes_le) simp_all
      have "(256 :: nat) ^ Suc k < 256 ^ num_bytes n" using False num_bytes_bound [of n] by linarith
      then show "Suc (Suc k) \<le> num_bytes n" by (simp only: power_strict_increasing_iff Suc_le_eq)
    qed
    ultimately show ?thesis by simp
  qed
qed

lemma writeIntBody_bytes:
  "skip_zeros 7 (put_uint64 n) = be_bytes (num_bytes (unat n)) (unat n)"
proof -
  have "(256 :: nat) ^ Suc 7 = 2 ^ 64" by simp
  then have "unat n < 256 ^ Suc 7" using unsigned_less [of n, where 'a = nat] by simp
  then have "skip_zeros 7 (be_bytes (Suc 7) (unat n)) = be_bytes (num_bytes (unat n)) (unat n)"
    by (rule skip_zeros_be_bytes)
  moreover have "Suc 7 = 8" by simp
  ultimately show ?thesis by (simp only: put_uint64_def)
qed

lemma emitter_writeIntBody: "emitter (writeIntBody n) (0 \<le> sint n) (enc_int (unat n))"
proof (cases "0 \<le> sint n")
  case True
  let ?b = "be_bytes (num_bytes (unat n)) (unat n)"
  have "writeIntBody n = (\<lambda>e. writeAll ?b (writeAll [word_of_nat (num_bytes (unat n))] e))" if "n \<noteq> 0"
    using True that by (intro ext) (simp add: writeIntBody_def writeIntBody_bytes)
  moreover have "writeIntBody n = writeAll (enc_int 0)" if "n = 0"
    using that by (intro ext) (simp add: writeIntBody_def enc_int_def num_bytes.simps)
  ultimately show ?thesis
    using True emitter_seq [OF emitter_writeAll [of "[word_of_nat (num_bytes (unat n))]"] emitter_writeAll [of ?b]]
      emitter_writeAll [of "enc_int 0"]
    by (cases "n = 0") (simp_all add: enc_int_def)
next
  case False
  then show ?thesis
    by unfold_locales (simp_all add: writeIntBody_def split: if_splits)
qed

lemma emitter_dictStart: "emitter dictStart True [tagDict]"
  using emitter_writeAll [of "[tagDict]"] by (simp add: dictStart_def [abs_def])

lemma emitter_dictEnd: "emitter dictEnd True [tagEnd]"
  using emitter_writeAll [of "[tagEnd]"] by (simp add: dictEnd_def [abs_def])

lemma emitter_enc_key: "emitter (enc_key s) (length s \<le> 65535) (enc_value (VString s))"
  using emitter_seq [OF emitter_writeAll [of "[tagString]"] emitter_writeShortBlob [of "bytes_of_string s"]]
  by (simp add: enc_key_def [abs_def])

lemma emitter_strPair:
  "emitter (strPair k v) (length k \<le> 65535 \<and> length v \<le> 65535)
     (enc_pair (WPair (VString k) (VString v)))"
  using emitter_seq [OF emitter_enc_key [of k] emitter_enc_key [of v]]
  by (simp add: strPair_def [abs_def] enc_key_def)

lemma emitter_intPair:
  "emitter (intPair k v) (length k \<le> 65535 \<and> 0 \<le> sint v)
     (enc_pair (WPair (VString k) (VInt (unat v))))"
  using emitter_seq [OF emitter_enc_key [of k]
      emitter_seq [OF emitter_writeAll [of "[tagInt]"] emitter_writeIntBody [of v]]]
  by (simp add: intPair_def [abs_def])

lemma emitter_bytesValue: "emitter (bytesValue b) (length b \<le> 65535) (enc_value (VBytes b))"
  using emitter_seq [OF emitter_writeAll [of "[tagBytes]"] emitter_writeShortBlob [of b]]
  by (simp add: bytesValue_def [abs_def])

lemmas emitter_intros = emitter_ops_Nil emitter_ops_Cons emitter_ops_append emitter_ops_if
  emitter_dictStart emitter_dictEnd emitter_enc_key emitter_strPair emitter_intPair emitter_bytesValue

section \<open>The dicts of the writer\<close>

definition run_enc :: "sink \<Rightarrow> (wireEnc \<Rightarrow> wireEnc) list \<Rightarrow> sink \<times> error option" where
  "run_enc w fs = (let e = run_ops fs \<lparr>ew = w, eerr = None\<rparr> in (ew e, eerr e))"

record leadingMetadata =
  lmajor :: int64
  lminor :: int64
  lsalt :: bytes
  lencKey1 :: bytes
  lencKey2 :: bytes
  lkey1Hash :: string
  lsessKeyHash :: string
  lcompress :: int64
  lencrypt :: int64
  lfilename :: string

definition leading_ops :: "leadingMetadata \<Rightarrow> (wireEnc \<Rightarrow> wireEnc) list" where
  "leading_ops m =
     [dictStart, strPair ''type'' ''metadata'',
      enc_key ''version'', dictStart, intPair ''major'' (lmajor m), intPair ''minor'' (lminor m), dictEnd]
     @ (if lsalt m \<noteq> [] then [strPair ''salt'' (string_of_bytes (lsalt m))] else [])
     @ [strPair ''digest'' ''md5'']
     @ (if lencKey1 m \<noteq> [] then [strPair ''enc_key1'' (b64_encode (lencKey1 m))] else [])
     @ (if lkey1Hash m \<noteq> [] then [strPair ''key1_hash'' (lkey1Hash m)] else [])
     @ (if lencKey2 m \<noteq> [] then [strPair ''enc_key2'' (b64_encode (lencKey2 m))] else [])
     @ [strPair ''session_key_hash'' (lsessKeyHash m),
        intPair ''compress'' (lcompress m), intPair ''encrypt'' (lencrypt m)]
     @ (if lfilename m \<noteq> [] then [strPair ''file_name'' (lfilename m)] else [])
     @ [dictEnd]"

definition writeLeadingMetadata :: "sink \<Rightarrow> leadingMetadata \<Rightarrow> sink \<times> error option" where
  "writeLeadingMetadata w m = run_enc w (leading_ops m)"

definition data_ops :: "bytes \<Rightarrow> (wireEnc \<Rightarrow> wireEnc) list" where
  "data_ops data = [dictStart, strPair ''type'' ''data'', enc_key ''data'', bytesValue data, dictEnd]"

definition writeDataDict :: "sink \<Rightarrow> bytes \<Rightarrow> sink \<times> error option" where
  "writeDataDict w data = run_enc w (data_ops data)"

definition final_ops :: "string \<Rightarrow> (wireEnc \<Rightarrow> wireEnc) list" where
  "final_ops md5hex = [dictStart, strPair ''type'' ''metadata'', strPair ''file_md5'' md5hex, dictEnd]"

definition writeFinalMetadata :: "sink \<Rightarrow> string \<Rightarrow> sink \<times> error option" where
  "writeFinalMetadata w md5hex = run_enc w (final_ops md5hex)"

section \<open>The values they stand for\<close>

definition leading_members :: "leadingMetadata \<Rightarrow> wpair list" where
  "leading_members m =
     [WPair (VString ''type'') (VString ''metadata''),
      WPair (VString ''version'')
        (VDict [WPair (VString ''major'') (VInt (unat (lmajor m))),
                WPair (VString ''minor'') (VInt (unat (lminor m)))])]
     @ (if lsalt m \<noteq> [] then [WPair (VString ''salt'') (VString (string_of_bytes (lsalt m)))] else [])
     @ [WPair (VString ''digest'') (VString ''md5'')]
     @ (if lencKey1 m \<noteq> []
        then [WPair (VString ''enc_key1'') (VString (b64_encode (lencKey1 m)))] else [])
     @ (if lkey1Hash m \<noteq> [] then [WPair (VString ''key1_hash'') (VString (lkey1Hash m))] else [])
     @ (if lencKey2 m \<noteq> []
        then [WPair (VString ''enc_key2'') (VString (b64_encode (lencKey2 m)))] else [])
     @ [WPair (VString ''session_key_hash'') (VString (lsessKeyHash m)),
        WPair (VString ''compress'') (VInt (unat (lcompress m))),
        WPair (VString ''encrypt'') (VInt (unat (lencrypt m)))]
     @ (if lfilename m \<noteq> [] then [WPair (VString ''file_name'') (VString (lfilename m))] else [])"

definition leading_ok :: "leadingMetadata \<Rightarrow> bool" where
  "leading_ok m \<longleftrightarrow>
     0 \<le> sint (lmajor m) \<and> 0 \<le> sint (lminor m) \<and> 0 \<le> sint (lcompress m) \<and> 0 \<le> sint (lencrypt m) \<and>
     length (lsalt m) \<le> 65535 \<and> length (b64_encode (lencKey1 m)) \<le> 65535 \<and>
     length (b64_encode (lencKey2 m)) \<le> 65535 \<and> length (lkey1Hash m) \<le> 65535 \<and>
     length (lsessKeyHash m) \<le> 65535 \<and> length (lfilename m) \<le> 65535"

definition data_members :: "bytes \<Rightarrow> wpair list" where
  "data_members data =
     [WPair (VString ''type'') (VString ''data''), WPair (VString ''data'') (VBytes data)]"

definition final_members :: "string \<Rightarrow> wpair list" where
  "final_members md5hex =
     [WPair (VString ''type'') (VString ''metadata''), WPair (VString ''file_md5'') (VString md5hex)]"

lemma concat_map_if:
  "concat (map g (if c then [x] else [])) = (if c then g x else [])"
  by simp

interpretation data_dict: emitter "run_ops (data_ops data)" "length data \<le> 65535"
    "enc_value (VDict (data_members data))" for data
  unfolding data_ops_def
  by (rule emitter_cong, (rule emitter_intros)+) (simp_all add: data_members_def)

interpretation final_dict: emitter "run_ops (final_ops md5hex)" "length md5hex \<le> 65535"
    "enc_value (VDict (final_members md5hex))" for md5hex
  unfolding final_ops_def
  by (rule emitter_cong, (rule emitter_intros)+) (simp_all add: final_members_def)

interpretation leading_dict: emitter "run_ops (leading_ops m)" "leading_ok m"
    "enc_value (VDict (leading_members m))" for m
  unfolding leading_ops_def
proof (rule emitter_cong, (rule emitter_intros)+, goal_cases)
  case 1
  show ?case by (auto simp: leading_ok_def)
next
  case 2
  show ?case by (simp add: leading_members_def concat_map_if)
qed

lemma run_enc_ok:
  assumes "emitter (run_ops fs) ok bs" and "run_enc w fs = (w', None)"
  shows "written w' = written w @ bs" and ok
  using emitter.emitted [OF assms(1), of "\<lparr>ew = w, eerr = None\<rparr>"] assms(2)
  by (auto simp: run_enc_def Let_def)

lemma run_enc_succeeds:
  assumes "emitter (run_ops fs) ok bs" and "room w = None" and ok
  shows "\<exists>w'. run_enc w fs = (w', None) \<and> room w' = None"
  using emitter.succeeds [OF assms(1), of "\<lparr>ew = w, eerr = None\<rparr>"] assms(2,3)
  by (auto simp: run_enc_def Let_def)

lemma writeDataDict_ok:
  "writeDataDict w data = (w', None) \<Longrightarrow>
     written w' = written w @ enc_value (VDict (data_members data)) \<and> length data \<le> 65535"
  unfolding writeDataDict_def using run_enc_ok [OF data_dict.emitter_axioms] by blast

lemma writeLeadingMetadata_ok:
  "writeLeadingMetadata w m = (w', None) \<Longrightarrow>
     written w' = written w @ enc_value (VDict (leading_members m)) \<and> leading_ok m"
  unfolding writeLeadingMetadata_def using run_enc_ok [OF leading_dict.emitter_axioms] by blast

lemma writeFinalMetadata_ok:
  "writeFinalMetadata w md5hex = (w', None) \<Longrightarrow>
     written w' = written w @ enc_value (VDict (final_members md5hex)) \<and> length md5hex \<le> 65535"
  unfolding writeFinalMetadata_def using run_enc_ok [OF final_dict.emitter_axioms] by blast

lemmas writeDataDict_succeeds = run_enc_succeeds [OF data_dict.emitter_axioms, folded writeDataDict_def]
lemmas writeLeadingMetadata_succeeds =
  run_enc_succeeds [OF leading_dict.emitter_axioms, folded writeLeadingMetadata_def]
lemmas writeFinalMetadata_succeeds =
  run_enc_succeeds [OF final_dict.emitter_axioms, folded writeFinalMetadata_def]

lemma wf_members:
  "leading_ok m \<Longrightarrow> wf_value (VDict (leading_members m))"
  "length data \<le> 65535 \<Longrightarrow> wf_value (VDict (data_members data))"
  "length md5hex \<le> 65535 \<Longrightarrow> wf_value (VDict (final_members md5hex))"
proof -
  have "unat (n :: int64) < 256 ^ 255" for n
    using unsigned_less [of n, where 'a = nat]
    by (rule less_trans) simp
  then show "leading_ok m \<Longrightarrow> wf_value (VDict (leading_members m))"
    by (simp add: leading_ok_def leading_members_def)
qed (simp_all add: data_members_def final_members_def)

end
