(* ===== verification/Padding.thy ===== *)
theory Padding
  imports GoBytes
begin

text \<open>
  PKCS#7: \<open>pkcs7Pad\<close> of \<open>encrypt.go\<close> and \<open>unpadPKCS7\<close> of \<open>decrypt.go\<close>. The central fact is that the
  decoder accepts exactly the padded strings, with exactly one plaintext each.
\<close>

definition pkcs7Pad :: "bytes \<Rightarrow> nat \<Rightarrow> bytes" where
  "pkcs7Pad b blockSize =
     (let padLen = blockSize - length b mod blockSize
      in b @ replicate padLen (word_of_nat padLen))"

definition unpadPKCS7 :: "bytes \<Rightarrow> error + bytes" where
  "unpadPKCS7 buf =
     (if buf = [] \<or> length buf mod 16 \<noteq> 0 then Inl (ErrPadAlign (length buf))
      else let pad = unat (last buf) in
        if pad < 1 \<or> 16 < pad then Inl (ErrPadRange pad)
        else if \<not> list_all (\<lambda>b. unat b = pad) (drop (length buf - pad) buf) then Inl ErrPadTail
        else Inr (take (length buf - pad) buf))"

lemma word_of_nat_unat: "(word_of_nat (unat y) :: byte) = y"
  by simp

lemma length_pkcs7Pad: "0 < n \<Longrightarrow> length (pkcs7Pad b n) = n * (length b div n + 1)"
  by (simp add: pkcs7Pad_def Let_def) (metis add_diff_cancel_right' add_mult_distrib2
      add.commute div_mult_mod_eq le_add_diff_inverse2 less_imp_le mod_less_divisor
      mult.commute ab_semigroup_add_class.add_ac(1) nat_mult_1_right)

lemma pkcs7Pad_aligned: "16 dvd length (pkcs7Pad b 16)"
  by (simp add: length_pkcs7Pad)

lemma pkcs7Pad_not_Nil [simp]: "pkcs7Pad b 16 \<noteq> []"
  using length_pkcs7Pad [of 16 b] by auto

lemma pkcs7Pad_append: "16 dvd length xs \<Longrightarrow> pkcs7Pad (xs @ ys) 16 = xs @ pkcs7Pad ys 16"
  by (auto simp: pkcs7Pad_def Let_def dvd_def)

lemma unpad_pkcs7Pad: "unpadPKCS7 (pkcs7Pad b 16) = Inr b"
proof -
  define n where "n = 16 - length b mod 16"
  then have n: "1 \<le> n" "n \<le> 16" by simp_all
  then have u: "unat (word_of_nat n :: byte) = n" by (simp add: unat_of_nat)
  have p: "pkcs7Pad b 16 = b @ replicate n (word_of_nat n)" by (simp add: pkcs7Pad_def Let_def n_def)
  have l: "last (pkcs7Pad b 16) = word_of_nat n" unfolding p using n by simp
  have "length (pkcs7Pad b 16) mod 16 = 0" using pkcs7Pad_aligned [of b] by simp
  moreover have "length (pkcs7Pad b 16) - n = length b" unfolding p by simp
  moreover have "list_all (\<lambda>x. unat x = n) (drop (length b) (pkcs7Pad b 16))"
    unfolding p by (simp add: list_all_iff u)
  moreover have "take (length b) (pkcs7Pad b 16) = b" unfolding p by simp
  ultimately show ?thesis
    using n unfolding unpadPKCS7_def Let_def l u by simp
qed

lemma unpad_InrD:
  assumes "unpadPKCS7 buf = Inr b"
  shows "buf = pkcs7Pad b 16"
proof -
  let ?pad = "unat (last buf)" and ?n = "length buf"
  from assms have m: "?n mod 16 = 0" "buf \<noteq> []" and pad: "1 \<le> ?pad" "?pad \<le> 16"
    and tl: "list_all (\<lambda>b. unat b = ?pad) (drop (?n - ?pad) buf)" and b: "b = take (?n - ?pad) buf"
    by (auto simp: unpadPKCS7_def Let_def split: if_splits)
  from m have "16 \<le> ?n" by (auto simp: mod_eq_0_iff_dvd dest: dvd_imp_le)
  with pad b have len: "length b = ?n - ?pad" by simp
  obtain q where q: "?n = 16 * q" using m(1) by auto
  with \<open>16 \<le> ?n\<close> pad have "length b = (16 - ?pad) + 16 * (q - 1)" unfolding len by simp
  then have "length b mod 16 = (16 - ?pad) mod 16" by (simp only: mod_mult_self2)
  then have "16 - length b mod 16 = ?pad" using pad by (cases "?pad = 16") simp_all
  moreover have tl': "drop (?n - ?pad) buf = replicate ?pad (word_of_nat ?pad)"
  proof (rule replicate_eqI)
    show "length (drop (?n - ?pad) buf) = ?pad" using pad \<open>16 \<le> ?n\<close> by simp
    fix y
    assume "y \<in> set (drop (?n - ?pad) buf)"
    with tl have "unat y = ?pad" unfolding list_all_iff by (rule bspec)
    then show "y = word_of_nat ?pad" by (metis word_of_nat_unat)
  qed
  ultimately show ?thesis
    unfolding pkcs7Pad_def Let_def by (metis append_take_drop_id b)
qed

lemma unpad_append:
  "16 dvd length xs \<Longrightarrow> unpadPKCS7 ys = Inr b \<Longrightarrow> unpadPKCS7 (xs @ ys) = Inr (xs @ b)"
  by (metis unpad_InrD pkcs7Pad_append unpad_pkcs7Pad)

end
