(* ===== verification/Digest.thy ===== *)
theory Digest
  imports GoBytes
begin

text \<open>
  \<open>crypto/md5\<close> and \<open>crypto/sha1\<close>, from RFC 1321 and RFC 3174. An incremental \<open>hash.Hash\<close> is the list
  of the bytes written to it; \<open>Sum\<close> is the digest of that list. What the clients (key derivation,
  salted envelopes, OAEP) rely on is the interface \<open>hash_function\<close>: a digest has a fixed size.
\<close>

section \<open>Shared machinery\<close>

definition rotl32 :: "nat \<Rightarrow> 32 word \<Rightarrow> 32 word" where
  "rotl32 n w = push_bit n w OR drop_bit (32 - n) w"

definition blocks :: "nat \<Rightarrow> 'a list \<Rightarrow> 'a list list" where
  "blocks n xs = map (\<lambda>i. take n (drop (n * i) xs)) [0..<length xs div n]"

definition be_word32 :: "bytes \<Rightarrow> 32 word" where
  "be_word32 bs = foldl (\<lambda>acc b. push_bit 8 acc OR ucast b) 0 bs"

definition be_bytes32 :: "32 word \<Rightarrow> bytes" where
  "be_bytes32 w = map (\<lambda>i. ucast (drop_bit (8 * i) w)) [3, 2, 1, 0]"

definition bit_count :: "nat \<Rightarrow> 64 word" where
  "bit_count n = 8 * word_of_nat n"

definition md_pad :: "(64 word \<Rightarrow> bytes) \<Rightarrow> bytes \<Rightarrow> bytes" where
  "md_pad len_field m =
     m @ [0x80] @ replicate ((119 - length m mod 64) mod 64) 0 @ len_field (bit_count (length m))"

section \<open>MD5\<close>

definition md5_K :: "32 word list" where
  "md5_K =
    [0xd76aa478, 0xe8c7b756, 0x242070db, 0xc1bdceee, 0xf57c0faf, 0x4787c62a, 0xa8304613, 0xfd469501,
     0x698098d8, 0x8b44f7af, 0xffff5bb1, 0x895cd7be, 0x6b901122, 0xfd987193, 0xa679438e, 0x49b40821,
     0xf61e2562, 0xc040b340, 0x265e5a51, 0xe9b6c7aa, 0xd62f105d, 0x02441453, 0xd8a1e681, 0xe7d3fbc8,
     0x21e1cde6, 0xc33707d6, 0xf4d50d87, 0x455a14ed, 0xa9e3e905, 0xfcefa3f8, 0x676f02d9, 0x8d2a4c8a,
     0xfffa3942, 0x8771f681, 0x6d9d6122, 0xfde5380c, 0xa4beea44, 0x4bdecfa9, 0xf6bb4b60, 0xbebfbc70,
     0x289b7ec6, 0xeaa127fa, 0xd4ef3085, 0x04881d05, 0xd9d4d039, 0xe6db99e5, 0x1fa27cf8, 0xc4ac5665,
     0xf4292244, 0x432aff97, 0xab9423a7, 0xfc93a039, 0x655b59c3, 0x8f0ccc92, 0xffeff47d, 0x85845dd1,
     0x6fa87e4f, 0xfe2ce6e0, 0xa3014314, 0x4e0811a1, 0xf7537e82, 0xbd3af235, 0x2ad7d2bb, 0xeb86d391]"

definition md5_shift :: "nat list" where
  "md5_shift = concat (map (\<lambda>r. r @ r @ r @ r)
     [[7, 12, 17, 22], [5, 9, 14, 20], [4, 11, 16, 23], [6, 10, 15, 21]])"

type_synonym md5_state = "32 word \<times> 32 word \<times> 32 word \<times> 32 word"

definition md5_round :: "32 word list \<Rightarrow> md5_state \<Rightarrow> nat \<Rightarrow> md5_state" where
  "md5_round m st i =
     (case st of (a, b, c, d) \<Rightarrow>
        let (f, g) =
              (if i < 16 then ((b AND c) OR (NOT b AND d), i)
               else if i < 32 then ((d AND b) OR (NOT d AND c), (5 * i + 1) mod 16)
               else if i < 48 then (b XOR c XOR d, (3 * i + 5) mod 16)
               else (c XOR (b OR NOT d), (7 * i) mod 16))
        in (d, b + rotl32 (md5_shift ! i) (a + f + md5_K ! i + m ! g), b, c))"

definition le_word32 :: "bytes \<Rightarrow> 32 word" where
  "le_word32 bs = foldr (\<lambda>b acc. push_bit 8 acc OR ucast b) bs 0"

definition le_bytes32 :: "32 word \<Rightarrow> bytes" where
  "le_bytes32 w = map (\<lambda>i. ucast (drop_bit (8 * i) w)) [0, 1, 2, 3]"

definition md5_block :: "md5_state \<Rightarrow> bytes \<Rightarrow> md5_state" where
  "md5_block st blk =
     (case (st, foldl (md5_round (map le_word32 (blocks 4 blk))) st [0..<64]) of
        ((a, b, c, d), (a', b', c', d')) \<Rightarrow> (a + a', b + b', c + c', d + d'))"

definition md5_init :: md5_state where
  "md5_init = (0x67452301, 0xefcdab89, 0x98badcfe, 0x10325476)"

definition md5 :: "bytes \<Rightarrow> bytes" where
  "md5 m =
     (case foldl md5_block md5_init (blocks 64 (md_pad (\<lambda>n. map (\<lambda>i. ucast (drop_bit (8 * i) n)) [0, 1, 2, 3, 4, 5, 6, 7]) m)) of
        (a, b, c, d) \<Rightarrow> le_bytes32 a @ le_bytes32 b @ le_bytes32 c @ le_bytes32 d)"

lemma length_md5 [simp, length_simps]: "length (md5 m) = 16"
  by (simp add: md5_def le_bytes32_def split: prod.split)

section \<open>SHA-1\<close>

type_synonym sha1_state = "32 word \<times> 32 word \<times> 32 word \<times> 32 word \<times> 32 word"

primrec sha1_schedule :: "nat \<Rightarrow> 32 word list \<Rightarrow> 32 word list" where
  "sha1_schedule 0 w = w"
| "sha1_schedule (Suc k) w =
     (let t = length w
      in sha1_schedule k
           (w @ [rotl32 1 (w ! (t - 3) XOR w ! (t - 8) XOR w ! (t - 14) XOR w ! (t - 16))]))"

definition sha1_round :: "32 word list \<Rightarrow> sha1_state \<Rightarrow> nat \<Rightarrow> sha1_state" where
  "sha1_round w st t =
     (case st of (a, b, c, d, e) \<Rightarrow>
        let (f, k) =
              (if t < 20 then ((b AND c) OR (NOT b AND d), 0x5a827999)
               else if t < 40 then (b XOR c XOR d, 0x6ed9eba1)
               else if t < 60 then ((b AND c) OR (b AND d) OR (c AND d), 0x8f1bbcdc)
               else (b XOR c XOR d, 0xca62c1d6))
        in (rotl32 5 a + f + e + w ! t + k, a, rotl32 30 b, c, d))"

definition sha1_block :: "sha1_state \<Rightarrow> bytes \<Rightarrow> sha1_state" where
  "sha1_block st blk =
     (let w = sha1_schedule 64 (map be_word32 (blocks 4 blk))
      in case (st, foldl (sha1_round w) st [0..<80]) of
        ((a, b, c, d, e), (a', b', c', d', e')) \<Rightarrow> (a + a', b + b', c + c', d + d', e + e'))"

definition sha1_init :: sha1_state where
  "sha1_init = (0x67452301, 0xefcdab89, 0x98badcfe, 0x10325476, 0xc3d2e1f0)"

definition sha1 :: "bytes \<Rightarrow> bytes" where
  "sha1 m =
     (case foldl sha1_block sha1_init (blocks 64 (md_pad (\<lambda>n. map (\<lambda>i. ucast (drop_bit (8 * i) n)) [7, 6, 5, 4, 3, 2, 1, 0]) m)) of
        (a, b, c, d, e) \<Rightarrow> concat (map be_bytes32 [a, b, c, d, e]))"

lemma length_sha1 [simp, length_simps]: "length (sha1 m) = 20"
  by (simp add: sha1_def be_bytes32_def split: prod.split)

section \<open>A test vector of RFC 1321\<close>

lemma md5_test_abc: "hex_encode (md5 (bytes_of_string ''abc'')) = ''900150983cd24fb0d6963f7d28e17f72''"
  by code_simp

section \<open>The interface of a hash\<close>

locale hash_function =
  fixes H :: "bytes \<Rightarrow> bytes" and hlen :: nat
  assumes length_H: "length (H m) = hlen"
    and hlen_pos: "0 < hlen"
begin

lemma length_hex_H: "length (hex_encode (H m)) = 2 * hlen"
  by (simp add: length_H)

lemma H_not_Nil: "H m \<noteq> []"
  using length_H hlen_pos by (metis length_greater_0_conv)

lemma length_iterate: "length ((H ^^ Suc n) m) = hlen"
  by (simp add: length_H)

end

interpretation md5: hash_function md5 16
  by unfold_locales simp_all

interpretation sha1: hash_function sha1 20
  by unfold_locales simp_all

end
