(* ===== verification/Cipher.thy ===== *)
theory Cipher
  imports Digest
begin

text \<open>
  \<open>crypto/aes\<close> (FIPS 197, key sizes 128, 192 and 256) and \<open>crypto/cipher\<close>'s CBC mode. A
  \<open>cipher.BlockMode\<close> is the record \<open>cbc\<close> of its block cipher's key and its current chaining value;
  \<open>CryptBlocks\<close> returns the state with the last ciphertext block as the next chaining value, so
  consecutive calls chain. What CBC relies on is the interface \<open>block_cipher\<close>, which AES implements.
\<close>

section \<open>AES\<close>

definition aes_sbox :: "byte list" where
  "aes_sbox =
    [0x63, 0x7c, 0x77, 0x7b, 0xf2, 0x6b, 0x6f, 0xc5, 0x30, 0x01, 0x67, 0x2b, 0xfe, 0xd7, 0xab, 0x76,
     0xca, 0x82, 0xc9, 0x7d, 0xfa, 0x59, 0x47, 0xf0, 0xad, 0xd4, 0xa2, 0xaf, 0x9c, 0xa4, 0x72, 0xc0,
     0xb7, 0xfd, 0x93, 0x26, 0x36, 0x3f, 0xf7, 0xcc, 0x34, 0xa5, 0xe5, 0xf1, 0x71, 0xd8, 0x31, 0x15,
     0x04, 0xc7, 0x23, 0xc3, 0x18, 0x96, 0x05, 0x9a, 0x07, 0x12, 0x80, 0xe2, 0xeb, 0x27, 0xb2, 0x75,
     0x09, 0x83, 0x2c, 0x1a, 0x1b, 0x6e, 0x5a, 0xa0, 0x52, 0x3b, 0xd6, 0xb3, 0x29, 0xe3, 0x2f, 0x84,
     0x53, 0xd1, 0x00, 0xed, 0x20, 0xfc, 0xb1, 0x5b, 0x6a, 0xcb, 0xbe, 0x39, 0x4a, 0x4c, 0x58, 0xcf,
     0xd0, 0xef, 0xaa, 0xfb, 0x43, 0x4d, 0x33, 0x85, 0x45, 0xf9, 0x02, 0x7f, 0x50, 0x3c, 0x9f, 0xa8,
     0x51, 0xa3, 0x40, 0x8f, 0x92, 0x9d, 0x38, 0xf5, 0xbc, 0xb6, 0xda, 0x21, 0x10, 0xff, 0xf3, 0xd2,
     0xcd, 0x0c, 0x13, 0xec, 0x5f, 0x97, 0x44, 0x17, 0xc4, 0xa7, 0x7e, 0x3d, 0x64, 0x5d, 0x19, 0x73,
     0x60, 0x81, 0x4f, 0xdc, 0x22, 0x2a, 0x90, 0x88, 0x46, 0xee, 0xb8, 0x14, 0xde, 0x5e, 0x0b, 0xdb,
     0xe0, 0x32, 0x3a, 0x0a, 0x49, 0x06, 0x24, 0x5c, 0xc2, 0xd3, 0xac, 0x62, 0x91, 0x95, 0xe4, 0x79,
     0xe7, 0xc8, 0x37, 0x6d, 0x8d, 0xd5, 0x4e, 0xa9, 0x6c, 0x56, 0xf4, 0xea, 0x65, 0x7a, 0xae, 0x08,
     0xba, 0x78, 0x25, 0x2e, 0x1c, 0xa6, 0xb4, 0xc6, 0xe8, 0xdd, 0x74, 0x1f, 0x4b, 0xbd, 0x8b, 0x8a,
     0x70, 0x3e, 0xb5, 0x66, 0x48, 0x03, 0xf6, 0x0e, 0x61, 0x35, 0x57, 0xb9, 0x86, 0xc1, 0x1d, 0x9e,
     0xe1, 0xf8, 0x98, 0x11, 0x69, 0xd9, 0x8e, 0x94, 0x9b, 0x1e, 0x87, 0xe9, 0xce, 0x55, 0x28, 0xdf,
     0x8c, 0xa1, 0x89, 0x0d, 0xbf, 0xe6, 0x42, 0x68, 0x41, 0x99, 0x2d, 0x0f, 0xb0, 0x54, 0xbb, 0x16]"

definition aes_inv_sbox :: "byte list" where
  "aes_inv_sbox =
    [0x52, 0x09, 0x6a, 0xd5, 0x30, 0x36, 0xa5, 0x38, 0xbf, 0x40, 0xa3, 0x9e, 0x81, 0xf3, 0xd7, 0xfb,
     0x7c, 0xe3, 0x39, 0x82, 0x9b, 0x2f, 0xff, 0x87, 0x34, 0x8e, 0x43, 0x44, 0xc4, 0xde, 0xe9, 0xcb,
     0x54, 0x7b, 0x94, 0x32, 0xa6, 0xc2, 0x23, 0x3d, 0xee, 0x4c, 0x95, 0x0b, 0x42, 0xfa, 0xc3, 0x4e,
     0x08, 0x2e, 0xa1, 0x66, 0x28, 0xd9, 0x24, 0xb2, 0x76, 0x5b, 0xa2, 0x49, 0x6d, 0x8b, 0xd1, 0x25,
     0x72, 0xf8, 0xf6, 0x64, 0x86, 0x68, 0x98, 0x16, 0xd4, 0xa4, 0x5c, 0xcc, 0x5d, 0x65, 0xb6, 0x92,
     0x6c, 0x70, 0x48, 0x50, 0xfd, 0xed, 0xb9, 0xda, 0x5e, 0x15, 0x46, 0x57, 0xa7, 0x8d, 0x9d, 0x84,
     0x90, 0xd8, 0xab, 0x00, 0x8c, 0xbc, 0xd3, 0x0a, 0xf7, 0xe4, 0x58, 0x05, 0xb8, 0xb3, 0x45, 0x06,
     0xd0, 0x2c, 0x1e, 0x8f, 0xca, 0x3f, 0x0f, 0x02, 0xc1, 0xaf, 0xbd, 0x03, 0x01, 0x13, 0x8a, 0x6b,
     0x3a, 0x91, 0x11, 0x41, 0x4f, 0x67, 0xdc, 0xea, 0x97, 0xf2, 0xcf, 0xce, 0xf0, 0xb4, 0xe6, 0x73,
     0x96, 0xac, 0x74, 0x22, 0xe7, 0xad, 0x35, 0x85, 0xe2, 0xf9, 0x37, 0xe8, 0x1c, 0x75, 0xdf, 0x6e,
     0x47, 0xf1, 0x1a, 0x71, 0x1d, 0x29, 0xc5, 0x89, 0x6f, 0xb7, 0x62, 0x0e, 0xaa, 0x18, 0xbe, 0x1b,
     0xfc, 0x56, 0x3e, 0x4b, 0xc6, 0xd2, 0x79, 0x20, 0x9a, 0xdb, 0xc0, 0xfe, 0x78, 0xcd, 0x5a, 0xf4,
     0x1f, 0xdd, 0xa8, 0x33, 0x88, 0x07, 0xc7, 0x31, 0xb1, 0x12, 0x10, 0x59, 0x27, 0x80, 0xec, 0x5f,
     0x60, 0x51, 0x7f, 0xa9, 0x19, 0xb5, 0x4a, 0x0d, 0x2d, 0xe5, 0x7a, 0x9f, 0x93, 0xc9, 0x9c, 0xef,
     0xa0, 0xe0, 0x3b, 0x4d, 0xae, 0x2a, 0xf5, 0xb0, 0xc8, 0xeb, 0xbb, 0x3c, 0x83, 0x53, 0x99, 0x61,
     0x17, 0x2b, 0x04, 0x7e, 0xba, 0x77, 0xd6, 0x26, 0xe1, 0x69, 0x14, 0x63, 0x55, 0x21, 0x0c, 0x7d]"

definition xor_bytes :: "bytes \<Rightarrow> bytes \<Rightarrow> bytes" where
  "xor_bytes xs ys = map2 (\<lambda>a b. a XOR b) xs ys"

definition xtime :: "byte \<Rightarrow> byte" where
  "xtime b = push_bit 1 b XOR (if bit b 7 then 0x1b else 0)"

definition sub_byte :: "byte \<Rightarrow> byte" where
  "sub_byte b = aes_sbox ! unat b"

definition inv_sub_byte :: "byte \<Rightarrow> byte" where
  "inv_sub_byte b = aes_inv_sbox ! unat b"

definition shift_rows :: "bytes \<Rightarrow> bytes" where
  "shift_rows s = map (\<lambda>i. s ! i) [0, 5, 10, 15, 4, 9, 14, 3, 8, 13, 2, 7, 12, 1, 6, 11]"

definition inv_shift_rows :: "bytes \<Rightarrow> bytes" where
  "inv_shift_rows s = map (\<lambda>i. s ! i) [0, 13, 10, 7, 4, 1, 14, 11, 8, 5, 2, 15, 12, 9, 6, 3]"

text \<open>Products in GF(256) by the constants of the MixColumns matrices.\<close>

definition mul2 :: "byte \<Rightarrow> byte" where "mul2 b = xtime b"
definition mul3 :: "byte \<Rightarrow> byte" where "mul3 b = xtime b XOR b"
definition mul9 :: "byte \<Rightarrow> byte" where "mul9 b = xtime (xtime (xtime b)) XOR b"
definition mul11 :: "byte \<Rightarrow> byte" where "mul11 b = xtime (xtime (xtime b)) XOR xtime b XOR b"
definition mul13 :: "byte \<Rightarrow> byte" where
  "mul13 b = xtime (xtime (xtime b)) XOR xtime (xtime b) XOR b"
definition mul14 :: "byte \<Rightarrow> byte" where
  "mul14 b = xtime (xtime (xtime b)) XOR xtime (xtime b) XOR xtime b"

fun mix_columns :: "bytes \<Rightarrow> bytes" where
  "mix_columns (a # b # c # d # s) =
     [mul2 a XOR mul3 b XOR c XOR d, a XOR mul2 b XOR mul3 c XOR d,
      a XOR b XOR mul2 c XOR mul3 d, mul3 a XOR b XOR c XOR mul2 d] @ mix_columns s"
| "mix_columns _ = []"

fun inv_mix_columns :: "bytes \<Rightarrow> bytes" where
  "inv_mix_columns (a # b # c # d # s) =
     [mul14 a XOR mul11 b XOR mul13 c XOR mul9 d, mul9 a XOR mul14 b XOR mul11 c XOR mul13 d,
      mul13 a XOR mul9 b XOR mul14 c XOR mul11 d, mul11 a XOR mul13 b XOR mul9 c XOR mul14 d]
     @ inv_mix_columns s"
| "inv_mix_columns _ = []"

text \<open>Key expansion: \<open>nk\<close> words of key, one further word per step.\<close>

definition aes_next_word :: "nat \<Rightarrow> bytes list \<Rightarrow> bytes" where
  "aes_next_word nk w =
     (let i = length w; temp = last w;
          temp' = (if i mod nk = 0
                   then xor_bytes (map sub_byte (rotate1 temp)) [(xtime ^^ (i div nk - 1)) 1, 0, 0, 0]
                   else if 6 < nk \<and> i mod nk = 4 then map sub_byte temp
                   else temp)
      in xor_bytes (w ! (i - nk)) temp')"

definition aes_expand :: "nat \<Rightarrow> nat \<Rightarrow> bytes list \<Rightarrow> bytes list" where
  "aes_expand nk n w = ((\<lambda>w. w @ [aes_next_word nk w]) ^^ n) w"

definition aes_round_keys :: "bytes \<Rightarrow> bytes list" where
  "aes_round_keys key =
     (let nk = length key div 4;
          w = aes_expand nk (4 * (nk + 7) - nk) (blocks 4 key)
      in map concat (blocks 4 w))"

fun aes_rounds :: "bytes list \<Rightarrow> bytes \<Rightarrow> bytes" where
  "aes_rounds [] s = s"
| "aes_rounds [k] s = xor_bytes (shift_rows (map sub_byte s)) k"
| "aes_rounds (k # ks) s =
     aes_rounds ks (xor_bytes (mix_columns (shift_rows (map sub_byte s))) k)"

fun aes_inv_rounds :: "bytes list \<Rightarrow> bytes \<Rightarrow> bytes" where
  "aes_inv_rounds [] s = s"
| "aes_inv_rounds [k] s = map inv_sub_byte (inv_shift_rows (xor_bytes s k))"
| "aes_inv_rounds (k # ks) s =
     map inv_sub_byte (inv_shift_rows (inv_mix_columns (xor_bytes (aes_inv_rounds ks s) k)))"

definition aes_encrypt :: "bytes \<Rightarrow> bytes \<Rightarrow> bytes" where
  "aes_encrypt key s =
     (case aes_round_keys key of [] \<Rightarrow> s | k # ks \<Rightarrow> aes_rounds ks (xor_bytes s k))"

definition aes_decrypt :: "bytes \<Rightarrow> bytes \<Rightarrow> bytes" where
  "aes_decrypt key s =
     (case aes_round_keys key of [] \<Rightarrow> s | k # ks \<Rightarrow> xor_bytes (aes_inv_rounds ks s) k)"

definition aes_key_ok :: "bytes \<Rightarrow> bool" where
  "aes_key_ok key \<longleftrightarrow> length key \<in> {16, 24, 32}"

text \<open>\<open>aes.NewCipher\<close>: the handle is the key itself.\<close>

definition aes_new_cipher :: "bytes \<Rightarrow> error + bytes" where
  "aes_new_cipher key = (if aes_key_ok key then Inr key else Inl (ErrAesKeySize (length key)))"

section \<open>AES decryption inverts encryption\<close>

lemma length_xor_bytes [simp, length_simps]:
  "length (xor_bytes xs ys) = min (length xs) (length ys)"
  by (simp add: xor_bytes_def)

lemma xor_bytes_cancel:
  "length xs = length ys \<Longrightarrow> xor_bytes (xor_bytes xs ys) ys = xs"
  by (simp add: xor_bytes_def map2_xor_cancel)

lemma xor_bytes_commute: "xor_bytes xs ys = xor_bytes ys xs"
  by (induction xs ys rule: list_induct2')
    (simp_all add: xor_bytes_def xor.commute)

lemma inv_sub_byte_sub_byte [simp]: "inv_sub_byte (sub_byte b) = b"
proof -
  have "length aes_sbox = 256" by (simp add: aes_sbox_def)
  have "map (\<lambda>v. aes_inv_sbox ! unat v) aes_sbox = map word_of_nat [0..<256]"
    by code_simp
  then have "map (\<lambda>v. aes_inv_sbox ! unat v) aes_sbox ! unat b = map word_of_nat [0..<256] ! unat b"
    by simp
  then show ?thesis
    using unat_byte_less [of b] \<open>length aes_sbox = 256\<close>
    by (simp add: inv_sub_byte_def sub_byte_def)
qed

lemma length_shift_rows [simp]: "length (shift_rows s) = 16"
  by (simp add: shift_rows_def)

lemma length_inv_shift_rows [simp]: "length (inv_shift_rows s) = 16"
  by (simp add: inv_shift_rows_def)

lemma inv_shift_rows_shift_rows: "length s = 16 \<Longrightarrow> inv_shift_rows (shift_rows s) = s"
proof -
  assume "length s = 16"
  have "[0..<16] = (0::nat) # 1 # [2..<16]"
    by (simp add: upt_rec [of 0] upt_rec [of "Suc 0"] numeral_2_eq_2)
  then have "inv_shift_rows (shift_rows s) = map (\<lambda>i. s ! i) [0..<16]"
    by (simp add: inv_shift_rows_def shift_rows_def upt_rec_numeral)
  with \<open>length s = 16\<close> show ?thesis by (metis map_nth)
qed

lemma xtime_xor: "xtime (a XOR b) = xtime a XOR xtime b"
proof -
  have "push_bit 1 (a XOR b) = push_bit 1 a XOR push_bit 1 b" by (rule push_bit_xor)
  then show ?thesis
    by (cases "bit a 7"; cases "bit b 7") (simp_all add: xtime_def bit_xor_iff ac_simps)
qed

lemma xor_left_self [simp]: "(a :: byte) XOR (a XOR b) = b"
  by (simp flip: xor.assoc)

lemmas mul_defs = mul2_def mul3_def mul9_def mul11_def mul13_def mul14_def

lemma inv_mix_columns_mix_columns: "4 dvd length s \<Longrightarrow> inv_mix_columns (mix_columns s) = s"
proof (induction s rule: mix_columns.induct)
  case (1 a b c d s)
  from "1.prems" have "4 dvd length s" by (simp add: numeral_eq_Suc) presburger
  with "1.IH" have "inv_mix_columns (mix_columns s) = s" .
  then show ?case
    by (simp add: mul_defs xtime_xor xor.assoc xor.commute xor.left_commute)
qed (auto dest: dvd_imp_le)

lemma length_mix_columns: "length (mix_columns s) = 4 * (length s div 4)"
proof (induction s rule: mix_columns.induct)
  case (1 a b c d s)
  have "(length s + 4) div 4 = length s div 4 + 1" by simp
  with 1 show ?case by (simp add: add.commute)
qed simp_all

lemma length_aes_rounds:
  "length s = 16 \<Longrightarrow> list_all (\<lambda>k. length k = 16) ks \<Longrightarrow> length (aes_rounds ks s) = 16"
  by (induction ks s rule: aes_rounds.induct) (simp_all add: length_mix_columns)

lemma aes_inv_rounds_rounds:
  "length s = 16 \<Longrightarrow> list_all (\<lambda>k. length k = 16) ks \<Longrightarrow> aes_inv_rounds ks (aes_rounds ks s) = s"
proof (induction ks s rule: aes_rounds.induct)
  case (2 k s)
  then show ?case by (simp add: xor_bytes_cancel inv_shift_rows_shift_rows comp_def)
next
  case (3 k k' ks s)
  let ?m = "mix_columns (shift_rows (map sub_byte s))"
  have "length ?m = 16" by (simp add: length_mix_columns)
  with "3" show ?case
    by (simp add: xor_bytes_cancel inv_mix_columns_mix_columns inv_shift_rows_shift_rows comp_def)
qed simp

lemma length_blocks [simp]: "length (blocks n xs) = length xs div n"
  by (simp add: blocks_def)

lemma block_length: "b \<in> set (blocks n xs) \<Longrightarrow> length b = n"
proof -
  assume "b \<in> set (blocks n xs)"
  then obtain i where i: "i < length xs div n" and b: "b = take n (drop (n * i) xs)"
    by (auto simp: blocks_def)
  then have "n * (i + 1) \<le> n * (length xs div n)" by (intro mult_le_mono) simp_all
  also have "\<dots> \<le> length xs" by simp
  finally show ?thesis using b by simp
qed

lemma aes_expand_invariant:
  assumes "0 < nk" and "nk \<le> length w" and "list_all (\<lambda>b. length b = 4) w"
  shows "length (aes_expand nk n w) = length w + n \<and>
    list_all (\<lambda>b. length b = 4) (aes_expand nk n w)"
proof (induction n)
  case 0
  with assms show ?case by (simp add: aes_expand_def)
next
  case (Suc n)
  let ?w = "aes_expand nk n w"
  from Suc assms have "?w \<noteq> []" by auto
  then have "last ?w \<in> set ?w" by (rule last_in_set)
  with Suc assms have "length (last ?w) = 4" and "length (?w ! (length ?w - nk)) = 4"
    by (auto simp: list_all_iff)
  then have "length (aes_next_word nk ?w) = 4"
    by (simp add: aes_next_word_def Let_def)
  with Suc show ?case by (simp add: aes_expand_def)
qed

lemma aes_round_keys_length:
  assumes "aes_key_ok key"
  shows "list_all (\<lambda>k. length k = 16) (aes_round_keys key)"
proof -
  let ?nk = "length key div 4"
  let ?w = "aes_expand ?nk (4 * (?nk + 7) - ?nk) (blocks 4 key)"
  have "list_all (\<lambda>b. length b = 4) (blocks 4 key)"
    by (simp add: list_all_iff block_length)
  then have w: "list_all (\<lambda>b. length b = 4) ?w"
    using assms by (intro aes_expand_invariant [THEN conjunct2]) (auto simp: aes_key_ok_def)
  have "length (concat b) = 16" if "b \<in> set (blocks 4 ?w)" for b
  proof -
    have "length b = 4" using that by (rule block_length)
    moreover have "set b \<subseteq> set ?w"
      using that by (auto simp: blocks_def dest!: in_set_takeD in_set_dropD)
    ultimately have "\<And>x. x \<in> set b \<Longrightarrow> length x = 4"
      using w unfolding list_all_iff by blast
    then have "length (concat b) = 4 * length b" by (rule length_concat_const)
    with \<open>length b = 4\<close> show ?thesis by simp
  qed
  then show ?thesis by (simp add: aes_round_keys_def Let_def list_all_iff)
qed

section \<open>The block cipher interface and CBC mode\<close>

locale block_cipher =
  fixes E D :: "'k \<Rightarrow> bytes \<Rightarrow> bytes" and valid :: "'k \<Rightarrow> bool"
  assumes length_E: "valid k \<Longrightarrow> length b = 16 \<Longrightarrow> length (E k b) = 16"
    and D_E: "valid k \<Longrightarrow> length b = 16 \<Longrightarrow> D k (E k b) = b"

interpretation aes: block_cipher aes_encrypt aes_decrypt aes_key_ok
proof
  fix key b :: bytes
  assume key: "aes_key_ok key" and b: "length b = 16"
  note ks = aes_round_keys_length [OF key]
  from ks b show "length (aes_encrypt key b) = 16"
    by (auto simp: aes_encrypt_def length_aes_rounds split: list.split)
  from ks b show "aes_decrypt key (aes_encrypt key b) = b"
    by (auto simp: aes_encrypt_def aes_decrypt_def aes_inv_rounds_rounds xor_bytes_cancel
        split: list.split)
qed

fun cbc_encrypt_blocks :: "(bytes \<Rightarrow> bytes) \<Rightarrow> bytes \<Rightarrow> bytes \<Rightarrow> bytes \<times> bytes" where
  "cbc_encrypt_blocks enc iv src =
     (if length src < 16 then ([], iv)
      else let c = enc (xor_bytes (take 16 src) iv);
               (cs, iv') = cbc_encrypt_blocks enc c (drop 16 src)
           in (c @ cs, iv'))"

fun cbc_decrypt_blocks :: "(bytes \<Rightarrow> bytes) \<Rightarrow> bytes \<Rightarrow> bytes \<Rightarrow> bytes \<times> bytes" where
  "cbc_decrypt_blocks dec iv src =
     (if length src < 16 then ([], iv)
      else let c = take 16 src;
               p = xor_bytes (dec c) iv;
               (ps, iv') = cbc_decrypt_blocks dec c (drop 16 src)
           in (p @ ps, iv'))"

declare cbc_encrypt_blocks.simps [simp del] cbc_decrypt_blocks.simps [simp del]

lemma cbc_encrypt_blocks_Nil [simp]: "cbc_encrypt_blocks enc iv [] = ([], iv)"
  by (subst cbc_encrypt_blocks.simps) simp

lemma cbc_decrypt_blocks_Nil [simp]: "cbc_decrypt_blocks dec iv [] = ([], iv)"
  by (subst cbc_decrypt_blocks.simps) simp

lemma cbc_encrypt_blocks_Block:
  "length b = 16 \<Longrightarrow> cbc_encrypt_blocks enc iv (b @ src) =
     (let c = enc (xor_bytes b iv); (cs, iv') = cbc_encrypt_blocks enc c src in (c @ cs, iv'))"
  by (subst cbc_encrypt_blocks.simps) simp

lemma cbc_decrypt_blocks_Block:
  "length c = 16 \<Longrightarrow> cbc_decrypt_blocks dec iv (c @ src) =
     (let (ps, iv') = cbc_decrypt_blocks dec c src in (xor_bytes (dec c) iv @ ps, iv'))"
  by (subst cbc_decrypt_blocks.simps) (simp add: Let_def)

text \<open>Chaining across calls: two calls are one call on the concatenation.\<close>

lemma cbc_encrypt_blocks_append:
  "16 dvd length xs \<Longrightarrow> cbc_encrypt_blocks enc iv (xs @ ys) =
     (let (cs, iv') = cbc_encrypt_blocks enc iv xs; (ds, iv'') = cbc_encrypt_blocks enc iv' ys
      in (cs @ ds, iv''))"
proof (induction xs arbitrary: iv rule: block16_induct)
  case (Block b zs)
  then show ?case
    by (simp add: cbc_encrypt_blocks_Block Let_def split: prod.split)
qed simp_all

lemma cbc_decrypt_blocks_append:
  "16 dvd length xs \<Longrightarrow> cbc_decrypt_blocks dec iv (xs @ ys) =
     (let (cs, iv') = cbc_decrypt_blocks dec iv xs; (ds, iv'') = cbc_decrypt_blocks dec iv' ys
      in (cs @ ds, iv''))"
proof (induction xs arbitrary: iv rule: block16_induct)
  case (Block b zs)
  then show ?case
    by (simp add: cbc_decrypt_blocks_Block Let_def split: prod.split)
qed simp_all

context block_cipher
begin

lemma cbc_decrypt_encrypt_blocks:
  assumes "valid k" and "length iv = 16" and "16 dvd length src"
  shows "cbc_decrypt_blocks (D k) iv (fst (cbc_encrypt_blocks (E k) iv src))
    = (src, snd (cbc_encrypt_blocks (E k) iv src))"
  using assms(3,2)
proof (induction src arbitrary: iv rule: block16_induct)
  case (Block b ys)
  let ?c = "E k (xor_bytes b iv)"
  from Block have len: "length (xor_bytes b iv) = 16" by simp
  with assms(1) have c: "length ?c = 16" and dc: "D k ?c = xor_bytes b iv"
    by (simp_all add: length_E D_E)
  from Block.IH [OF c] Block.hyps(1) Block.prems show ?case
    by (simp add: cbc_encrypt_blocks_Block cbc_decrypt_blocks_Block c dc xor_bytes_cancel
        Let_def case_prod_beta)
qed simp_all

lemma length_cbc_encrypt_blocks:
  assumes "valid k" and "length iv = 16" and "16 dvd length src"
  shows "length (fst (cbc_encrypt_blocks (E k) iv src)) = length src"
    and "length (snd (cbc_encrypt_blocks (E k) iv src)) = 16"
proof -
  have "length (fst (cbc_encrypt_blocks (E k) iv src)) = length src \<and>
    length (snd (cbc_encrypt_blocks (E k) iv src)) = 16"
    using assms(3,2)
  proof (induction src arbitrary: iv rule: block16_induct)
    case (Block b ys)
    let ?c = "E k (xor_bytes b iv)"
    from Block have "length (xor_bytes b iv) = 16" by simp
    with assms(1) have c: "length ?c = 16" by (simp add: length_E)
    from Block.IH [OF c] Block.hyps(1) c show ?case
      by (simp add: cbc_encrypt_blocks_Block Let_def case_prod_beta)
  qed simp_all
  then show "length (fst (cbc_encrypt_blocks (E k) iv src)) = length src"
    and "length (snd (cbc_encrypt_blocks (E k) iv src)) = 16" by simp_all
qed

end

text \<open>The stateful handles of the Go API.\<close>

record cbc =
  ckey :: bytes
  civ :: bytes

definition new_cbc :: "bytes \<Rightarrow> bytes \<Rightarrow> cbc" where
  "new_cbc key iv = \<lparr>ckey = key, civ = iv\<rparr>"

definition cbc_crypt_encrypt :: "cbc \<Rightarrow> bytes \<Rightarrow> cbc \<times> bytes" where
  "cbc_crypt_encrypt c src =
     (let (dst, iv) = cbc_encrypt_blocks (aes_encrypt (ckey c)) (civ c) src in (c\<lparr>civ := iv\<rparr>, dst))"

definition cbc_crypt_decrypt :: "cbc \<Rightarrow> bytes \<Rightarrow> cbc \<times> bytes" where
  "cbc_crypt_decrypt c src =
     (let (dst, iv) = cbc_decrypt_blocks (aes_decrypt (ckey c)) (civ c) src in (c\<lparr>civ := iv\<rparr>, dst))"

definition cbc_ok :: "cbc \<Rightarrow> bool" where
  "cbc_ok c \<longleftrightarrow> aes_key_ok (ckey c) \<and> length (civ c) = 16"

lemma cbc_crypt_encrypt_Nil [simp]: "cbc_crypt_encrypt c [] = (c, [])"
  by (simp add: cbc_crypt_encrypt_def)

lemma cbc_crypt_decrypt_Nil [simp]: "cbc_crypt_decrypt c [] = (c, [])"
  by (simp add: cbc_crypt_decrypt_def)

lemma cbc_crypt_encrypt_append:
  "16 dvd length xs \<Longrightarrow> cbc_crypt_encrypt c (xs @ ys) =
     (let (c', p) = cbc_crypt_encrypt c xs; (c'', q) = cbc_crypt_encrypt c' ys in (c'', p @ q))"
  by (simp add: cbc_crypt_encrypt_def cbc_encrypt_blocks_append Let_def split: prod.splits)

lemma cbc_crypt_decrypt_append:
  "16 dvd length xs \<Longrightarrow> cbc_crypt_decrypt c (xs @ ys) =
     (let (c', p) = cbc_crypt_decrypt c xs; (c'', q) = cbc_crypt_decrypt c' ys in (c'', p @ q))"
  by (simp add: cbc_crypt_decrypt_def cbc_decrypt_blocks_append Let_def split: prod.splits)

lemma cbc_crypt_encrypt_ok:
  assumes "cbc_ok c" and "16 dvd length src" and "cbc_crypt_encrypt c src = (c', dst)"
  shows "cbc_ok c'" and "length dst = length src"
  using assms aes.length_cbc_encrypt_blocks [of "ckey c" "civ c" src]
  by (auto simp: cbc_ok_def cbc_crypt_encrypt_def split: prod.splits)

lemma cbc_crypt_decrypt_encrypt:
  assumes "cbc_ok c" and "16 dvd length src" and "cbc_crypt_encrypt c src = (c', dst)"
  shows "cbc_crypt_decrypt c dst = (c', src)"
  using assms aes.cbc_decrypt_encrypt_blocks [of "ckey c" "civ c" src]
  by (auto simp: cbc_ok_def cbc_crypt_encrypt_def cbc_crypt_decrypt_def split: prod.splits)

lemma length_cbc_decrypt_blocks:
  "length iv = 16 \<Longrightarrow> (\<And>b. length b = 16 \<Longrightarrow> length (dec b) = 16) \<Longrightarrow> 16 dvd length src \<Longrightarrow>
   length (fst (cbc_decrypt_blocks dec iv src)) = length src"
  for dec :: "bytes \<Rightarrow> bytes"
proof -
  assume iv: "length iv = 16" and dec: "\<And>b. length b = 16 \<Longrightarrow> length (dec b) = 16"
  assume "16 dvd length src"
  from this iv show "length (fst (cbc_decrypt_blocks dec iv src)) = length src"
    by (induction src arbitrary: iv rule: block16_induct)
      (simp_all add: cbc_decrypt_blocks_Block dec case_prod_beta Let_def)
qed

lemma length_aes_inv_rounds: "length s = 16 \<Longrightarrow> length (aes_inv_rounds ks s) = 16"
  by (induction ks s rule: aes_inv_rounds.induct) simp_all

lemma length_aes_decrypt: "aes_key_ok key \<Longrightarrow> length b = 16 \<Longrightarrow> length (aes_decrypt key b) = 16"
  using aes_round_keys_length [of key]
  by (auto simp: aes_decrypt_def length_aes_inv_rounds split: list.split)

lemma cbc_decrypt_blocks_iv:
  "16 dvd length src \<Longrightarrow> length iv = 16 \<Longrightarrow> length (snd (cbc_decrypt_blocks dec iv src)) = 16"
proof (induction src arbitrary: iv rule: block16_induct)
  case (Block b ys)
  then show ?case by (simp add: cbc_decrypt_blocks_Block Let_def case_prod_beta)
qed simp

lemma cbc_crypt_decrypt_ok:
  assumes "cbc_ok c" and "16 dvd length src" and "cbc_crypt_decrypt c src = (c', dst)"
  shows "cbc_ok c'" and "length dst = length src"
  using assms length_cbc_decrypt_blocks [of "civ c" "aes_decrypt (ckey c)" src] length_aes_decrypt [of "ckey c"]
    cbc_decrypt_blocks_iv [of src "civ c" "aes_decrypt (ckey c)"]
  by (auto simp: cbc_ok_def cbc_crypt_decrypt_def split: prod.splits)

end
