(* ===== verification/Rsa.thy ===== *)
theory Rsa
  imports Cipher GoIO
begin

text \<open>
  \<open>crypto/rsa\<close>: OAEP with SHA-1 and an empty label, as \<open>EncryptOAEP\<close> and \<open>DecryptOAEP\<close> compute it. Keys
  are records of numbers, and an even modulus is refused, as \<open>bigmod\<close> does in the Go version of \<open>go.mod\<close> (1.22,
  which has no lower bound on the size); that a private key belongs to a public key is the predicate \<open>rsa_key_pair\<close>
  (decryption inverts encryption on every residue), the documented meaning of a key pair.
\<close>

record rsa_public =
  rN :: nat
  rE :: int

record rsa_private = rsa_public +
  rD :: nat

fun modexp :: "nat \<Rightarrow> nat \<Rightarrow> nat \<Rightarrow> nat" where
  "modexp b e n =
     (if e = 0 then 1 mod n
      else let h = modexp (b * b mod n) (e div 2) n in if even e then h else b * h mod n)"

declare modexp.simps [simp del]

lemma modexp_power: "modexp b e n = b ^ e mod n"
proof (induction b e n rule: modexp.induct)
  case (1 b e n)
  show ?case
  proof (cases "e = 0")
    case False
    with 1 have h: "modexp (b * b mod n) (e div 2) n = (b * b) ^ (e div 2) mod n"
      by (simp add: power_mod)
    show ?thesis
    proof (cases "even e")
      case True
      then have "b ^ e = (b * b) ^ (e div 2)"
        by (metis dvd_mult_div_cancel power2_eq_square power_mult)
      with False True show ?thesis by (subst modexp.simps) (simp add: h Let_def)
    next
      case odd: False
      then have "b ^ e = b * (b * b) ^ (e div 2)"
        by (metis odd_two_times_div_two_succ power_Suc power_mult power2_eq_square Suc_eq_plus1)
      with False odd show ?thesis
        by (subst modexp.simps) (simp add: h Let_def mod_mult_right_eq)
    qed
  qed (simp add: modexp.simps)
qed

definition rsa_size :: "nat \<Rightarrow> nat" where
  "rsa_size n = (if n = 0 then 0 else num_bytes n)"

definition checkPub :: "'a rsa_public_scheme \<Rightarrow> error option" where
  "checkPub pub =
     (if rE pub < 2 then Some ErrRsaExponentSmall
      else if 2147483647 < rE pub then Some ErrRsaExponentLarge
      else None)"

definition mgf1 :: "(bytes \<Rightarrow> bytes) \<Rightarrow> nat \<Rightarrow> bytes \<Rightarrow> nat \<Rightarrow> bytes" where
  "mgf1 H hlen seed n = take n (concat (map (\<lambda>i. H (seed @ be_bytes 4 i)) [0..<n div hlen + 1]))"

definition EncryptOAEP :: "reader \<Rightarrow> rsa_public \<Rightarrow> bytes \<Rightarrow> error + (bytes \<times> reader)" where
  "EncryptOAEP random pub msg =
     (case checkPub pub of
        Some e \<Rightarrow> Inl e
      | None \<Rightarrow>
          let k = rsa_size (rN pub) in
          if int k - 2 * 20 - 2 < int (length msg) then Inl ErrRsaMessageTooLong
          else
            (case read_full 20 random of
               Inl e \<Rightarrow> Inl e
             | Inr (seed, random') \<Rightarrow>
                 if even (rN pub) then Inl ErrRsaEvenModulus
                 else
                 let db = sha1 [] @ replicate (k - length msg - 42) 0 @ [1] @ msg;
                     maskedDB = xor_bytes db (mgf1 sha1 20 seed (length db));
                     maskedSeed = xor_bytes seed (mgf1 sha1 20 maskedDB 20);
                     em = [0] @ maskedSeed @ maskedDB
                 in Inr (be_bytes k (modexp (be_nat em) (nat (rE pub)) (rN pub)), random')))"

definition DecryptOAEP :: "rsa_private \<Rightarrow> bytes \<Rightarrow> error + bytes" where
  "DecryptOAEP priv ct =
     (case checkPub priv of
        Some e \<Rightarrow> Inl e
      | None \<Rightarrow>
          let k = rsa_size (rN priv) in
          if k < length ct \<or> k < 20 * 2 + 2 then Inl ErrRsaDecryption
          else if even (rN priv) \<or> rN priv \<le> be_nat ct then Inl ErrRsaDecryption
          else
            let em = be_bytes k (modexp (be_nat ct) (rD priv) (rN priv));
                maskedSeed = take 20 (drop 1 em);
                maskedDB = drop 21 em;
                seed = xor_bytes maskedSeed (mgf1 sha1 20 maskedDB 20);
                db = xor_bytes maskedDB (mgf1 sha1 20 seed (length maskedDB))
            in if em ! 0 = 0 \<and> take 20 db = sha1 []
               then (case dropWhile (\<lambda>b. b = 0) (drop 20 db) of
                       [] \<Rightarrow> Inl ErrRsaDecryption
                     | b # msg \<Rightarrow> if b = 1 then Inr msg else Inl ErrRsaDecryption)
               else Inl ErrRsaDecryption)"

definition rsa_key_pair :: "rsa_public \<Rightarrow> rsa_private \<Rightarrow> bool" where
  "rsa_key_pair pub priv \<longleftrightarrow>
     rN priv = rN pub \<and> rE priv = rE pub \<and>
     (\<forall>m < rN pub. (m ^ nat (rE pub) mod rN pub) ^ rD priv mod rN pub = m)"

context hash_function
begin

lemma length_mgf1 [simp]: "length (mgf1 H hlen seed n) = n"
proof -
  have "length (concat (map (\<lambda>i. H (seed @ be_bytes 4 i)) [0..<n div hlen + 1])) = hlen * (n div hlen + 1)"
    by (subst length_concat_const [where n = hlen]) (auto simp: length_H)
  moreover have "n \<le> hlen * (n div hlen + 1)"
    using hlen_pos by (metis add_mult_distrib2 div_mult_mod_eq less_imp_le mod_less_divisor
        mult.commute mult_1_right nat_add_left_cancel_le)
  ultimately show ?thesis by (simp add: mgf1_def)
qed

end

lemma EncryptOAEP_roundtrip:
  assumes pair: "rsa_key_pair pub priv" and enc: "EncryptOAEP random pub msg = Inr (ct, random')"
  shows "DecryptOAEP priv ct = Inr msg"
proof -
  let ?k = "rsa_size (rN pub)"
  from enc obtain seed where chk: "checkPub pub = None" and len: "length msg + 42 \<le> ?k"
    and seed: "length seed = 20" and od: "odd (rN pub)"
    and ct: "ct = (let db = sha1 [] @ replicate (?k - length msg - 42) 0 @ [1] @ msg;
                     maskedDB = xor_bytes db (mgf1 sha1 20 seed (length db));
                     maskedSeed = xor_bytes seed (mgf1 sha1 20 maskedDB 20)
                 in be_bytes ?k (modexp (be_nat ([0] @ maskedSeed @ maskedDB)) (nat (rE pub)) (rN pub)))"
    by (auto simp: EncryptOAEP_def Let_def dest!: read_full_InrD split: option.splits if_splits sum.splits)
  define db where "db = sha1 [] @ replicate (?k - length msg - 42) 0 @ [1] @ msg"
  define maskedDB where "maskedDB = xor_bytes db (mgf1 sha1 20 seed (length db))"
  define maskedSeed where "maskedSeed = xor_bytes seed (mgf1 sha1 20 maskedDB 20)"
  define em where "em = [0] @ maskedSeed @ maskedDB"
  have ldb: "length db = ?k - 21" using len by (simp add: db_def)
  then have lm: "length maskedDB = ?k - 21" "length maskedSeed = 20"
    by (simp_all add: maskedDB_def maskedSeed_def seed)
  then have lem: "length em = ?k" using len by (simp add: em_def)
  have N: "0 < rN pub" using len by (auto simp: rsa_size_def split: if_splits)
  then have "256 ^ (?k - 1) \<le> rN pub" using num_bytes_lower by (simp add: rsa_size_def)
  moreover have "be_nat em < 256 ^ (?k - 1)"
    using be_nat_bound [of "maskedSeed @ maskedDB"] lm len by (simp add: em_def be_nat_Cons)
  ultimately have em: "be_nat em < rN pub" by simp
  let ?c = "be_nat em ^ nat (rE pub) mod rN pub"
  have ct': "ct = be_bytes ?k ?c"
    unfolding ct Let_def modexp_power db_def [symmetric] maskedDB_def [symmetric]
      maskedSeed_def [symmetric] em_def [symmetric] by (rule refl)
  have "?c < rN pub" using N by simp
  moreover have "rN pub < 256 ^ ?k" using num_bytes_bound N by (simp add: rsa_size_def)
  ultimately have c: "be_nat ct = ?c" unfolding ct' by simp
  have dec: "be_bytes ?k (?c ^ rD priv mod rN pub) = em"
    using pair em be_bytes_be_nat [of em] lem by (simp add: rsa_key_pair_def)
  have s: "xor_bytes maskedSeed (mgf1 sha1 20 maskedDB 20) = seed"
    unfolding maskedSeed_def by (rule xor_bytes_cancel) (simp add: seed)
  have d: "xor_bytes maskedDB (mgf1 sha1 20 seed (length maskedDB)) = db"
    using lm ldb unfolding maskedDB_def by (simp add: xor_bytes_cancel)
  have "take 20 db = sha1 []" and dr: "drop 20 db = replicate (?k - length msg - 42) 0 @ [1] @ msg"
    by (simp_all add: db_def)
  moreover have "dropWhile (\<lambda>b. b = 0) (drop 20 db) = 1 # msg"
    unfolding dr by (subst dropWhile_append2) (auto split: if_splits)
  moreover have "take 20 (drop 1 em) = maskedSeed" "drop 21 em = maskedDB" "em ! 0 = 0"
    using lm by (simp_all add: em_def)
  moreover have "length ct = ?k" "\<not> rN pub \<le> ?c" "rN priv = rN pub" "checkPub priv = None"
    using chk pair \<open>?c < rN pub\<close> by (simp_all add: ct' rsa_key_pair_def checkPub_def split: if_splits)
  moreover have "xor_bytes maskedDB (mgf1 sha1 20 seed (length em - 21)) = db"
    using d lm(1) lem by simp
  ultimately show ?thesis
    using len s d od by (simp add: DecryptOAEP_def modexp_power c dec Let_def)
qed

lemma EncryptOAEP_length:
  "EncryptOAEP random pub msg = Inr (ct, random') \<Longrightarrow> length ct = rsa_size (rN pub) \<and> ct \<noteq> []"
  by (auto simp: EncryptOAEP_def Let_def split: option.splits if_splits sum.splits
      dest!: arg_cong [where f = length])

end
