(* ===== verification/Kdf.thy ===== *)
theory Kdf
  imports Cipher
begin

text \<open>
  \<open>kdf.go\<close> (\<open>EVP_BytesToKey\<close> with MD5) and \<open>hash.go\<close> (the salted envelope), with the envelope check of
  \<open>decrypt.go\<close>. The loop of \<open>evpKDF\<close> is \<open>evp_rounds\<close>: each round appends one digest, so it ends.
\<close>

section \<open>evpKDF\<close>

definition evp_digest :: "bytes \<Rightarrow> bytes \<Rightarrow> bytes \<Rightarrow> nat \<Rightarrow> bytes" where
  "evp_digest prev password salt count = (md5 ^^ (count - 1)) (md5 (prev @ password @ salt))"

lemma length_evp_digest [simp, length_simps]: "length (evp_digest prev password salt count) = 16"
  unfolding evp_digest_def by (cases "count - 1") simp_all

function evp_rounds :: "bytes \<Rightarrow> bytes \<Rightarrow> nat \<Rightarrow> nat \<Rightarrow> bytes \<Rightarrow> bytes \<Rightarrow> bytes" where
  "evp_rounds password salt count need prev buf =
     (if length buf < need
      then let digest = evp_digest prev password salt count
           in evp_rounds password salt count need digest (buf @ digest)
      else buf)"
  by pat_completeness auto
termination
  by (relation "measure (\<lambda>(password, salt, count, need, prev, buf). need - length buf)") auto

declare evp_rounds.simps [simp del]

definition evpKDF :: "bytes \<Rightarrow> bytes \<Rightarrow> int \<Rightarrow> nat \<Rightarrow> nat \<Rightarrow> bytes \<times> bytes" where
  "evpKDF password salt count keyLen ivLen =
     (let count' = (if count < 1 then 1 else nat count);
          buf = evp_rounds password salt count' (keyLen + ivLen) [] []
      in (take keyLen buf, take ivLen (drop keyLen buf)))"

lemma evp_rounds_length:
  "need \<le> length (evp_rounds password salt count need prev buf)"
proof (induction password salt count need prev buf rule: evp_rounds.induct)
  case (1 password salt count need prev buf)
  then show ?case
    by (subst evp_rounds.simps) (simp add: Let_def)
qed

lemma evp_rounds_prefix:
  "\<exists>s. evp_rounds password salt count need prev buf = buf @ s"
proof (induction password salt count need prev buf rule: evp_rounds.induct)
  case (1 password salt count need prev buf)
  show ?case
  proof (cases "length buf < need")
    case True
    with "1.IH" [OF True refl] show ?thesis
      by (subst evp_rounds.simps) (auto simp: Let_def)
  next
    case False
    then show ?thesis by (subst evp_rounds.simps) simp
  qed
qed

lemma evpKDF_lengths:
  assumes "evpKDF password salt count keyLen ivLen = (key, iv)"
  shows "length key = keyLen" and "length iv = ivLen"
proof -
  define buf where
    "buf = evp_rounds password salt (if count < 1 then 1 else nat count) (keyLen + ivLen) [] []"
  have "keyLen + ivLen \<le> length buf" unfolding buf_def by (rule evp_rounds_length)
  moreover from assms have "key = take keyLen buf" and "iv = take ivLen (drop keyLen buf)"
    by (simp_all add: evpKDF_def buf_def Let_def)
  ultimately show "length key = keyLen" and "length iv = ivLen" by simp_all
qed

text \<open>The reference: \<open>D_1 D_2 \<dots> D_n\<close> of \<open>EVP_BytesToKey\<close>, each digest chained to the one before.\<close>

primrec evp_chain :: "bytes \<Rightarrow> bytes \<Rightarrow> nat \<Rightarrow> bytes \<Rightarrow> nat \<Rightarrow> bytes" where
  "evp_chain password salt count prev 0 = []"
| "evp_chain password salt count prev (Suc n) =
     (let d = evp_digest prev password salt count in d @ evp_chain password salt count d n)"

lemma length_evp_chain [simp, length_simps]: "length (evp_chain password salt count prev n) = 16 * n"
  by (induction n arbitrary: prev) (simp_all add: Let_def)

lemma evp_rounds_chain:
  "evp_rounds password salt count need prev buf =
     buf @ evp_chain password salt count prev ((need - length buf + 15) div 16)"
proof (induction password salt count need prev buf rule: evp_rounds.induct)
  case (1 password salt count need prev buf)
  show ?case
  proof (cases "length buf < need")
    case True
    let ?d = "evp_digest prev password salt count"
    obtain k where k: "need = length buf + k" "0 < k" using True less_imp_add_positive by blast
    have "(k + 15) div 16 = Suc ((k - 16 + 15) div 16)"
    proof (cases "16 \<le> k")
      case True
      then obtain j where "k = 16 + j" using le_Suc_ex by blast
      then show ?thesis by simp
    next
      case False
      with k(2) have "(k + 15) div 16 = 1" by (intro div_nat_eqI) simp_all
      with False show ?thesis by simp
    qed
    then have "(need - length buf + 15) div 16 = Suc ((need - length (buf @ ?d) + 15) div 16)"
      by (simp add: k(1))
    with True "1.IH" [OF True refl] show ?thesis
      by (subst evp_rounds.simps) (simp add: Let_def)
  next
    case False
    then show ?thesis by (subst evp_rounds.simps) simp
  qed
qed

lemma evpKDF_chain:
  "evpKDF password salt count keyLen ivLen =
     (let s = evp_chain password salt (if count < 1 then 1 else nat count) [] ((keyLen + ivLen + 15) div 16)
      in (take keyLen s, take ivLen (drop keyLen s)))"
  by (simp add: evpKDF_def evp_rounds_chain Let_def)

section \<open>saltedDigest and verifyKeyHash\<close>

definition saltedDigest :: "bytes \<Rightarrow> bytes \<Rightarrow> string" where
  "saltedDigest saltASCII data = string_of_bytes saltASCII @ hex_encode (md5 (saltASCII @ data))"

definition verifyKeyHash :: "string \<Rightarrow> bytes \<Rightarrow> string \<Rightarrow> error option" where
  "verifyKeyHash saltedHash secret label =
     (if saltedHash = [] \<or> length saltedHash < 10 then None
      else let prefix = bytes_of_string (take 10 saltedHash)
           in if saltedDigest prefix secret \<noteq> saltedHash then Some (ErrHashMismatch label) else None)"

lemma length_saltedDigest [length_simps]:
  "length (saltedDigest salt data) = length salt + 32"
  by (simp add: saltedDigest_def md5.length_hex_H)

lemma verifyKeyHash_saltedDigest:
  "length prefix = 10 \<Longrightarrow> verifyKeyHash (saltedDigest prefix secret) secret label = None"
  by (simp add: verifyKeyHash_def saltedDigest_def)

lemma verifyKeyHash_iff:
  "verifyKeyHash h secret label = None \<longleftrightarrow>
     length h < 10 \<or> h = take 10 h @ hex_encode (md5 (bytes_of_string (take 10 h) @ secret))"
  by (auto simp: verifyKeyHash_def saltedDigest_def Let_def)

end
