(* ===== verification/Magic.thy ===== *)
theory Magic
  imports Digest GoIO
begin

text \<open>
  The 49-byte header of a stream: \<open>FileMagic\<close> (\<open>csenc.go\<close>), \<open>writeMagic\<close> (\<open>encrypt.go\<close>),
  \<open>consumeMagic\<close> (\<open>decrypt.go\<close>) and the header test of \<open>IsCsencFile\<close> (\<open>file.go\<close>).
\<close>

definition FileMagic :: string where
  "FileMagic = ''__CLOUDSYNC_ENC__''"

definition magicChecksumLen :: nat where
  "magicChecksumLen = 32"

definition writeMagic :: "sink \<Rightarrow> sink \<times> error option" where
  "writeMagic w =
     (case sink_write w (bytes_of_string FileMagic) of
        (w', Some e) \<Rightarrow> (w', Some e)
      | (w', None) \<Rightarrow>
          sink_write w' (bytes_of_string (hex_encode (md5 (bytes_of_string FileMagic)))))"

definition consumeMagic :: "reader \<Rightarrow> error + reader" where
  "consumeMagic r =
     (case read_full (length FileMagic) r of
        Inl e \<Rightarrow> Inl (ErrReadMagic e)
      | Inr (head, r1) \<Rightarrow>
          if head \<noteq> bytes_of_string FileMagic then Inl ErrBadMagic
          else
            (case read_full magicChecksumLen r1 of
               Inl e \<Rightarrow> Inl (ErrReadMagicChecksum e)
             | Inr (tail, r2) \<Rightarrow>
                 if hex_encode (md5 (bytes_of_string FileMagic)) \<noteq> string_of_bytes tail
                 then Inl ErrMagicChecksum else Inr r2))"

text \<open>\<open>IsCsencFile\<close> after a successful \<open>os.Open\<close>, on the file's content.\<close>

definition IsCsencContent :: "reader \<Rightarrow> error + bool" where
  "IsCsencContent f =
     (case read_full (length FileMagic) f of
        Inl e \<Rightarrow> if e = ErrEOF \<or> e = ErrUnexpectedEOF then Inr False else Inl e
      | Inr (head, f') \<Rightarrow> Inr (length head = length FileMagic \<and> head = bytes_of_string FileMagic))"

definition magic_header :: bytes where
  "magic_header = bytes_of_string FileMagic @ bytes_of_string (hex_encode (md5 (bytes_of_string FileMagic)))"

lemma length_magic_header: "length magic_header = 49"
  by (simp add: magic_header_def FileMagic_def md5.length_hex_H)

lemma writeMagic_ok: "writeMagic w = (w', None) \<Longrightarrow> written w' = written w @ magic_header"
  by (auto simp: writeMagic_def magic_header_def dest!: sink_write_ok split: prod.splits option.splits)

lemma writeMagic_succeeds: "room w = None \<Longrightarrow> \<exists>w'. writeMagic w = (w', None) \<and> room w' = None"
  by (simp add: writeMagic_def sink_write_room)

lemma consumeMagic_header:
  "rest r = magic_header @ s \<Longrightarrow> consumeMagic r = Inr (r\<lparr>rest := s\<rparr>)"
  using read_full_append [of "bytes_of_string FileMagic" "length FileMagic" r
      "bytes_of_string (hex_encode (md5 (bytes_of_string FileMagic))) @ s"]
    read_full_append [of "bytes_of_string (hex_encode (md5 (bytes_of_string FileMagic)))" magicChecksumLen
      "r\<lparr>rest := bytes_of_string (hex_encode (md5 (bytes_of_string FileMagic))) @ s\<rparr>" s]
  by (simp add: consumeMagic_def magic_header_def magicChecksumLen_def md5.length_hex_H)

lemma consumeMagic_InrD:
  "consumeMagic r = Inr r' \<Longrightarrow> rest r = magic_header @ rest r' \<and> r' = r\<lparr>rest := rest r'\<rparr>"
  by (auto simp: consumeMagic_def magic_header_def dest!: read_full_InrD split: sum.splits if_splits)

end
