(* ===== verification/Writer.thy ===== *)
theory Writer
  imports WireEncoder Padding Rsa Kdf Magic
begin

text \<open>
  \<open>encrypt.go\<close>: the streaming \<open>Writer\<close> and \<open>Encrypt\<close>. The pipeline is
  \<open>Writer.Write \<rightarrow> [lz4.Writer] \<rightarrow> aesFeeder \<rightarrow> pendingSink \<rightarrow> out\<close>; each stage owns the next one's state, as
  the pointers of the Go structs do, so the output of a started writer lives in its \<open>pendingSink\<close>
  (\<open>writer_out\<close>).

  The LZ4 frame writer is third-party code: a parameter \<open>lz\<close> with an initial state, a write step and a
  close step, each giving the bytes handed on to the AES stage. \<open>crand\<close> is \<open>crypto/rand.Reader\<close>.
\<close>

section \<open>Options\<close>

record EncryptOptions =
  ePassword :: bytes
  ePublicKey :: "rsa_public option"
  eMajor :: int64
  eMinor :: int64
  eFilename :: string
  eCompress :: "bool option"
  eRand :: "reader option"

definition opt_major :: "EncryptOptions \<Rightarrow> int64" where
  "opt_major opt = (if eMajor opt = 0 then 3 else eMajor opt)"

definition opt_minor :: "EncryptOptions \<Rightarrow> int64" where
  "opt_minor opt = (if eMajor opt = 0 \<and> eMinor opt = 0 then 1 else eMinor opt)"

definition opt_rand :: "reader \<Rightarrow> EncryptOptions \<Rightarrow> reader" where
  "opt_rand crand opt = (case eRand opt of Some r \<Rightarrow> r | None \<Rightarrow> crand)"

definition compressOn :: "EncryptOptions \<Rightarrow> bool" where
  "compressOn opt = (case eCompress opt of None \<Rightarrow> True | Some b \<Rightarrow> b)"

definition boolAsInt :: "bool \<Rightarrow> int64" where
  "boolAsInt b = (if b then 1 else 0)"

section \<open>Random material\<close>

definition alnum :: string where
  "alnum = ''ABCDEFGHIJKLMNOPQRSTUVWXYZabcdefghijklmnopqrstuvwxyz0123456789''"

definition randomAlnum :: "reader \<Rightarrow> nat \<Rightarrow> error + (bytes \<times> reader)" where
  "randomAlnum r n =
     (case read_full n r of
        Inl e \<Rightarrow> Inl e
      | Inr (buf, r') \<Rightarrow>
          Inr (map (\<lambda>b. of_char (alnum ! (unat b mod length alnum))) buf, r'))"

definition randomHex :: "reader \<Rightarrow> nat \<Rightarrow> error + (bytes \<times> reader)" where
  "randomHex r n =
     (case read_full ((n + 1) div 2) r of
        Inl e \<Rightarrow> Inl e
      | Inr (raw, r') \<Rightarrow> Inr (bytes_of_string (take n (hex_encode raw)), r'))"

section \<open>The ciphertext stages\<close>

definition dataChunkSize :: nat where
  "dataChunkSize = 32 * 1024"

record pendingSink =
  ps_out :: sink
  ps_buf :: bytes
  ps_chunkSize :: nat

text \<open>The loop of \<open>pendingSink.Write\<close> (with a zero chunk size, which no caller sets, it would not end).\<close>

function pending_drain :: "pendingSink \<Rightarrow> pendingSink \<times> error option" where
  "pending_drain s =
     (if 0 < ps_chunkSize s \<and> ps_chunkSize s \<le> length (ps_buf s)
      then
        (case writeDataDict (ps_out s) (take (ps_chunkSize s) (ps_buf s)) of
           (o', Some e) \<Rightarrow> (s\<lparr>ps_out := o'\<rparr>, Some e)
         | (o', None) \<Rightarrow>
             pending_drain (s\<lparr>ps_out := o', ps_buf := drop (ps_chunkSize s) (ps_buf s)\<rparr>))
      else (s, None))"
  by pat_completeness auto
termination
  by (relation "measure (\<lambda>s. length (ps_buf s))") auto

declare pending_drain.simps [simp del]

definition pending_Write :: "pendingSink \<Rightarrow> bytes \<Rightarrow> pendingSink \<times> error option" where
  "pending_Write s p = pending_drain (s\<lparr>ps_buf := ps_buf s @ p\<rparr>)"

definition pending_flush :: "pendingSink \<Rightarrow> pendingSink \<times> error option" where
  "pending_flush s =
     (if ps_buf s = [] then (s, None)
      else
        (case writeDataDict (ps_out s) (ps_buf s) of
           (o', Some e) \<Rightarrow> (s\<lparr>ps_out := o'\<rparr>, Some e)
         | (o', None) \<Rightarrow> (s\<lparr>ps_out := o', ps_buf := []\<rparr>, None)))"

record aesFeeder =
  af_enc :: cbc
  af_buf :: bytes
  af_sink :: pendingSink

definition aes_Write :: "aesFeeder \<Rightarrow> bytes \<Rightarrow> aesFeeder \<times> error option" where
  "aes_Write a p =
     (let buf = af_buf a @ p;
          full = length buf div 16 * 16
      in if full = 0 then (a\<lparr>af_buf := buf\<rparr>, None)
         else
           let (enc', cipherBuf) = cbc_crypt_encrypt (af_enc a) (take full buf)
           in case pending_Write (af_sink a) cipherBuf of
                (s', Some e) \<Rightarrow> (a\<lparr>af_enc := enc', af_buf := buf, af_sink := s'\<rparr>, Some e)
              | (s', None) \<Rightarrow> (a\<lparr>af_enc := enc', af_buf := drop full buf, af_sink := s'\<rparr>, None))"

definition aes_finish :: "aesFeeder \<Rightarrow> aesFeeder \<times> error option" where
  "aes_finish a =
     (let padLen = 16 - length (af_buf a) mod 16;
          buf = af_buf a @ replicate padLen (word_of_nat padLen);
          (enc', cipherBuf) = cbc_crypt_encrypt (af_enc a) buf
      in case pending_Write (af_sink a) cipherBuf of
           (s', Some e) \<Rightarrow> (a\<lparr>af_enc := enc', af_buf := buf, af_sink := s'\<rparr>, Some e)
         | (s', None) \<Rightarrow> (a\<lparr>af_enc := enc', af_buf := [], af_sink := s'\<rparr>, None))"

section \<open>The Writer\<close>

record 'e lz_writer =
  lzw_new :: 'e
  lzw_write :: "'e \<Rightarrow> bytes \<Rightarrow> 'e \<times> bytes"
  lzw_close :: "'e \<Rightarrow> bytes"

record 'e writer =
  w_out :: sink
  w_opts :: EncryptOptions
  w_crand :: reader
  w_md5 :: bytes
  w_lz4W :: "'e option"
  w_aes :: "aesFeeder option"
  w_started :: bool
  w_closed :: bool
  w_failed :: "error option"

definition writer_out :: "'e writer \<Rightarrow> sink" where
  "writer_out w = (case w_aes w of None \<Rightarrow> w_out w | Some a \<Rightarrow> ps_out (af_sink a))"

definition NewWriter :: "reader \<Rightarrow> sink \<Rightarrow> EncryptOptions \<Rightarrow> error + 'e writer" where
  "NewWriter crand out opts =
     (if ePassword opts = [] \<and> ePublicKey opts = None then Inl ErrNeedSecret
      else if opt_major opts \<noteq> 1 \<and> opt_major opts \<noteq> 3 then Inl (ErrMajorVersion (opt_major opts))
      else Inr \<lparr>w_out = out, w_opts = opts, w_crand = crand, w_md5 = [], w_lz4W = None, w_aes = None,
                w_started = False, w_closed = False, w_failed = None\<rparr>)"

text \<open>Step 3 of \<open>start\<close>: the session key wrapped with the password and with the public key.\<close>

definition wrapPassword :: "bytes \<Rightarrow> bytes \<Rightarrow> bytes \<Rightarrow> error + bytes" where
  "wrapPassword password salt sessionKeyOnWire =
     (if password = [] then Inr []
      else
        let iters = (if salt \<noteq> [] then 1000 else 1);
            (key, iv) = evpKDF password salt iters 32 16
        in case aes_new_cipher key of
             Inl e \<Rightarrow> Inl e
           | Inr block \<Rightarrow>
               Inr (snd (cbc_crypt_encrypt (new_cbc block iv) (pkcs7Pad sessionKeyOnWire 16))))"

definition wrapPublicKey :: "rsa_public option \<Rightarrow> bytes \<Rightarrow> reader \<Rightarrow> error + (bytes \<times> reader)" where
  "wrapPublicKey pub sessionKeyOnWire rnd =
     (case pub of
        None \<Rightarrow> Inr ([], rnd)
      | Some pk \<Rightarrow>
          (case EncryptOAEP rnd pk sessionKeyOnWire of
             Inl e \<Rightarrow> Inl (ErrRsaOaepSession e)
           | Inr (ct, rnd') \<Rightarrow> Inr (ct, rnd')))"

text \<open>Step 4: the two salted envelopes.\<close>

definition hashPassword :: "bytes \<Rightarrow> reader \<Rightarrow> error + (string \<times> reader)" where
  "hashPassword password rnd =
     (if password = [] then Inr ([], rnd)
      else
        (case randomHex rnd 10 of
           Inl e \<Rightarrow> Inl e
         | Inr (prefix, rnd') \<Rightarrow> Inr (saltedDigest prefix password, rnd')))"

definition hashSessionKey :: "bytes \<Rightarrow> reader \<Rightarrow> error + (string \<times> reader)" where
  "hashSessionKey sessionKeyOnWire rnd =
     (case randomHex rnd 10 of
        Inl e \<Rightarrow> Inl e
      | Inr (prefix, rnd') \<Rightarrow> Inr (saltedDigest prefix sessionKeyOnWire, rnd'))"

text \<open>Step 2.\<close>

definition makeSalt :: "int64 \<Rightarrow> reader \<Rightarrow> error + (bytes \<times> reader)" where
  "makeSalt major rnd = (if 3 \<le> sint major then randomAlnum rnd 8 else Inr ([], rnd))"

text \<open>Steps 1 to 4 together: the leading metadata and the KDF input of the payload cipher.\<close>

definition prepareHeader :: "EncryptOptions \<Rightarrow> reader \<Rightarrow> error + (leadingMetadata \<times> bytes)" where
  "prepareHeader opts rnd =
     (let major = opt_major opts in
      case read_full 32 rnd of
        Inl e \<Rightarrow> Inl (ErrRandSessionKey e)
      | Inr (rawSess, rnd1) \<Rightarrow>
          let sessionKeyOnWire = (if 3 \<le> sint major then bytes_of_string (hex_encode rawSess) else rawSess)
          in case makeSalt major rnd1 of
            Inl e \<Rightarrow> Inl e
          | Inr (salt, rnd2) \<Rightarrow>
            (case wrapPassword (ePassword opts) salt sessionKeyOnWire of
               Inl e \<Rightarrow> Inl e
             | Inr encKey1 \<Rightarrow>
             (case wrapPublicKey (ePublicKey opts) sessionKeyOnWire rnd2 of
                Inl e \<Rightarrow> Inl e
              | Inr (encKey2, rnd3) \<Rightarrow>
              (case hashPassword (ePassword opts) rnd3 of
                 Inl e \<Rightarrow> Inl e
               | Inr (key1Hash, rnd4) \<Rightarrow>
               (case hashSessionKey sessionKeyOnWire rnd4 of
                  Inl e \<Rightarrow> Inl e
                | Inr (sessKeyHash, rnd5) \<Rightarrow>
                    Inr (\<lparr>lmajor = major, lminor = opt_minor opts, lsalt = salt, lencKey1 = encKey1,
                          lencKey2 = encKey2, lkey1Hash = key1Hash, lsessKeyHash = sessKeyHash,
                          lcompress = boolAsInt (compressOn opts), lencrypt = 1,
                          lfilename = eFilename opts\<rparr>, rawSess))))))"

text \<open>Step 6.\<close>

definition newFeeder :: "bytes \<Rightarrow> sink \<Rightarrow> error + aesFeeder" where
  "newFeeder dataKDFInput out =
     (let (dataKey, dataIV) = evpKDF dataKDFInput [] 1 32 16
      in case aes_new_cipher dataKey of
           Inl e \<Rightarrow> Inl e
         | Inr block \<Rightarrow>
             Inr \<lparr>af_enc = new_cbc block dataIV, af_buf = [],
                  af_sink = \<lparr>ps_out = out, ps_buf = [], ps_chunkSize = dataChunkSize\<rparr>\<rparr>)"

definition writer_start :: "'e lz_writer \<Rightarrow> 'e writer \<Rightarrow> 'e writer \<times> error option" where
  "writer_start lz w0 =
     (let w = w0\<lparr>w_started := True\<rparr> in
      case prepareHeader (w_opts w) (opt_rand (w_crand w) (w_opts w)) of
        Inl e \<Rightarrow> (w, Some e)
      | Inr (m, dataKDFInput) \<Rightarrow>
        (case writeMagic (w_out w) of
           (o1, Some e) \<Rightarrow> (w\<lparr>w_out := o1\<rparr>, Some e)
         | (o1, None) \<Rightarrow>
           (case writeLeadingMetadata o1 m of
              (o2, Some e) \<Rightarrow> (w\<lparr>w_out := o2\<rparr>, Some e)
            | (o2, None) \<Rightarrow>
              (case newFeeder dataKDFInput o2 of
                 Inl e \<Rightarrow> (w\<lparr>w_out := o2\<rparr>, Some e)
               | Inr a \<Rightarrow>
                   (w\<lparr>w_out := o2, w_aes := Some a,
                      w_lz4W := (if compressOn (w_opts w) then Some (lzw_new lz) else None)\<rparr>, None)))))"

text \<open>What a write hands to the AES stage, directly or through the LZ4 writer.\<close>

definition feed_aes :: "'e writer \<Rightarrow> bytes \<Rightarrow> 'e writer \<times> error option" where
  "feed_aes w p =
     (case w_aes w of
        None \<Rightarrow> (w, None)
      | Some a \<Rightarrow> (case aes_Write a p of (a', r) \<Rightarrow> (w\<lparr>w_aes := Some a'\<rparr>, r)))"

definition writer_Write :: "'e lz_writer \<Rightarrow> 'e writer \<Rightarrow> bytes \<Rightarrow> 'e writer \<times> error option" where
  "writer_Write lz w0 p =
     (if w_closed w0 then (w0, Some ErrWriteClosed)
      else if w_failed w0 \<noteq> None then (w0, w_failed w0)
      else
        (case (if w_started w0 then (w0, None) else writer_start lz w0) of
           (w, Some e) \<Rightarrow> (w\<lparr>w_failed := Some e\<rparr>, Some e)
         | (w, None) \<Rightarrow>
             let w1 = w\<lparr>w_md5 := w_md5 w @ p\<rparr>
             in case w_lz4W w1 of
                  Some z \<Rightarrow> (case lzw_write lz z p of (z', b) \<Rightarrow> feed_aes (w1\<lparr>w_lz4W := Some z'\<rparr>) b)
                | None \<Rightarrow> feed_aes w1 p))"

definition close_lz :: "'e lz_writer \<Rightarrow> 'e writer \<Rightarrow> 'e writer \<times> error option" where
  "close_lz lz w = (case w_lz4W w of Some z \<Rightarrow> feed_aes w (lzw_close lz z) | None \<Rightarrow> (w, None))"

definition finish_aes :: "'e writer \<Rightarrow> 'e writer \<times> error option" where
  "finish_aes w =
     (case w_aes w of
        None \<Rightarrow> (w, None)
      | Some a \<Rightarrow> (case aes_finish a of (a', r) \<Rightarrow> (w\<lparr>w_aes := Some a'\<rparr>, r)))"

definition flush_sink :: "'e writer \<Rightarrow> 'e writer \<times> error option" where
  "flush_sink w =
     (case w_aes w of
        None \<Rightarrow> (w, None)
      | Some a \<Rightarrow> (case pending_flush (af_sink a) of (s', r) \<Rightarrow> (w\<lparr>w_aes := Some (a\<lparr>af_sink := s'\<rparr>)\<rparr>, r)))"

definition set_out :: "'e writer \<Rightarrow> sink \<Rightarrow> 'e writer" where
  "set_out w out =
     (case w_aes w of
        None \<Rightarrow> w\<lparr>w_out := out\<rparr>
      | Some a \<Rightarrow> w\<lparr>w_aes := Some (a\<lparr>af_sink := (af_sink a)\<lparr>ps_out := out\<rparr>\<rparr>)\<rparr>)"

definition write_final :: "'e writer \<Rightarrow> 'e writer \<times> error option" where
  "write_final w =
     (case writeFinalMetadata (writer_out w) (hex_encode (md5 (w_md5 w))) of
        (out, r) \<Rightarrow> (set_out w out, r))"

text \<open>The steps of \<open>Close\<close> in order; the first error is recorded in \<open>failed\<close> and ends it.\<close>

fun close_steps :: "('e writer \<Rightarrow> 'e writer \<times> error option) list \<Rightarrow> 'e writer \<Rightarrow> 'e writer \<times> error option" where
  "close_steps [] w = (w, None)"
| "close_steps (f # fs) w =
     (case f w of
        (w', Some e) \<Rightarrow> (w'\<lparr>w_failed := Some e\<rparr>, Some e)
      | (w', None) \<Rightarrow> close_steps fs w')"

definition writer_Close :: "'e lz_writer \<Rightarrow> 'e writer \<Rightarrow> 'e writer \<times> error option" where
  "writer_Close lz w0 =
     (if w_closed w0 then (w0, w_failed w0)
      else
        let w = w0\<lparr>w_closed := True\<rparr> in
        if w_failed w \<noteq> None then (w, w_failed w)
        else close_steps
               [(\<lambda>w. if w_started w then (w, None) else writer_start lz w),
                close_lz lz, finish_aes, flush_sink, write_final] w)"

definition writer_abort :: "'e writer \<Rightarrow> 'e writer" where
  "writer_abort w = w\<lparr>w_closed := True\<rparr>"

text \<open>
  \<open>Encrypt\<close>: the input reader delivers \<open>chunks\<close> (one per \<open>Read\<close>) and then ends with \<open>inEnd\<close>; \<open>io.Copy\<close>
  writes every non-empty one and treats \<open>io.EOF\<close> as success.
\<close>

definition Encrypt ::
    "'e lz_writer \<Rightarrow> reader \<Rightarrow> bytes list \<Rightarrow> error \<Rightarrow> sink \<Rightarrow> EncryptOptions \<Rightarrow> sink \<times> error option" where
  "Encrypt lz crand chunks inEnd out opts =
     (case NewWriter crand out opts of
        Inl e \<Rightarrow> (out, Some e)
      | Inr w \<Rightarrow>
          (case copy_chunks (writer_Write lz) w (filter (\<lambda>c. c \<noteq> []) chunks) of
             (w', Some e) \<Rightarrow> (writer_out (writer_abort w'), Some e)
           | (w', None) \<Rightarrow>
               if inEnd \<noteq> ErrEOF then (writer_out (writer_abort w'), Some inEnd)
               else (case writer_Close lz w' of (w'', r) \<Rightarrow> (writer_out w'', r))))"

end
