(* ===== verification/WriterCorrect.thy ===== *)
theory WriterCorrect
  imports Writer
begin

text \<open>
  What the stages of \<open>encrypt.go\<close> promise. Every stage is an \<open>io_writer\<close> whose \<open>accepted\<close> relation says
  where the accepted bytes are: in data dicts on \<open>out\<close> and in the stage's buffer (\<open>pendingSink\<close>), as CBC
  ciphertext further down and in a partial block (\<open>aesFeeder\<close>), as the input of the LZ4 writer or
  directly in the AES stage (\<open>Writer\<close>). The stream a successful run leaves behind, and when a run
  succeeds, follow from the contracts.
\<close>

section \<open>pendingSink\<close>

text \<open>The dicts that carry the ciphertext chunks \<open>cs\<close>.\<close>

definition data_stream :: "bytes list \<Rightarrow> bytes" where
  "data_stream cs = concat (map (\<lambda>c. enc_value (VDict (data_members c))) cs)"

lemma data_stream_simps [simp]:
  "data_stream [] = []"
  "data_stream (cs @ ds) = data_stream cs @ data_stream ds"
  "data_stream (c # cs) = enc_value (VDict (data_members c)) @ data_stream cs"
  by (simp_all add: data_stream_def)

definition chunked :: "nat \<Rightarrow> bytes \<Rightarrow> pendingSink \<Rightarrow> bytes \<Rightarrow> bool" where
  "chunked n base s d \<longleftrightarrow> ps_chunkSize s = n \<and> 0 < n \<and>
     (\<exists>cs. (\<forall>c \<in> set cs. length c = n) \<and> written (ps_out s) = base @ data_stream cs \<and>
       d = concat cs @ ps_buf s)"

definition pending_accepted :: "nat \<Rightarrow> bytes \<Rightarrow> pendingSink \<Rightarrow> bytes \<Rightarrow> bool" where
  "pending_accepted n base s d \<longleftrightarrow> chunked n base s d \<and> length (ps_buf s) < n"

lemma chunked_emit:
  assumes "chunked n base s d" and "n \<le> length (ps_buf s)"
    and "writeDataDict (ps_out s) (take n (ps_buf s)) = (o', None)"
  shows "chunked n base (s\<lparr>ps_out := o', ps_buf := drop n (ps_buf s)\<rparr>) d"
proof -
  from assms(1) obtain cs where "\<forall>c \<in> set cs. length c = n" "written (ps_out s) = base @ data_stream cs"
    "d = concat cs @ ps_buf s" by (auto simp: chunked_def)
  with assms(2) writeDataDict_ok [OF assms(3)]
  have "(\<forall>c \<in> set (cs @ [take n (ps_buf s)]). length c = n) \<and>
      written o' = base @ data_stream (cs @ [take n (ps_buf s)]) \<and>
      d = concat (cs @ [take n (ps_buf s)]) @ drop n (ps_buf s)" by simp
  then have "\<exists>cs. (\<forall>c \<in> set cs. length c = n) \<and> written o' = base @ data_stream cs \<and>
      d = concat cs @ drop n (ps_buf s)" by (rule exI)
  with assms(1) show ?thesis by (simp add: chunked_def)
qed

lemma pending_drain_accepted:
  "chunked n base s d \<Longrightarrow> pending_drain s = (s', None) \<Longrightarrow> pending_accepted n base s' d"
proof (induction s rule: pending_drain.induct)
  case (1 s)
  have n: "ps_chunkSize s = n" "0 < n" using "1.prems"(1) by (simp_all add: chunked_def)
  show ?case
  proof (cases "n \<le> length (ps_buf s)")
    case True
    with "1.prems"(2) n obtain o' where o: "writeDataDict (ps_out s) (take n (ps_buf s)) = (o', None)"
      and d: "pending_drain (s\<lparr>ps_out := o', ps_buf := drop n (ps_buf s)\<rparr>) = (s', None)"
      by (subst (asm) pending_drain.simps) (auto split: prod.splits option.splits)
    from "1.IH" [of o' None] n True o d chunked_emit [OF "1.prems"(1) True o] show ?thesis by simp
  next
    case False
    with "1.prems" n show ?thesis
      by (subst (asm) pending_drain.simps) (simp add: pending_accepted_def)
  qed
qed

interpretation pending: io_writer pending_Write "pending_accepted n base" for n base
proof
  fix s d b s'
  assume "pending_accepted n base s d" and "pending_Write s b = (s', None)"
  moreover from this(1) have "chunked n base (s\<lparr>ps_buf := ps_buf s @ b\<rparr>) (d @ b)"
    by (auto simp: pending_accepted_def chunked_def)
  ultimately show "pending_accepted n base s' (d @ b)"
    unfolding pending_Write_def by (blast intro: pending_drain_accepted)
qed

text \<open>After \<open>flush\<close> everything accepted is on \<open>out\<close>: full chunks and at most one shorter, non-empty one.\<close>

lemma pending_flush_ok:
  assumes "pending_accepted n base s d" and "pending_flush s = (s', None)"
  shows "\<exists>cs. written (ps_out s') = base @ data_stream cs \<and> concat cs = d \<and>
    (\<forall>c \<in> set (butlast cs). length c = n) \<and> (\<forall>c \<in> set cs. c \<noteq> [] \<and> length c \<le> n)"
proof -
  from assms(1) obtain cs where cs: "\<forall>c \<in> set cs. length c = n"
    "written (ps_out s) = base @ data_stream cs" "d = concat cs @ ps_buf s"
    and b: "length (ps_buf s) < n" by (auto simp: pending_accepted_def chunked_def)
  show ?thesis
  proof (cases "ps_buf s = []")
    case True
    with cs b assms(2) show ?thesis
      by (intro exI [of _ cs]) (auto simp: pending_flush_def dest: in_set_butlastD)
  next
    case False
    with cs b assms(2) show ?thesis
      by (intro exI [of _ "cs @ [ps_buf s]"])
        (auto simp: pending_flush_def dest!: writeDataDict_ok split: prod.splits option.splits)
  qed
qed

lemma pending_drain_room:
  "room (ps_out s) = None \<Longrightarrow> ps_chunkSize s \<le> 65535 \<Longrightarrow>
     \<exists>s'. pending_drain s = (s', None) \<and> room (ps_out s') = None \<and> ps_chunkSize s' = ps_chunkSize s \<and>
       (0 < ps_chunkSize s \<longrightarrow> length (ps_buf s') < ps_chunkSize s)"
proof (induction s rule: pending_drain.induct)
  case (1 s)
  let ?n = "ps_chunkSize s"
  show ?case
  proof (cases "0 < ?n \<and> ?n \<le> length (ps_buf s)")
    case True
    with "1.prems" obtain o' where o: "writeDataDict (ps_out s) (take ?n (ps_buf s)) = (o', None)"
      "room o' = None" using writeDataDict_succeeds [of "ps_out s" "take ?n (ps_buf s)"] by auto
    with "1.IH" [OF True o(1) [symmetric] refl] "1.prems" True show ?thesis
      by (subst pending_drain.simps) simp
  next
    case False
    with "1.prems" show ?thesis by (subst pending_drain.simps) auto
  qed
qed

lemma pending_Write_room:
  "room (ps_out s) = None \<Longrightarrow> ps_chunkSize s \<le> 65535 \<Longrightarrow>
     \<exists>s'. pending_Write s p = (s', None) \<and> room (ps_out s') = None \<and> ps_chunkSize s' = ps_chunkSize s \<and>
       (0 < ps_chunkSize s \<longrightarrow> length (ps_buf s') < ps_chunkSize s)"
  using pending_drain_room [of "s\<lparr>ps_buf := ps_buf s @ p\<rparr>"] by (simp add: pending_Write_def)

lemma pending_flush_room:
  "room (ps_out s) = None \<Longrightarrow> length (ps_buf s) \<le> 65535 \<Longrightarrow>
     \<exists>s'. pending_flush s = (s', None) \<and> room (ps_out s') = None"
  using writeDataDict_succeeds [of "ps_out s" "ps_buf s"] by (auto simp: pending_flush_def)

section \<open>aesFeeder\<close>

text \<open>\<open>c0\<close> is the cipher state in which the feeder started.\<close>

definition aes_accepted :: "cbc \<Rightarrow> bytes \<Rightarrow> aesFeeder \<Rightarrow> bytes \<Rightarrow> bool" where
  "aes_accepted c0 base a d \<longleftrightarrow> length (af_buf a) < 16 \<and>
     (\<exists>full ct. 16 dvd length full \<and> d = full @ af_buf a \<and> cbc_crypt_encrypt c0 full = (af_enc a, ct) \<and>
       pending_accepted dataChunkSize base (af_sink a) ct)"

lemma take_blocks: "16 dvd length (take (length xs div 16 * 16) xs)"
  and drop_blocks: "length (drop (length xs div 16 * 16) xs) < 16"
  by (simp_all add: minus_div_mult_eq_mod)

interpretation aesw: io_writer aes_Write "aes_accepted c0 base" for c0 base
proof
  fix a d p a'
  assume acc: "aes_accepted c0 base a d" and w: "aes_Write a p = (a', None)"
  let ?buf = "af_buf a @ p"
  let ?full = "length ?buf div 16 * 16"
  from acc obtain full ct where f: "16 dvd length full" "d = full @ af_buf a"
    "cbc_crypt_encrypt c0 full = (af_enc a, ct)" "pending_accepted dataChunkSize base (af_sink a) ct"
    by (auto simp: aes_accepted_def)
  show "aes_accepted c0 base a' (d @ p)"
  proof (cases "?full = 0")
    case True
    then have "length ?buf < 16" by (simp add: div_eq_0_iff)
    with True w f show ?thesis by (auto simp: aes_Write_def aes_accepted_def)
  next
    case False
    obtain enc' cb where e: "cbc_crypt_encrypt (af_enc a) (take ?full ?buf) = (enc', cb)"
      by (cases "cbc_crypt_encrypt (af_enc a) (take ?full ?buf)")
    with False w obtain s' where s: "pending_Write (af_sink a) cb = (s', None)"
      and a': "a' = a\<lparr>af_enc := enc', af_buf := drop ?full ?buf, af_sink := s'\<rparr>"
      by (auto simp: aes_Write_def Let_def split: prod.splits option.splits)
    have "cbc_crypt_encrypt c0 (full @ take ?full ?buf) = (enc', ct @ cb)"
      using cbc_crypt_encrypt_append [OF f(1)] f(3) e by simp
    moreover have "d @ p = (full @ take ?full ?buf) @ drop ?full ?buf"
      by (simp only: f(2) append_assoc append_take_drop_id)
    moreover have "16 dvd length (full @ take ?full ?buf)"
      unfolding length_append [of full] using f(1) take_blocks by (rule dvd_add)
    moreover have "length (drop ?full ?buf) < 16" by (rule drop_blocks)
    ultimately show ?thesis
      unfolding aes_accepted_def using pending.write_accepted [OF f(4) s] by (auto simp add: a' simp del: drop_append take_append length_append)
  qed
qed

text \<open>\<open>finish\<close> hands on the ciphertext of the padded input, whatever the writes were.\<close>

lemma aes_finish_ok:
  assumes "aes_accepted c0 base a d" and "aes_finish a = (a', None)"
  shows "pending_accepted dataChunkSize base (af_sink a') (snd (cbc_crypt_encrypt c0 (pkcs7Pad d 16)))"
proof -
  from assms(1) obtain full ct where f: "16 dvd length full" "d = full @ af_buf a"
    "cbc_crypt_encrypt c0 full = (af_enc a, ct)" "pending_accepted dataChunkSize base (af_sink a) ct"
    by (auto simp: aes_accepted_def)
  let ?p = "pkcs7Pad (af_buf a) 16"
  obtain enc' cb where e: "cbc_crypt_encrypt (af_enc a) ?p = (enc', cb)"
    by (cases "cbc_crypt_encrypt (af_enc a) ?p")
  with assms(2) obtain s' where s: "pending_Write (af_sink a) cb = (s', None)" and a': "af_sink a' = s'"
    by (auto simp: aes_finish_def pkcs7Pad_def Let_def split: prod.splits option.splits)
  have "snd (cbc_crypt_encrypt c0 (pkcs7Pad d 16)) = ct @ cb"
    using f e by (simp add: pkcs7Pad_append cbc_crypt_encrypt_append)
  with pending.write_accepted [OF f(4) s] show ?thesis by (simp add: a')
qed

definition aes_room :: "aesFeeder \<Rightarrow> bool" where
  "aes_room a \<longleftrightarrow> room (ps_out (af_sink a)) = None \<and> ps_chunkSize (af_sink a) = dataChunkSize \<and>
     length (ps_buf (af_sink a)) < dataChunkSize"

lemma aes_Write_room: "aes_room a \<Longrightarrow> \<exists>a'. aes_Write a p = (a', None) \<and> aes_room a'"
  and aes_finish_room: "aes_room a \<Longrightarrow> \<exists>a'. aes_finish a = (a', None) \<and> aes_room a'"
proof -
  assume a: "aes_room a"
  have *: "\<exists>s'. pending_Write (af_sink a) x = (s', None) \<and> room (ps_out s') = None \<and>
      ps_chunkSize s' = dataChunkSize \<and> length (ps_buf s') < dataChunkSize" for x
    using a pending_Write_room [of "af_sink a" x] by (auto simp: aes_room_def dataChunkSize_def)
  show "\<exists>a'. aes_Write a p = (a', None) \<and> aes_room a'"
    using * [of "snd (cbc_crypt_encrypt (af_enc a) (take (length (af_buf a @ p) div 16 * 16) (af_buf a @ p)))"] a
    by (auto simp: aes_Write_def aes_room_def Let_def split: prod.splits)
  show "\<exists>a'. aes_finish a = (a', None) \<and> aes_room a'"
    using * [of "snd (cbc_crypt_encrypt (af_enc a) (af_buf a @ replicate (16 - length (af_buf a) mod 16)
        (word_of_nat (16 - length (af_buf a) mod 16))))"] a
    by (auto simp: aes_finish_def aes_room_def Let_def split: prod.splits)
qed

section \<open>Writer\<close>

text \<open>What the LZ4 writer has emitted after the writes \<open>bs\<close>, and the whole frame once it is closed.\<close>

fun lz_run :: "'e lz_writer \<Rightarrow> 'e \<Rightarrow> bytes list \<Rightarrow> 'e \<times> bytes" where
  "lz_run lz z [] = (z, [])"
| "lz_run lz z (b # bs) =
     (case lzw_write lz z b of (z1, x) \<Rightarrow> (case lz_run lz z1 bs of (z2, y) \<Rightarrow> (z2, x @ y)))"

definition lz_frame :: "'e lz_writer \<Rightarrow> bytes list \<Rightarrow> bytes" where
  "lz_frame lz bs = (case lz_run lz (lzw_new lz) bs of (z, x) \<Rightarrow> x @ lzw_close lz z)"

lemma lz_run_append:
  "lz_run lz z (bs @ cs) = (case lz_run lz z bs of (z1, x) \<Rightarrow> (case lz_run lz z1 cs of (z2, y) \<Rightarrow> (z2, x @ y)))"
  by (induction bs arbitrary: z) (auto split: prod.splits)

definition payload :: "'e lz_writer \<Rightarrow> EncryptOptions \<Rightarrow> bytes list \<Rightarrow> bytes" where
  "payload lz opts bs = (if compressOn opts then lz_frame lz bs else concat bs)"

definition payload_cipher :: "bytes \<Rightarrow> cbc" where
  "payload_cipher sk = (case evpKDF sk [] 1 32 16 of (key, iv) \<Rightarrow> new_cbc key iv)"

definition leading_stream :: "leadingMetadata \<Rightarrow> bytes" where
  "leading_stream m = magic_header @ enc_value (VDict (leading_members m))"

lemma payload_cipher_ok: "cbc_ok (payload_cipher sk)"
  using evpKDF_lengths [of sk "[]" 1 32 16]
  by (cases "evpKDF sk [] 1 32 16") (simp add: payload_cipher_def cbc_ok_def new_cbc_def aes_key_ok_def)

definition prepared :: "reader \<Rightarrow> EncryptOptions \<Rightarrow> leadingMetadata \<Rightarrow> bytes \<Rightarrow> bool" where
  "prepared crand opts m sk \<longleftrightarrow> prepareHeader opts (opt_rand crand opts) = Inr (m, sk) \<and> leading_ok m"

text \<open>The writer has taken the writes \<open>bs\<close>; \<open>writer_accepted\<close> forgets how the data was split.\<close>

definition writer_wrote ::
    "'e lz_writer \<Rightarrow> reader \<Rightarrow> sink \<Rightarrow> EncryptOptions \<Rightarrow> 'e writer \<Rightarrow> bytes list \<Rightarrow> bool" where
  "writer_wrote lz crand out opts w bs \<longleftrightarrow>
     w_opts w = opts \<and> w_crand w = crand \<and> \<not> w_closed w \<and> w_failed w = None \<and> w_md5 w = concat bs \<and>
     (if w_started w
      then \<exists>m sk a. prepared crand opts m sk \<and> w_aes w = Some a \<and>
        w_lz4W w = (if compressOn opts then Some (fst (lz_run lz (lzw_new lz) bs)) else None) \<and>
        aes_accepted (payload_cipher sk) (written out @ leading_stream m) a
          (if compressOn opts then snd (lz_run lz (lzw_new lz) bs) else concat bs)
      else bs = [] \<and> w_aes w = None \<and> w_lz4W w = None \<and> w_out w = out)"

definition writer_accepted ::
    "'e lz_writer \<Rightarrow> reader \<Rightarrow> sink \<Rightarrow> EncryptOptions \<Rightarrow> 'e writer \<Rightarrow> bytes \<Rightarrow> bool" where
  "writer_accepted lz crand out opts w d \<longleftrightarrow> (\<exists>bs. concat bs = d \<and> writer_wrote lz crand out opts w bs)"

lemma writer_wroteD:
  assumes "writer_wrote lz crand out opts w bs" and "w_started w"
  shows "\<exists>m sk a. prepared crand opts m sk \<and> w_aes w = Some a \<and>
        w_lz4W w = (if compressOn opts then Some (fst (lz_run lz (lzw_new lz) bs)) else None) \<and>
        aes_accepted (payload_cipher sk) (written out @ leading_stream m) a
          (if compressOn opts then snd (lz_run lz (lzw_new lz) bs) else concat bs)"
    and "w_opts w = opts" "w_crand w = crand" "\<not> w_closed w" "w_failed w = None" "w_md5 w = concat bs"
  using assms by (simp_all add: writer_wrote_def)

lemma newFeeder_ok:
  "\<exists>a. newFeeder sk out = Inr a \<and> aes_accepted (payload_cipher sk) (written out) a [] \<and>
     ps_out (af_sink a) = out \<and> (room out = None \<longrightarrow> aes_room a)"
  using evpKDF_lengths [of sk "[]" 1 32 16]
  by (cases "evpKDF sk [] 1 32 16")
    (simp add: newFeeder_def payload_cipher_def aes_new_cipher_def aes_key_ok_def aes_accepted_def
      pending_accepted_def chunked_def dataChunkSize_def aes_room_def exI [of _ "[] :: bytes list"])

lemma writer_start_ok:
  assumes "writer_start lz w = (w', None)"
  shows "\<exists>m sk a o2. prepared (w_crand w) (w_opts w) m sk \<and>
    w' = w\<lparr>w_started := True, w_out := o2, w_aes := Some a,
           w_lz4W := (if compressOn (w_opts w) then Some (lzw_new lz) else None)\<rparr> \<and>
    aes_accepted (payload_cipher sk) (written (w_out w) @ leading_stream m) a []"
proof -
  from assms obtain m sk o1 o2 a where
    m: "prepareHeader (w_opts w) (opt_rand (w_crand w) (w_opts w)) = Inr (m, sk)"
    and o1: "writeMagic (w_out w) = (o1, None)" and o2: "writeLeadingMetadata o1 m = (o2, None)"
    and a: "newFeeder sk o2 = Inr a"
    and w': "w' = w\<lparr>w_started := True, w_out := o2, w_aes := Some a,
        w_lz4W := (if compressOn (w_opts w) then Some (lzw_new lz) else None)\<rparr>"
    by (auto simp: writer_start_def Let_def split: sum.splits prod.splits option.splits)
  have "written o2 = written (w_out w) @ leading_stream m" "leading_ok m"
    using writeMagic_ok [OF o1] writeLeadingMetadata_ok [OF o2] by (simp_all add: leading_stream_def)
  with m w' a newFeeder_ok [of sk o2] show ?thesis by (auto simp: prepared_def)
qed

lemma writer_started_wrote:
  assumes "writer_wrote lz crand out opts w bs"
    and "(if w_started w then (w, None) else writer_start lz w) = (w', None)"
  shows "writer_wrote lz crand out opts w' bs \<and> w_started w'"
proof (cases "w_started w")
  case False
  with assms(2) have "writer_start lz w = (w', None)" by simp
  from writer_start_ok [OF this] obtain m sk a o2 where
    p: "prepared (w_crand w) (w_opts w) m sk"
    and w': "w' = w\<lparr>w_started := True, w_out := o2, w_aes := Some a,
           w_lz4W := (if compressOn (w_opts w) then Some (lzw_new lz) else None)\<rparr>"
    and a: "aes_accepted (payload_cipher sk) (written (w_out w) @ leading_stream m) a []" by blast
  show ?thesis
    using assms(1) False p a unfolding writer_wrote_def w'
    by (auto intro!: exI [of _ m] exI [of _ sk])
qed (use assms in simp)

lemma feed_aes_accepted:
  assumes "feed_aes w b = (w', None)" and "w_aes w = Some a" and "aes_accepted c base a d"
  shows "\<exists>a'. w' = w\<lparr>w_aes := Some a'\<rparr> \<and> aes_accepted c base a' (d @ b)"
  using assms aesw.write_accepted [OF assms(3)] by (auto simp: feed_aes_def split: prod.splits)

lemma writer_Write_wrote:
  assumes acc0: "writer_wrote lz crand out opts w0 bs" and wr: "writer_Write lz w0 p = (w2, None)"
  shows "writer_wrote lz crand out opts w2 (bs @ [p])"
proof -
  have "\<not> w_closed w0" "w_failed w0 = None" using acc0 by (simp_all add: writer_wrote_def)
  with wr obtain w where st: "(if w_started w0 then (w0, None) else writer_start lz w0) = (w, None)"
    and w2: "(case w_lz4W w of
                Some z \<Rightarrow> (case lzw_write lz z p of
                   (z', b) \<Rightarrow> feed_aes (w\<lparr>w_md5 := w_md5 w @ p, w_lz4W := Some z'\<rparr>) b)
              | None \<Rightarrow> feed_aes (w\<lparr>w_md5 := w_md5 w @ p\<rparr>) p) = (w2, None)"
    unfolding writer_Write_def
    by (auto simp: Let_def split: prod.splits option.splits if_splits)
  from writer_started_wrote [OF acc0 st] have started: "writer_wrote lz crand out opts w bs" "w_started w"
    by simp_all
  note w = started(2) writer_wroteD(2-) [OF started]
  from writer_wroteD(1) [OF started] obtain m sk a where
    p: "prepared crand opts m sk" and a: "w_aes w = Some a"
    and lz: "w_lz4W w = (if compressOn opts then Some (fst (lz_run lz (lzw_new lz) bs)) else None)"
    and acc: "aes_accepted (payload_cipher sk) (written out @ leading_stream m) a
          (if compressOn opts then snd (lz_run lz (lzw_new lz) bs) else concat bs)"
    by blast
  obtain z x where z: "lz_run lz (lzw_new lz) bs = (z, x)" by (cases "lz_run lz (lzw_new lz) bs")
  show ?thesis
  proof (cases "compressOn opts")
    case True
    obtain z' b where b: "lzw_write lz z p = (z', b)" by (cases "lzw_write lz z p")
    with True lz z w2 have "feed_aes (w\<lparr>w_md5 := w_md5 w @ p, w_lz4W := Some z'\<rparr>) b = (w2, None)" by simp
    from feed_aes_accepted [OF this _ acc] True z a obtain a' where
      w2': "w2 = w\<lparr>w_md5 := w_md5 w @ p, w_lz4W := Some z', w_aes := Some a'\<rparr>"
      and a': "aes_accepted (payload_cipher sk) (written out @ leading_stream m) a' (x @ b)" by auto
    have "lz_run lz (lzw_new lz) (bs @ [p]) = (z', x @ b)" by (simp add: lz_run_append z b)
    with w p a' True show ?thesis unfolding writer_wrote_def w2'
      by (auto intro!: exI [of _ m] exI [of _ sk])
  next
    case False
    with lz w2 have "feed_aes (w\<lparr>w_md5 := w_md5 w @ p\<rparr>) p = (w2, None)" by simp
    from feed_aes_accepted [OF this _ acc] False a obtain a' where
      w2': "w2 = w\<lparr>w_md5 := w_md5 w @ p, w_aes := Some a'\<rparr>"
      and a': "aes_accepted (payload_cipher sk) (written out @ leading_stream m) a' (concat bs @ p)" by auto
    with w p False lz show ?thesis unfolding writer_wrote_def w2'
      by (auto intro!: exI [of _ m] exI [of _ sk])
  qed
qed

interpretation writer: io_writer "writer_Write lz" "writer_accepted lz crand out opts" for lz crand out opts
proof
  fix w d p w'
  assume "writer_accepted lz crand out opts w d" and wr: "writer_Write lz w p = (w', None)"
  then obtain bs where bs: "concat bs = d" "writer_wrote lz crand out opts w bs" by (auto simp: writer_accepted_def)
  have "concat (bs @ [p]) = d @ p" by (simp add: bs(1))
  with writer_Write_wrote [OF bs(2) wr] show "writer_accepted lz crand out opts w' (d @ p)"
    unfolding writer_accepted_def by blast
qed

lemma copy_chunks_wrote:
  "writer_wrote lz crand out opts w bs \<Longrightarrow> copy_chunks (writer_Write lz) w cs = (w', None) \<Longrightarrow>
     writer_wrote lz crand out opts w' (bs @ cs)"
proof (induction cs arbitrary: w bs)
  case (Cons c cs)
  from Cons.prems(2) obtain v where v: "writer_Write lz w c = (v, None)"
    "copy_chunks (writer_Write lz) v cs = (w', None)" by (auto split: prod.splits option.splits)
  from Cons.IH [OF writer_Write_wrote [OF Cons.prems(1) v(1)] v(2)] show ?case by simp
qed simp

section \<open>Close\<close>

text \<open>The whole stream: header, data dicts carrying the ciphertext of the padded payload, digest.\<close>

definition ciphertext :: "bytes \<Rightarrow> bytes \<Rightarrow> bytes" where
  "ciphertext sk pl = snd (cbc_crypt_encrypt (payload_cipher sk) (pkcs7Pad pl 16))"

definition chunk_ok :: "bytes \<Rightarrow> bool" where
  "chunk_ok c \<longleftrightarrow> c \<noteq> [] \<and> 16 dvd length c \<and> length c \<le> dataChunkSize"

definition chunking :: "bytes list \<Rightarrow> bool" where
  "chunking cs \<longleftrightarrow> (\<forall>c \<in> set (butlast cs). length c = dataChunkSize) \<and> (\<forall>c \<in> set cs. chunk_ok c)"

text \<open>The chunks are determined by the ciphertext.\<close>

lemma chunking_Cons:
  "chunking (c # cs) \<longleftrightarrow> chunk_ok c \<and> (cs = [] \<or> length c = dataChunkSize) \<and> chunking cs"
  by (cases cs) (auto simp: chunking_def)

lemma chunk_ok_not_Nil: "chunk_ok c \<Longrightarrow> c \<noteq> []"
  by (simp add: chunk_ok_def)

lemma chunking_unique: "chunking cs \<Longrightarrow> chunking ds \<Longrightarrow> concat cs = concat ds \<Longrightarrow> cs = ds"
proof (induction cs arbitrary: ds)
  case Nil
  then show ?case by (cases ds) (auto simp: chunking_Cons chunk_ok_def)
next
  case (Cons c cs)
  then obtain d ds' where ds: "ds = d # ds'" by (cases ds) (auto simp: chunking_Cons chunk_ok_def)
  have c: "chunk_ok c" "cs = [] \<or> length c = dataChunkSize" "chunking cs"
    and d: "chunk_ok d" "ds' = [] \<or> length d = dataChunkSize" "chunking ds'"
    using Cons.prems(1,2) by (simp_all add: chunking_Cons ds)
  have eq: "c @ concat cs = d @ concat ds'" using Cons.prems(3) by (simp add: ds)
  then have l: "length c + length (concat cs) = length d + length (concat ds')"
    by (metis length_append)
  have "length c = length d"
    using c(1,2) d(1,2) l by (auto simp: chunk_ok_def)
  with eq have "c = d" "concat cs = concat ds'" by simp_all
  with Cons.IH [OF c(3) d(3)] show ?case by (simp add: ds)
qed

definition csenc_stream :: "leadingMetadata \<Rightarrow> bytes list \<Rightarrow> bytes \<Rightarrow> bytes" where
  "csenc_stream m cs d =
     leading_stream m @ data_stream cs @ enc_value (VDict (final_members (hex_encode (md5 d))))"

lemma length_ciphertext: "length (ciphertext sk pl) = length (pkcs7Pad pl 16)"
  using cbc_crypt_encrypt_ok [OF payload_cipher_ok pkcs7Pad_aligned, of sk pl]
  by (cases "cbc_crypt_encrypt (payload_cipher sk) (pkcs7Pad pl 16)") (simp add: ciphertext_def)

lemma dvd_length_concat: "\<forall>c \<in> set cs. n dvd length c \<Longrightarrow> n dvd length (concat cs)"
  by (induction cs) simp_all

lemma chunks_aligned:
  assumes "16 dvd length (concat cs)" and "\<forall>c \<in> set (butlast cs). length c = dataChunkSize"
    and "\<forall>c \<in> set cs. c \<noteq> [] \<and> length c \<le> dataChunkSize"
  shows "\<forall>c \<in> set cs. chunk_ok c"
proof (cases "cs = []")
  case False
  then have cs: "cs = butlast cs @ [last cs]" by simp
  have b: "\<forall>c \<in> set (butlast cs). 16 dvd length c" using assms(2) by (simp add: dataChunkSize_def)
  then have "16 dvd length (concat (butlast cs))" by (rule dvd_length_concat)
  moreover have "length (concat cs) = length (concat (butlast cs)) + length (last cs)"
    by (subst cs) simp
  ultimately have "16 dvd length (last cs)" using assms(1) by (simp add: dvd_add_right_iff)
  with b have "\<forall>c \<in> set (butlast cs @ [last cs]). 16 dvd length c" by simp
  with assms(3) cs show ?thesis by (simp add: chunk_ok_def)
qed simp

lemma lz_frame_run: "lz_frame lz bs = snd (lz_run lz (lzw_new lz) bs) @ lzw_close lz (fst (lz_run lz (lzw_new lz) bs))"
  by (simp add: lz_frame_def split: prod.splits)

lemma close_steps_None:
  "close_steps (f # fs) w = (w', None) \<longleftrightarrow> (\<exists>v. f w = (v, None) \<and> close_steps fs v = (w', None))"
  by (auto split: prod.splits option.splits)

lemma writer_Close_stream:
  assumes "writer_wrote lz crand out opts w bs" and "writer_Close lz w = (w', None)"
  shows "\<exists>m sk cs. prepared crand opts m sk \<and>
    concat cs = ciphertext sk (payload lz opts bs) \<and> chunking cs \<and>
    written (writer_out w') = written out @ csenc_stream m cs (concat bs)"
proof -
  let ?w = "w\<lparr>w_closed := True\<rparr>"
  have "\<not> w_closed w" "w_failed w = None" using assms(1) by (simp_all add: writer_wrote_def)
  with assms(2) obtain w1 w2 w3 w4 where
    w1: "(if w_started w then (?w, None) else writer_start lz ?w) = (w1, None)"
    and w2: "close_lz lz w1 = (w2, None)" and w3: "finish_aes w2 = (w3, None)"
    and w4: "flush_sink w3 = (w4, None)" and w5: "write_final w4 = (w', None)"
    by (auto simp: writer_Close_def Let_def close_steps_None simp del: close_steps.simps(2)
        split: if_splits)
  obtain v where v: "(if w_started w then (w, None) else writer_start lz w) = (v, None)"
    and w1v: "w1 = v\<lparr>w_closed := True\<rparr>"
  proof (cases "w_started w")
    case True
    with w1 that show ?thesis by simp
  next
    case False
    with w1 that show ?thesis
      by (auto simp: writer_start_def Let_def split: sum.splits prod.splits option.splits)
  qed
  from writer_started_wrote [OF assms(1) v] have st: "writer_wrote lz crand out opts v bs" "w_started v"
    by simp_all
  from writer_wroteD(1) [OF st] obtain m sk a where
    p: "prepared crand opts m sk" and a: "w_aes v = Some a"
    and lz: "w_lz4W v = (if compressOn opts then Some (fst (lz_run lz (lzw_new lz) bs)) else None)"
    and acc: "aes_accepted (payload_cipher sk) (written out @ leading_stream m) a
          (if compressOn opts then snd (lz_run lz (lzw_new lz) bs) else concat bs)" by blast
  have "\<exists>a2. w2 = v\<lparr>w_closed := True, w_aes := Some a2\<rparr> \<and>
    aes_accepted (payload_cipher sk) (written out @ leading_stream m) a2 (payload lz opts bs)"
  proof (cases "compressOn opts")
    case True
    with w2 lz have "feed_aes (v\<lparr>w_closed := True\<rparr>)
        (lzw_close lz (fst (lz_run lz (lzw_new lz) bs))) = (w2, None)"
      by (simp add: close_lz_def w1v)
    from feed_aes_accepted [OF this _ acc] a True show ?thesis
      by (auto simp: payload_def lz_frame_run)
  next
    case False
    with w2 lz have "w2 = v\<lparr>w_closed := True\<rparr>" by (simp add: close_lz_def w1v)
    with False a acc show ?thesis by (auto simp: payload_def intro!: exI [of _ a])
  qed
  then obtain a2 where w2': "w2 = v\<lparr>w_closed := True, w_aes := Some a2\<rparr>"
    and a2: "aes_accepted (payload_cipher sk) (written out @ leading_stream m) a2 (payload lz opts bs)"
    by blast
  from w3 w2' obtain a3 where a3: "aes_finish a2 = (a3, None)"
    and w3': "w3 = v\<lparr>w_closed := True, w_aes := Some a3\<rparr>"
    by (auto simp: finish_aes_def split: prod.splits)
  from w4 w3' obtain s4 where s4: "pending_flush (af_sink a3) = (s4, None)"
    and w4': "w4 = v\<lparr>w_closed := True, w_aes := Some (a3\<lparr>af_sink := s4\<rparr>)\<rparr>"
    by (auto simp: flush_sink_def split: prod.splits)
  from pending_flush_ok [OF aes_finish_ok [OF a2 a3] s4, folded ciphertext_def] obtain cs where
    cs: "written (ps_out s4) = written out @ leading_stream m @ data_stream cs"
    "concat cs = ciphertext sk (payload lz opts bs)"
    "\<forall>c \<in> set (butlast cs). length c = dataChunkSize"
    "\<forall>c \<in> set cs. c \<noteq> [] \<and> length c \<le> dataChunkSize" by auto
  from w5 w4' obtain o5 where "writeFinalMetadata (ps_out s4) (hex_encode (md5 (concat bs))) = (o5, None)"
    and "writer_out w' = o5"
    using writer_wroteD(6) [OF st]
    by (auto simp: write_final_def set_out_def writer_out_def split: prod.splits)
  with cs(1) writeFinalMetadata_ok have "written (writer_out w') = written out @ csenc_stream m cs (concat bs)"
    by (auto simp: csenc_stream_def)
  moreover have "chunking cs"
    using cs unfolding chunking_def by (intro conjI chunks_aligned) (simp_all add: length_ciphertext pkcs7Pad_aligned)
  ultimately show ?thesis using p cs(2) by blast
qed

lemma NewWriter_wrote: "NewWriter crand out opts = Inr w \<Longrightarrow> writer_wrote lz crand out opts w []"
  by (auto simp: NewWriter_def writer_wrote_def split: if_splits)

lemma concat_nonempty: "concat (filter (\<lambda>c. c \<noteq> []) cs) = concat cs"
  by (induction cs) simp_all

lemma Encrypt_stream:
  assumes "Encrypt lz crand chunks inEnd out opts = (out', None)"
  shows "\<exists>m sk cs. prepared crand opts m sk \<and>
    concat cs = ciphertext sk (payload lz opts (filter (\<lambda>c. c \<noteq> []) chunks)) \<and> chunking cs \<and>
    written out' = written out @ csenc_stream m cs (concat chunks)"
    and "inEnd = ErrEOF" and "ePassword opts \<noteq> [] \<or> ePublicKey opts \<noteq> None"
    and "opt_major opts = 1 \<or> opt_major opts = 3"
proof -
  from assms obtain w w1 w2 where w: "NewWriter crand out opts = Inr w"
    and w1: "copy_chunks (writer_Write lz) w (filter (\<lambda>c. c \<noteq> []) chunks) = (w1, None)"
    and e: "inEnd = ErrEOF" and w2: "writer_Close lz w1 = (w2, None)" and o: "out' = writer_out w2"
    by (auto simp: Encrypt_def split: sum.splits prod.splits option.splits if_splits)
  from copy_chunks_wrote [OF NewWriter_wrote [OF w] w1]
  have "writer_wrote lz crand out opts w1 (filter (\<lambda>c. c \<noteq> []) chunks)" by simp
  from writer_Close_stream [OF this w2] show "\<exists>m sk cs. prepared crand opts m sk \<and>
    concat cs = ciphertext sk (payload lz opts (filter (\<lambda>c. c \<noteq> []) chunks)) \<and> chunking cs \<and>
    written out' = written out @ csenc_stream m cs (concat chunks)" by (simp add: o concat_nonempty)
  from e show "inEnd = ErrEOF" .
  from w show "ePassword opts \<noteq> [] \<or> ePublicKey opts \<noteq> None" "opt_major opts = 1 \<or> opt_major opts = 3"
    by (auto simp: NewWriter_def split: if_splits)
qed

text \<open>Every step of \<open>Close\<close> leaves \<open>closed\<close> and \<open>failed\<close> alone; only \<open>close_steps\<close> itself records the error.\<close>

definition keeps_status :: "('e writer \<Rightarrow> 'e writer \<times> error option) \<Rightarrow> bool" where
  "keeps_status f \<longleftrightarrow> (\<forall>w. w_closed (fst (f w)) = w_closed w \<and> w_failed (fst (f w)) = w_failed w)"

lemma keeps_status_steps:
  "keeps_status (\<lambda>w. if w_started w then (w, None) else writer_start lz w)"
  "keeps_status (close_lz lz)" "keeps_status finish_aes" "keeps_status flush_sink" "keeps_status write_final"
  by (auto simp: keeps_status_def writer_start_def close_lz_def feed_aes_def finish_aes_def flush_sink_def
      write_final_def set_out_def Let_def split: sum.splits prod.splits option.splits)

lemma close_steps_status:
  "list_all keeps_status fs \<Longrightarrow> close_steps fs w = (w', r) \<Longrightarrow> w_failed w = None \<Longrightarrow>
     w_closed w' = w_closed w \<and> w_failed w' = r"
proof (induction fs arbitrary: w)
  case (Cons f fs)
  obtain v q where v: "f w = (v, q)" by (cases "f w")
  from Cons.prems(1) have "w_closed (fst (f w)) = w_closed w \<and> w_failed (fst (f w)) = w_failed w"
    by (simp add: keeps_status_def)
  with v have k: "w_closed v = w_closed w" "w_failed v = w_failed w" by simp_all
  show ?case
  proof (cases q)
    case None
    with Cons.prems v have "close_steps fs v = (w', r)" by simp
    with Cons k show ?thesis by simp
  next
    case (Some e)
    with Cons.prems v k show ?thesis by auto
  qed
qed simp

lemma writer_Close_closed: "writer_Close lz w = (w', r) \<Longrightarrow> w_closed w' \<and> r = w_failed w'"
  by (auto simp: writer_Close_def Let_def simp del: close_steps.simps split: if_splits
      dest!: close_steps_status [rotated] simp: keeps_status_steps)

section \<open>When a run succeeds\<close>

text \<open>A writer that can go on: nothing failed, and \<open>out\<close> takes everything.\<close>

definition writer_room :: "'e writer \<Rightarrow> bool" where
  "writer_room w \<longleftrightarrow> \<not> w_closed w \<and> w_failed w = None \<and>
     (if w_started w then \<exists>a. w_aes w = Some a \<and> aes_room a
      else w_aes w = None \<and> room (w_out w) = None \<and> (\<exists>m sk. prepared (w_crand w) (w_opts w) m sk))"

lemma writer_start_room:
  assumes "room (w_out w) = None" and "prepared (w_crand w) (w_opts w) m sk"
  shows "\<exists>w' a. writer_start lz w = (w', None) \<and> w_started w' \<and> w_aes w' = Some a \<and> aes_room a \<and>
    w_closed w' = w_closed w \<and> w_failed w' = w_failed w"
proof -
  from writeMagic_succeeds [OF assms(1)] obtain o1 where o1: "writeMagic (w_out w) = (o1, None)"
    "room o1 = None" by blast
  from writeLeadingMetadata_succeeds [OF o1(2), of m] assms(2) obtain o2 where
    o2: "writeLeadingMetadata o1 m = (o2, None)" "room o2 = None" by (auto simp: prepared_def)
  from newFeeder_ok [of sk o2] o2(2) obtain a where "newFeeder sk o2 = Inr a" "aes_room a" by auto
  with o1 o2 assms(2) show ?thesis by (simp add: writer_start_def prepared_def)
qed

lemma writer_started_room:
  assumes "writer_room w"
  shows "\<exists>w' a. (if w_started w then (w, None) else writer_start lz w) = (w', None) \<and> w_started w' \<and>
    w_aes w' = Some a \<and> aes_room a \<and> \<not> w_closed w' \<and> w_failed w' = None"
  using assms writer_start_room [of w _ _ lz] by (auto simp: writer_room_def split: if_splits)

lemma writer_Write_room:
  assumes "writer_room w"
  shows "\<exists>w'. writer_Write lz w p = (w', None) \<and> writer_room w' \<and> w_started w'"
proof -
  from writer_started_room [OF assms, of lz] obtain v a where
    v: "(if w_started w then (w, None) else writer_start lz w) = (v, None)" "w_started v"
      "w_aes v = Some a" "aes_room a" "\<not> w_closed v" "w_failed v = None" by blast
  have "\<not> w_closed w" "w_failed w = None" using assms by (simp_all add: writer_room_def)
  moreover have "\<exists>w'. feed_aes u b = (w', None) \<and> writer_room w' \<and> w_started w'"
    if "w_aes u = Some a" "\<not> w_closed u" "w_failed u = None" "w_started u" for u b
    using aes_Write_room [OF v(4), of b] that by (auto simp: feed_aes_def writer_room_def)
  moreover note this [of "v\<lparr>w_md5 := w_md5 v @ p\<rparr>" p]
    this [of "v\<lparr>w_md5 := w_md5 v @ p, w_lz4W := Some (fst (lzw_write lz z p))\<rparr>" "snd (lzw_write lz z p)" for z]
  ultimately show ?thesis
    using v(2-) unfolding writer_Write_def
    by (cases "w_lz4W v") (simp_all add: v(1) Let_def prod.case_eq_if)
qed

lemma copy_room:
  "writer_room w \<Longrightarrow> \<exists>w'. copy_chunks (writer_Write lz) w cs = (w', None) \<and> writer_room w'"
proof (induction cs arbitrary: w)
  case (Cons c cs)
  from writer_Write_room [OF Cons.prems, of lz c] obtain v where
    "writer_Write lz w c = (v, None)" "writer_room v" by blast
  with Cons.IH [of v] show ?case by simp
qed simp

lemma writer_Close_room:
  assumes "writer_room w"
  shows "\<exists>w'. writer_Close lz w = (w', None)"
proof -
  let ?w = "w\<lparr>w_closed := True\<rparr>"
  have c: "\<not> w_closed w" "w_failed w = None" using assms by (simp_all add: writer_room_def)
  have "\<exists>v a. (if w_started ?w then (?w, None) else writer_start lz ?w) = (v, None) \<and>
      w_aes v = Some a \<and> aes_room a"
  proof (cases "w_started w")
    case False
    with assms obtain m sk where "room (w_out ?w) = None" "prepared (w_crand ?w) (w_opts ?w) m sk"
      by (auto simp: writer_room_def)
    from writer_start_room [OF this, of lz] False show ?thesis by auto
  qed (use assms in \<open>simp add: writer_room_def\<close>)
  then obtain w1 a1 where w1: "(if w_started ?w then (?w, None) else writer_start lz ?w) = (w1, None)"
    "w_aes w1 = Some a1" "aes_room a1" by blast
  obtain w2 a2 where w2: "close_lz lz w1 = (w2, None)" "w_aes w2 = Some a2" "aes_room a2"
  proof (cases "w_lz4W w1")
    case None
    with w1 that show ?thesis by (simp add: close_lz_def)
  next
    case (Some z)
    with w1 aes_Write_room [OF w1(3), of "lzw_close lz z"] that show ?thesis
      by (auto simp: close_lz_def feed_aes_def)
  qed
  from aes_finish_room [OF w2(3)] obtain a3 where a3: "aes_finish a2 = (a3, None)" "aes_room a3" by blast
  with w2 have w3: "finish_aes w2 = (w2\<lparr>w_aes := Some a3\<rparr>, None)" by (simp add: finish_aes_def)
  from a3(2) have "length (ps_buf (af_sink a3)) \<le> 65535" "room (ps_out (af_sink a3)) = None"
    by (simp_all add: aes_room_def dataChunkSize_def)
  with pending_flush_room obtain s4 where s4: "pending_flush (af_sink a3) = (s4, None)" "room (ps_out s4) = None"
    by blast
  then have w4: "flush_sink (w2\<lparr>w_aes := Some a3\<rparr>) = (w2\<lparr>w_aes := Some (a3\<lparr>af_sink := s4\<rparr>)\<rparr>, None)"
    by (simp add: flush_sink_def)
  have "\<exists>w5. write_final (w2\<lparr>w_aes := Some (a3\<lparr>af_sink := s4\<rparr>)\<rparr>) = (w5, None)"
    using writeFinalMetadata_succeeds [OF s4(2), of "hex_encode (md5 (w_md5 w2))"]
    by (auto simp: write_final_def writer_out_def md5.length_hex_H)
  with w1(1) w2(1) w3 w4 c show ?thesis by (auto simp: writer_Close_def)
qed

lemma Encrypt_succeeds:
  fixes lz :: "'e lz_writer"
  assumes "ePassword opts \<noteq> [] \<or> ePublicKey opts \<noteq> None" and "opt_major opts = 1 \<or> opt_major opts = 3"
    and "room out = None" and "prepared crand opts m sk"
  shows "\<exists>out'. Encrypt lz crand chunks ErrEOF out opts = (out', None)"
proof -
  from assms(1,2) obtain w :: "'e writer" where w: "NewWriter crand out opts = Inr w" by (auto simp: NewWriter_def)
  with assms(3,4) have "writer_room w"
    by (auto simp: NewWriter_def writer_room_def split: if_splits intro!: exI [of _ m] exI [of _ sk])
  from copy_room [OF this, of lz] obtain w1 where
    w1: "copy_chunks (writer_Write lz) w (filter (\<lambda>c. c \<noteq> []) chunks) = (w1, None)" "writer_room w1"
    by blast
  from writer_Close_room [OF w1(2), of lz] obtain w2 where "writer_Close lz w1 = (w2, None)" by blast
  with w w1 show ?thesis by (simp add: Encrypt_def)
qed

end
