(* ===== verification/Metadata.thy ===== *)
theory Metadata
  imports WireEncoder Magic
begin

text \<open>
  \<open>decrypt.go\<close>: the \<open>Metadata\<close> record, \<open>absorb\<close> with its base64 fields, \<open>checkModes\<close> and \<open>Inspect\<close>.
  A method on \<open>*Metadata\<close> takes and returns the record; what \<open>opt.logf\<close> receives is a list of \<open>log_line\<close>
  beside it. The fields \<open>EncKey1\<close> and \<open>EncKey2\<close>, which the decoder compares with \<open>nil\<close>, are options.
\<close>

section \<open>The record\<close>

record Metadata =
  mMajor :: int64
  mMinor :: int64
  mSalt :: bytes
  mDigest :: string
  mEncKey1 :: "bytes option"
  mEncKey2 :: "bytes option"
  mKey1Hash :: string
  mSessionKeyHash :: string
  mPlaintextMD5 :: string
  mFilename :: string
  mCompress :: int64
  mEncrypt :: int64

datatype log_line =
    LogUnrecognized string
  | LogDigest string

definition newMetadata :: Metadata where
  "newMetadata =
     \<lparr>mMajor = 0, mMinor = 0, mSalt = [], mDigest = [], mEncKey1 = None, mEncKey2 = None, mKey1Hash = [],
      mSessionKeyHash = [], mPlaintextMD5 = [], mFilename = [], mCompress = 1, mEncrypt = 1\<rparr>"

fun decodeB64 :: "wvalue \<Rightarrow> error + bytes" where
  "decodeB64 (VString s) = b64_decode s"
| "decodeB64 (VBytes b) = b64_decode (string_of_bytes b)"
| "decodeB64 v = Inl (ErrB64Kind (kind_num v))"

text \<open>\<open>as_str\<close> and \<open>as_int\<close>: a field is set only where the value has the kind the code tests for.\<close>

fun as_str :: "wvalue \<Rightarrow> (string \<Rightarrow> 'm \<Rightarrow> 'm) \<Rightarrow> 'm \<Rightarrow> 'm" where
  "as_str (VString s) upd m = upd s m"
| "as_str v upd m = m"

fun as_int :: "wvalue \<Rightarrow> (int64 \<Rightarrow> 'm \<Rightarrow> 'm) \<Rightarrow> 'm \<Rightarrow> 'm" where
  "as_int (VInt n) upd m = upd (big_int64 n) m"
| "as_int v upd m = m"

definition absorb_version :: "wvalue \<Rightarrow> Metadata \<Rightarrow> Metadata" where
  "absorb_version v m =
     (let m1 = (case Lookup v ''major'' of Some maj \<Rightarrow> as_int maj (\<lambda>n m. m\<lparr>mMajor := n\<rparr>) m | None \<Rightarrow> m)
      in case Lookup v ''minor'' of Some mnr \<Rightarrow> as_int mnr (\<lambda>n m. m\<lparr>mMinor := n\<rparr>) m1 | None \<Rightarrow> m1)"

definition absorb :: "string \<Rightarrow> wvalue \<Rightarrow> Metadata \<Rightarrow> Metadata \<times> log_line list \<times> error option" where
  "absorb k v m =
     (if k = ''version'' then (absorb_version v m, [], None)
      else if k = ''salt'' then (as_str v (\<lambda>s m. m\<lparr>mSalt := bytes_of_string s\<rparr>) m, [], None)
      else if k = ''digest'' then (as_str v (\<lambda>s m. m\<lparr>mDigest := s\<rparr>) m, [], None)
      else if k = ''enc_key1'' then
        (case decodeB64 v of
           Inl e \<Rightarrow> (m, [], Some (ErrEncKey1 e))
         | Inr b \<Rightarrow> (m\<lparr>mEncKey1 := Some b\<rparr>, [], None))
      else if k = ''enc_key2'' then
        (case decodeB64 v of
           Inl e \<Rightarrow> (m, [], Some (ErrEncKey2 e))
         | Inr b \<Rightarrow> (m\<lparr>mEncKey2 := Some b\<rparr>, [], None))
      else if k = ''key1_hash'' then (as_str v (\<lambda>s m. m\<lparr>mKey1Hash := s\<rparr>) m, [], None)
      else if k = ''session_key_hash'' then (as_str v (\<lambda>s m. m\<lparr>mSessionKeyHash := s\<rparr>) m, [], None)
      else if k = ''file_md5'' then (as_str v (\<lambda>s m. m\<lparr>mPlaintextMD5 := s\<rparr>) m, [], None)
      else if k = ''file_name'' then (as_str v (\<lambda>s m. m\<lparr>mFilename := s\<rparr>) m, [], None)
      else if k = ''compress'' then (as_int v (\<lambda>n m. m\<lparr>mCompress := n\<rparr>) m, [], None)
      else if k = ''encrypt'' then (as_int v (\<lambda>n m. m\<lparr>mEncrypt := n\<rparr>) m, [], None)
      else if k = ''key2_hash'' then (m, [], None)
      else (m, [LogUnrecognized k], None))"

text \<open>The loop over a metadata dict: keys that are not strings and \<open>type\<close> are skipped.\<close>

fun absorb_members :: "wpair list \<Rightarrow> Metadata \<Rightarrow> Metadata \<times> log_line list \<times> error option" where
  "absorb_members [] m = (m, [], None)"
| "absorb_members (WPair (VString k) v # ms) m =
     (if k = ''type'' then absorb_members ms m
      else
        (case absorb k v m of
           (m', l, Some e) \<Rightarrow> (m', l, Some e)
         | (m', l, None) \<Rightarrow> (case absorb_members ms m' of (m'', l', r) \<Rightarrow> (m'', l @ l', r))))"
| "absorb_members (WPair k v # ms) m = absorb_members ms m"

definition checkModes :: "Metadata \<Rightarrow> error option" where
  "checkModes m =
     (if mEncrypt m \<noteq> 1 then Some (ErrEncryptMode (mEncrypt m))
      else if mCompress m \<noteq> 0 \<and> mCompress m \<noteq> 1 then Some (ErrCompressMode (mCompress m))
      else None)"

section \<open>Inspect\<close>

function inspect_loop :: "Metadata \<Rightarrow> reader \<Rightarrow> error + Metadata" where
  "inspect_loop m r =
     (case Next r of
        Inl e \<Rightarrow> Inl e
      | Inr None \<Rightarrow> Inr m
      | Inr (Some (obj, r')) \<Rightarrow>
          (case obj of
             VDict ms \<Rightarrow>
               (case Lookup obj ''type'' of
                  Some (VString typ) \<Rightarrow>
                    if typ = ''metadata'' then
                      (case absorb_members ms m of
                         (m', l, Some e) \<Rightarrow> Inl e
                       | (m', l, None) \<Rightarrow> inspect_loop m' r')
                    else if typ = ''data'' then Inr m
                    else Inl (ErrUnknownTopLevelType typ)
                | _ \<Rightarrow> Inl ErrMissingType)
           | _ \<Rightarrow> Inl ErrInspectNotDict))"
  by pat_completeness auto
termination
  by (relation "measure (\<lambda>(m, r). length (rest r))") (auto dest: Next_shorter)

declare inspect_loop.simps [simp del]

definition Inspect :: "reader \<Rightarrow> error + Metadata" where
  "Inspect r = (case consumeMagic r of Inl e \<Rightarrow> Inl e | Inr r' \<Rightarrow> inspect_loop newMetadata r')"

section \<open>Lemmas\<close>

lemma absorb_members_append:
  "absorb_members (xs @ ys) m =
     (case absorb_members xs m of
        (m', l, Some e) \<Rightarrow> (m', l, Some e)
      | (m', l, None) \<Rightarrow> (case absorb_members ys m' of (m'', l', r) \<Rightarrow> (m'', l @ l', r)))"
  by (induction xs m rule: absorb_members.induct) (auto split: prod.splits option.splits)

lemma absorb_members_if:
  "absorb_members (if c then xs else []) m = (if c then absorb_members xs m else (m, [], None))"
  by simp

lemma checkModes_None: "checkModes m = None \<longleftrightarrow> mEncrypt m = 1 \<and> (mCompress m = 0 \<or> mCompress m = 1)"
  by (simp add: checkModes_def)

text \<open>What the reader's record holds after the writer's dicts.\<close>

definition none_if_nil :: "bytes \<Rightarrow> bytes option" where
  "none_if_nil b = (if b = [] then None else Some b)"

definition metadata_of :: "leadingMetadata \<Rightarrow> Metadata" where
  "metadata_of m =
     \<lparr>mMajor = lmajor m, mMinor = lminor m, mSalt = lsalt m, mDigest = ''md5'',
      mEncKey1 = none_if_nil (lencKey1 m), mEncKey2 = none_if_nil (lencKey2 m),
      mKey1Hash = lkey1Hash m, mSessionKeyHash = lsessKeyHash m, mPlaintextMD5 = [],
      mFilename = lfilename m, mCompress = lcompress m, mEncrypt = lencrypt m\<rparr>"

lemma absorb_leading_members:
  "absorb_members (leading_members m) newMetadata = (metadata_of m, [], None)"
  by (cases "lsalt m = []"; cases "lencKey1 m = []"; cases "lencKey2 m = []"; cases "lkey1Hash m = []";
      cases "lfilename m = []")
    (simp_all add: leading_members_def newMetadata_def metadata_of_def none_if_nil_def absorb_def
      absorb_version_def Let_def)

lemma absorb_final_members:
  "absorb_members (final_members h) m = (m\<lparr>mPlaintextMD5 := h\<rparr>, [], None)"
  by (simp add: final_members_def absorb_def)

lemma lookup_written [simp]:
  "lookup_members (leading_members m) ''type'' = Some (VString ''metadata'')"
  "lookup_members (data_members c) ''type'' = Some (VString ''data'')"
  "lookup_members (data_members c) ''data'' = Some (VBytes c)"
  "lookup_members (final_members h) ''type'' = Some (VString ''metadata'')"
  by (simp_all add: leading_members_def data_members_def final_members_def)

end
