(* ===== verification/SessionKey.thy ===== *)
theory SessionKey
  imports WriterCorrect Metadata
begin

text \<open>
  \<open>recoverSessionKey\<close> of \<open>decrypt.go\<close>, and the fact that it inverts step 1 to 4 of \<open>Writer.start\<close>
  (\<open>prepareHeader\<close>) on both recovery paths: the password that wrapped \<open>enc_key1\<close>, the private key that
  belongs to the public key that wrapped \<open>enc_key2\<close>.
\<close>

section \<open>recoverSessionKey\<close>

text \<open>The first branch of the switch: \<open>enc_key1\<close> with the password.\<close>

definition unwrapPassword :: "bytes \<Rightarrow> bytes \<Rightarrow> bytes \<Rightarrow> string \<Rightarrow> error + bytes" where
  "unwrapPassword password encKey1 salt key1Hash =
     (case verifyKeyHash key1Hash password ''password'' of
        Some e \<Rightarrow> Inl e
      | None \<Rightarrow>
          let iters = (if 0 < length salt then 1000 else 1);
              (key, iv) = evpKDF password salt iters 32 16
          in case aes_new_cipher key of
               Inl e \<Rightarrow> Inl e
             | Inr block \<Rightarrow>
                 if encKey1 = [] \<or> length encKey1 mod 16 \<noteq> 0 then Inl (ErrEncKey1Align (length encKey1))
                 else
                   (case unpadPKCS7 (snd (cbc_crypt_decrypt (new_cbc block iv) encKey1)) of
                      Inl e \<Rightarrow> Inl (ErrEncKey1Padding e)
                    | Inr unpadded \<Rightarrow> Inr unpadded))"

text \<open>The second branch: \<open>enc_key2\<close> with the private key.\<close>

definition unwrapPrivateKey :: "rsa_private \<Rightarrow> bytes \<Rightarrow> error + bytes" where
  "unwrapPrivateKey priv encKey2 =
     (case DecryptOAEP priv encKey2 of Inl e \<Rightarrow> Inl (ErrRsaOaep e) | Inr pt \<Rightarrow> Inr pt)"

text \<open>The switch: a password takes precedence where the stream has an \<open>enc_key1\<close>.\<close>

definition unwrapKey ::
    "bytes option \<Rightarrow> rsa_private option \<Rightarrow> bytes option \<Rightarrow> bytes option \<Rightarrow> bytes \<Rightarrow> string \<Rightarrow>
     error + bytes" where
  "unwrapKey password privateKey encKey1 encKey2 salt key1Hash =
     (case (password, encKey1) of
        (Some pw, Some k1) \<Rightarrow> unwrapPassword pw k1 salt key1Hash
      | _ \<Rightarrow>
          (case (privateKey, encKey2) of
             (Some priv, Some k2) \<Rightarrow> unwrapPrivateKey priv k2
           | _ \<Rightarrow> Inl ErrNoRecoverySecret))"

definition recoverSessionKey ::
    "bytes option \<Rightarrow> rsa_private option \<Rightarrow> bytes option \<Rightarrow> bytes option \<Rightarrow> bytes \<Rightarrow> string \<Rightarrow> string \<Rightarrow>
     int64 \<Rightarrow> error + bytes" where
  "recoverSessionKey password privateKey encKey1 encKey2 salt key1Hash sessKeyHash majorVer =
     (case unwrapKey password privateKey encKey1 encKey2 salt key1Hash of
        Inl e \<Rightarrow> Inl e
      | Inr sk \<Rightarrow>
          (case verifyKeyHash sessKeyHash sk ''session_key'' of
             Some e \<Rightarrow> Inl e
           | None \<Rightarrow>
               if 0 < length salt then
                 (case hex_decode (string_of_bytes sk) of
                    Inl e \<Rightarrow> Inl (ErrSessionKeyHex majorVer e)
                  | Inr decoded \<Rightarrow> Inr decoded)
               else Inr sk))"

section \<open>What the writer prepared\<close>

definition wire_key :: "int64 \<Rightarrow> bytes \<Rightarrow> bytes" where
  "wire_key major sk = (if 3 \<le> sint major then bytes_of_string (hex_encode sk) else sk)"

lemma randomAlnum_InrD:
  assumes "randomAlnum r n = Inr (s, r')"
  shows "length s = n" and "\<forall>b \<in> set s. b \<in> set (bytes_of_string alnum)"
proof -
  have "alnum ! (unat (b :: byte) mod length alnum) \<in> set alnum" for b
    by (intro nth_mem mod_less_divisor) (simp add: alnum_def)
  with assms show "length s = n" "\<forall>b \<in> set s. b \<in> set (bytes_of_string alnum)"
    by (auto simp: randomAlnum_def bytes_of_string_def dest!: read_full_InrD split: sum.splits)
qed

lemma hex_encode_digits: "set (hex_encode bs) \<subseteq> set (map hex_digit [0..<16])"
proof -
  have "hex_digit (unat (b :: byte) div 16) \<in> set (map hex_digit [0..<16])"
    "hex_digit (unat b mod 16) \<in> set (map hex_digit [0..<16])" for b
    using unat_byte_less [of b] by auto
  then show ?thesis by (induction bs) (auto simp: hex_encode_def simp del: upt_Suc)
qed

lemma randomHex_InrD:
  assumes "randomHex r n = Inr (s, r')"
  shows "length s = n" and "\<forall>b \<in> set s. b \<in> set (bytes_of_string (map hex_digit [0..<16]))"
proof -
  from assms obtain raw where raw: "read_full ((n + 1) div 2) r = Inr (raw, r')"
    and s: "s = bytes_of_string (take n (hex_encode raw))"
    by (auto simp: randomHex_def split: sum.splits)
  from read_full_InrD [OF raw] s show "length s = n" by simp
  have "set (take n (hex_encode raw)) \<subseteq> set (map hex_digit [0..<16])"
    using set_take_subset hex_encode_digits by (rule order_trans)
  then show "\<forall>b \<in> set s. b \<in> set (bytes_of_string (map hex_digit [0..<16]))"
    unfolding s bytes_of_string_def set_map by blast
qed

lemma bind_InrE:
  "(case r of Inl e \<Rightarrow> Inl (h e) | Inr (a, b) \<Rightarrow> f a b) = Inr w \<Longrightarrow>
     (\<And>a b. r = Inr (a, b) \<Longrightarrow> f a b = Inr w \<Longrightarrow> P) \<Longrightarrow> P"
  "(case q of Inl e \<Rightarrow> Inl (h e) | Inr v \<Rightarrow> g v) = Inr w \<Longrightarrow> (\<And>v. q = Inr v \<Longrightarrow> g v = Inr w \<Longrightarrow> P) \<Longrightarrow> P"
  by (auto split: sum.splits)

text \<open>The steps of \<open>prepareHeader\<close>, with the entropy each of them leaves to the next.\<close>

lemma prepareHeader_steps:
  assumes "prepareHeader opts rnd = Inr (m, sk)"
  obtains r1 salt r2 k1 k2 r3 h1 r4 h2 r5 where
    "read_full 32 rnd = Inr (sk, r1)" "makeSalt (opt_major opts) r1 = Inr (salt, r2)"
    "wrapPassword (ePassword opts) salt (wire_key (opt_major opts) sk) = Inr k1"
    "wrapPublicKey (ePublicKey opts) (wire_key (opt_major opts) sk) r2 = Inr (k2, r3)"
    "hashPassword (ePassword opts) r3 = Inr (h1, r4)"
    "hashSessionKey (wire_key (opt_major opts) sk) r4 = Inr (h2, r5)"
    "m = \<lparr>lmajor = opt_major opts, lminor = opt_minor opts, lsalt = salt, lencKey1 = k1, lencKey2 = k2,
          lkey1Hash = h1, lsessKeyHash = h2, lcompress = boolAsInt (compressOn opts), lencrypt = 1,
          lfilename = eFilename opts\<rparr>"
proof -
  from assms show thesis
    unfolding prepareHeader_def Let_def wire_key_def [symmetric]
    apply -
    apply (elim bind_InrE)
    apply (simp only: sum.inject prod.inject)
    apply (elim conjE)
    apply hypsubst
    apply (rule that)
    apply assumption+
    done
qed

lemma prepareHeader_InrD:
  assumes "prepareHeader opts rnd = Inr (m, sk)"
  shows "length sk = 32"
    and "lmajor m = opt_major opts" "lminor m = opt_minor opts" "lfilename m = eFilename opts"
    and "lcompress m = boolAsInt (compressOn opts)" "lencrypt m = 1"
    and "if 3 \<le> sint (opt_major opts)
         then length (lsalt m) = 8 \<and> (\<forall>b \<in> set (lsalt m). b \<in> set (bytes_of_string alnum)) else lsalt m = []"
    and "wrapPassword (ePassword opts) (lsalt m) (wire_key (opt_major opts) sk) = Inr (lencKey1 m)"
    and "\<exists>r r'. wrapPublicKey (ePublicKey opts) (wire_key (opt_major opts) sk) r = Inr (lencKey2 m, r')"
    and "if ePassword opts = [] then lkey1Hash m = []
         else \<exists>p. length p = 10 \<and> lkey1Hash m = saltedDigest p (ePassword opts)"
    and "\<exists>p. length p = 10 \<and> lsessKeyHash m = saltedDigest p (wire_key (opt_major opts) sk)"
proof -
  from assms obtain r1 salt r2 k1 k2 r3 h1 r4 h2 r5 where st:
    "read_full 32 rnd = Inr (sk, r1)" "makeSalt (opt_major opts) r1 = Inr (salt, r2)"
    "wrapPassword (ePassword opts) salt (wire_key (opt_major opts) sk) = Inr k1"
    "wrapPublicKey (ePublicKey opts) (wire_key (opt_major opts) sk) r2 = Inr (k2, r3)"
    "hashPassword (ePassword opts) r3 = Inr (h1, r4)"
    "hashSessionKey (wire_key (opt_major opts) sk) r4 = Inr (h2, r5)"
    and m: "m = \<lparr>lmajor = opt_major opts, lminor = opt_minor opts, lsalt = salt, lencKey1 = k1, lencKey2 = k2,
          lkey1Hash = h1, lsessKeyHash = h2, lcompress = boolAsInt (compressOn opts), lencrypt = 1,
          lfilename = eFilename opts\<rparr>" by (rule prepareHeader_steps)
  show "length sk = 32" using read_full_InrD [OF st(1)] by simp
  show "lmajor m = opt_major opts" "lminor m = opt_minor opts" "lfilename m = eFilename opts"
    "lcompress m = boolAsInt (compressOn opts)" "lencrypt m = 1" by (simp_all add: m)
  show "if 3 \<le> sint (opt_major opts)
         then length (lsalt m) = 8 \<and> (\<forall>b \<in> set (lsalt m). b \<in> set (bytes_of_string alnum)) else lsalt m = []"
    using st(2) randomAlnum_InrD [of r1 8 salt r2] by (simp add: makeSalt_def m split: if_splits)
  show "wrapPassword (ePassword opts) (lsalt m) (wire_key (opt_major opts) sk) = Inr (lencKey1 m)"
    "\<exists>r r'. wrapPublicKey (ePublicKey opts) (wire_key (opt_major opts) sk) r = Inr (lencKey2 m, r')"
    using st(3,4) by (auto simp: m)
  show "if ePassword opts = [] then lkey1Hash m = []
         else \<exists>p. length p = 10 \<and> lkey1Hash m = saltedDigest p (ePassword opts)"
    using st(5) by (auto simp: hashPassword_def m dest: randomHex_InrD(1) split: if_splits elim!: bind_InrE)
  show "\<exists>p. length p = 10 \<and> lsessKeyHash m = saltedDigest p (wire_key (opt_major opts) sk)"
    using st(6) by (auto simp: hashSessionKey_def m dest: randomHex_InrD(1) elim!: bind_InrE)
qed

section \<open>Recovery inverts wrapping\<close>

lemma unwrapPassword_wrap:
  assumes "password \<noteq> []" and "wrapPassword password salt key = Inr encKey1"
    and "length p = 10"
  shows "unwrapPassword password encKey1 salt (saltedDigest p password) = Inr key" and "encKey1 \<noteq> []"
proof -
  obtain k iv where kdf: "evpKDF password salt (if salt \<noteq> [] then 1000 else 1) 32 16 = (k, iv)"
    by (cases "evpKDF password salt (if salt \<noteq> [] then 1000 else 1) 32 16")
  then have len: "length k = 32" "length iv = 16" by (auto dest: evpKDF_lengths)
  then have blk: "aes_new_cipher k = Inr k" and ok: "cbc_ok (new_cbc k iv)"
    by (simp_all add: aes_new_cipher_def aes_key_ok_def cbc_ok_def new_cbc_def)
  obtain c' ct where e: "cbc_crypt_encrypt (new_cbc k iv) (pkcs7Pad key 16) = (c', ct)"
    by (cases "cbc_crypt_encrypt (new_cbc k iv) (pkcs7Pad key 16)")
  with assms(1,2) kdf blk have ct: "encKey1 = ct" by (simp add: wrapPassword_def Let_def)
  have l: "length ct = length (pkcs7Pad key 16)"
    using cbc_crypt_encrypt_ok [OF ok pkcs7Pad_aligned e] by simp
  then show "encKey1 \<noteq> []" using ct pkcs7Pad_not_Nil [of key] by fastforce
  moreover have "length encKey1 mod 16 = 0" using l ct pkcs7Pad_aligned [of key] by simp
  moreover have "cbc_crypt_decrypt (new_cbc k iv) ct = (c', pkcs7Pad key 16)"
    using cbc_crypt_decrypt_encrypt [OF ok pkcs7Pad_aligned e] .
  moreover have "(if 0 < length salt then 1000 else 1) = (if salt \<noteq> [] then 1000 else (1 :: int))" by simp
  ultimately show "unwrapPassword password encKey1 salt (saltedDigest p password) = Inr key"
    using assms(3) kdf blk ct
    by (simp add: unwrapPassword_def verifyKeyHash_saltedDigest unpad_pkcs7Pad del: length_greater_0_conv)
qed

lemma unwrapPrivateKey_wrap:
  assumes "rsa_key_pair pk priv" and "wrapPublicKey (Some pk) key rnd = Inr (encKey2, rnd')"
  shows "unwrapPrivateKey priv encKey2 = Inr key" and "encKey2 \<noteq> []"
proof -
  from assms(2) have "EncryptOAEP rnd pk key = Inr (encKey2, rnd')"
    by (auto simp: wrapPublicKey_def split: sum.splits)
  with assms(1) show "unwrapPrivateKey priv encKey2 = Inr key" "encKey2 \<noteq> []"
    by (simp_all add: unwrapPrivateKey_def EncryptOAEP_roundtrip EncryptOAEP_length)
qed

text \<open>
  The secret fits the file: the password (which takes precedence where the file has an \<open>enc_key1\<close>), or
  the private key of the pair when no password can be used.
\<close>

definition secret_fits :: "EncryptOptions \<Rightarrow> bytes option \<Rightarrow> rsa_private option \<Rightarrow> bool" where
  "secret_fits opts password privateKey \<longleftrightarrow>
     (if password \<noteq> None \<and> ePassword opts \<noteq> [] then password = Some (ePassword opts)
      else \<exists>pk priv. ePublicKey opts = Some pk \<and> privateKey = Some priv \<and> rsa_key_pair pk priv)"

definition recoverMeta :: "bytes option \<Rightarrow> rsa_private option \<Rightarrow> Metadata \<Rightarrow> error + bytes" where
  "recoverMeta password privateKey m =
     recoverSessionKey password privateKey (mEncKey1 m) (mEncKey2 m) (mSalt m) (mKey1Hash m)
       (mSessionKeyHash m) (mMajor m)"

lemma recover_prepared:
  assumes p: "prepareHeader opts rnd = Inr (m, sk)"
    and s: "secret_fits opts password privateKey"
  shows "recoverMeta password privateKey (metadata_of m) = Inr sk"
proof -
  note h = prepareHeader_InrD [OF p]
  let ?key = "wire_key (opt_major opts) sk"
  from h(11) obtain q where q: "length q = 10" "lsessKeyHash m = saltedDigest q ?key" by blast
  have first: "unwrapKey password privateKey (none_if_nil (lencKey1 m)) (none_if_nil (lencKey2 m))
      (lsalt m) (lkey1Hash m) = Inr ?key"
  proof (cases "password \<noteq> None \<and> ePassword opts \<noteq> []")
    case True
    with s have pw: "password = Some (ePassword opts)" by (simp add: secret_fits_def)
    from True h(10) obtain p1 where "length p1 = 10" "lkey1Hash m = saltedDigest p1 (ePassword opts)" by auto
    with True h(8) pw unwrapPassword_wrap [of "ePassword opts" "lsalt m" ?key "lencKey1 m" p1]
    show ?thesis by (simp add: unwrapKey_def none_if_nil_def)
  next
    case False
    with s obtain pk priv where k: "ePublicKey opts = Some pk" "privateKey = Some priv" "rsa_key_pair pk priv"
      by (auto simp: secret_fits_def)
    from h(9) k(1) unwrapPrivateKey_wrap [OF k(3), of ?key _ "lencKey2 m"]
    have "unwrapPrivateKey priv (lencKey2 m) = Inr ?key" "lencKey2 m \<noteq> []" by auto
    moreover have "password = None \<or> none_if_nil (lencKey1 m) = None"
      using False h(8) by (auto simp: wrapPassword_def none_if_nil_def)
    ultimately show ?thesis using k(2) by (auto simp: unwrapKey_def none_if_nil_def split: option.splits)
  qed
  have "0 < length (lsalt m) \<longleftrightarrow> 3 \<le> sint (opt_major opts)"
    using h(7) by (auto split: if_splits)
  then show ?thesis
    using first q
    by (simp add: recoverMeta_def recoverSessionKey_def metadata_of_def verifyKeyHash_saltedDigest wire_key_def
        del: length_greater_0_conv)
qed

end
