(* ===== verification/Pipe.thy ===== *)
theory Pipe
  imports SessionKey
begin

text \<open>
  \<open>decryptPipe\<close> of \<open>decrypt.go\<close>: AES-CBC decryption with the one-block lookahead, then either straight to
  \<open>io.MultiWriter(out, plaintextMD5)\<close> or through an \<open>io.Pipe\<close> into the LZ4 goroutine.

  The LZ4 frame reader is third-party code: the parameter \<open>lzr\<close> gives its initial state, what it does
  with one more byte (output, and possibly its end: clean or with an error), and the error it ends with
  when its input ends first (\<open>None\<close> is \<open>io.EOF\<close>, otherwise the error the pipe was closed with).

  \<open>io.Pipe\<close> is synchronous: a \<open>Write\<close> returns when the reader has taken all its bytes, or with the
  reader's close error once the reader is gone, also for an empty slice. So the goroutine is a \<open>lane\<close>
  that advances inside the writes: \<open>LzRunning\<close> while it reads, \<open>LzStopped r\<close> once it has closed its end and
  sent \<open>r\<close> on \<open>doneCh\<close>. The pipe owns \<open>out\<close> and the digest while it exists.
\<close>

section \<open>The LZ4 reader\<close>

record 'd lz_reader =
  lzr_init :: 'd
  lzr_step :: "'d \<Rightarrow> byte \<Rightarrow> 'd \<times> bytes \<times> error option option"
  lzr_end :: "'d \<Rightarrow> error option \<Rightarrow> error option"

datatype 'd lane =
    Direct
  | LzRunning 'd
  | LzStopped "error option"

record 'd decryptPipe =
  dp_dec :: cbc
  dp_pending :: "bytes option"
  dp_lane :: "'d lane"
  dp_out :: sink
  dp_md5 :: bytes

section \<open>Operations\<close>

text \<open>\<open>io.MultiWriter(out, plaintextMD5).Write\<close>.\<close>

definition tee_Write :: "'d decryptPipe \<Rightarrow> bytes \<Rightarrow> 'd decryptPipe \<times> error option" where
  "tee_Write p b =
     (case sink_write (dp_out p) b of
        (o', Some e) \<Rightarrow> (p\<lparr>dp_out := o'\<rparr>, Some e)
      | (o', None) \<Rightarrow> (p\<lparr>dp_out := o', dp_md5 := dp_md5 p @ b\<rparr>, None))"

text \<open>The goroutine on one byte: what it decodes goes to the tee, whose error ends it too.\<close>

definition lane_byte :: "'d lz_reader \<Rightarrow> 'd \<Rightarrow> 'd decryptPipe \<Rightarrow> byte \<Rightarrow> 'd decryptPipe" where
  "lane_byte lzr d p b =
     (case lzr_step lzr d b of
        (d', x, v) \<Rightarrow>
          (case tee_Write p x of
             (p', Some e) \<Rightarrow> p'\<lparr>dp_lane := LzStopped (Some e)\<rparr>
           | (p', None) \<Rightarrow>
               p'\<lparr>dp_lane := (case v of None \<Rightarrow> LzRunning d' | Some r \<Rightarrow> LzStopped r)\<rparr>))"

text \<open>\<open>writeCloseError\<close> of the pipe after the goroutine closed its end.\<close>

definition stop_error :: "error option \<Rightarrow> error" where
  "stop_error r = (case r of None \<Rightarrow> ErrClosedPipe | Some e \<Rightarrow> e)"

fun pipe_bytes :: "'d lz_reader \<Rightarrow> bytes \<Rightarrow> 'd decryptPipe \<Rightarrow> 'd decryptPipe \<times> error option" where
  "pipe_bytes lzr [] p = (p, None)"
| "pipe_bytes lzr (b # bs) p =
     (case dp_lane p of
        LzRunning d \<Rightarrow> pipe_bytes lzr bs (lane_byte lzr d p b)
      | LzStopped r \<Rightarrow> (p, Some (stop_error r))
      | Direct \<Rightarrow> (p, None))"

definition writeSink :: "'d lz_reader \<Rightarrow> 'd decryptPipe \<Rightarrow> bytes \<Rightarrow> 'd decryptPipe \<times> error option" where
  "writeSink lzr p b =
     (case dp_lane p of
        Direct \<Rightarrow> tee_Write p b
      | LzStopped r \<Rightarrow> (p, Some (stop_error r))
      | LzRunning d \<Rightarrow> pipe_bytes lzr b p)"

definition newDecryptPipe :: "'d lz_reader \<Rightarrow> bytes \<Rightarrow> sink \<Rightarrow> bool \<Rightarrow> error + 'd decryptPipe" where
  "newDecryptPipe lzr sessionKey out useLZ4 =
     (let (key, iv) = evpKDF sessionKey [] 1 32 16
      in case aes_new_cipher key of
           Inl e \<Rightarrow> Inl e
         | Inr block \<Rightarrow>
             Inr \<lparr>dp_dec = new_cbc block iv, dp_pending = None,
                  dp_lane = (if useLZ4 then LzRunning (lzr_init lzr) else Direct),
                  dp_out = out, dp_md5 = []\<rparr>)"

text \<open>\<open>CloseWithError(err)\<close> on the write end, and the goroutine's reaction (\<open>None\<close> for \<open>Close\<close>).\<close>

definition pipe_close :: "'d lz_reader \<Rightarrow> 'd decryptPipe \<Rightarrow> error option \<Rightarrow> 'd decryptPipe" where
  "pipe_close lzr p e =
     (case dp_lane p of LzRunning d \<Rightarrow> p\<lparr>dp_lane := LzStopped (lzr_end lzr d e)\<rparr> | _ \<Rightarrow> p)"

definition pipe_abort :: "'d lz_reader \<Rightarrow> 'd decryptPipe \<Rightarrow> error \<Rightarrow> 'd decryptPipe" where
  "pipe_abort lzr p e = pipe_close lzr p (Some e)"

definition pipe_feed :: "'d lz_reader \<Rightarrow> 'd decryptPipe \<Rightarrow> bytes \<Rightarrow> 'd decryptPipe \<times> error option" where
  "pipe_feed lzr p cipherBlock =
     (if cipherBlock = [] \<or> length cipherBlock mod 16 \<noteq> 0
      then (p, Some (ErrDataAlign (length cipherBlock)))
      else
        let (dec', plain) = cbc_crypt_decrypt (dp_dec p) cipherBlock;
            p1 = p\<lparr>dp_dec := dec'\<rparr>
        in case dp_pending p of
             None \<Rightarrow> (p1\<lparr>dp_pending := Some plain\<rparr>, None)
           | Some b \<Rightarrow>
               (case writeSink lzr p1 b of
                  (p2, Some e) \<Rightarrow> (p2, Some e)
                | (p2, None) \<Rightarrow> (p2\<lparr>dp_pending := Some plain\<rparr>, None)))"

text \<open>The end of \<open>finish\<close>: close the pipe and take the goroutine's result from \<open>doneCh\<close>.\<close>

definition pipe_done :: "'d lz_reader \<Rightarrow> 'd decryptPipe \<Rightarrow> 'd decryptPipe \<times> error option" where
  "pipe_done lzr p =
     (let p' = pipe_close lzr p None
      in (p', case dp_lane p' of LzStopped r \<Rightarrow> r | _ \<Rightarrow> None))"

text \<open>After a failed write of the tail, \<open>finish\<close> still drains \<open>doneCh\<close>; the lane has stopped by then.\<close>

definition pipe_finish :: "'d lz_reader \<Rightarrow> 'd decryptPipe \<Rightarrow> 'd decryptPipe \<times> error option" where
  "pipe_finish lzr p =
     (case dp_pending p of
        None \<Rightarrow> pipe_done lzr p
      | Some b \<Rightarrow>
          (case unpadPKCS7 b of
             Inl e \<Rightarrow> (pipe_abort lzr p e, Some (ErrFinalPadding e))
           | Inr tail \<Rightarrow>
               (case writeSink lzr p tail of
                  (p', Some e) \<Rightarrow> (p', Some e)
                | (p', None) \<Rightarrow> pipe_done lzr p')))"

end
