(* ===== verification/Decrypt.thy ===== *)
theory Decrypt
  imports Pipe
begin

text \<open>
  \<open>Decrypt\<close> of \<open>decrypt.go\<close>. \<open>decState\<close> holds its local variables (\<open>meta\<close>, \<open>pipe\<close>; \<open>out\<close> and \<open>plaintextMD5\<close>
  move into the pipe when it is created) and what it shows to the caller's hooks: the snapshots given to
  \<open>OnMetadata\<close> and the lines given to \<open>Logger\<close>. The loop ends because every \<open>Next\<close> shortens the stream.
\<close>

record DecryptOptions =
  oPassword :: "bytes option"
  oPrivateKey :: "rsa_private option"

record 'd decState =
  d_meta :: Metadata
  d_pipe :: "'d decryptPipe option"
  d_out :: sink
  d_snaps :: "Metadata list"
  d_logs :: "log_line list"

definition dec_out :: "'d decState \<Rightarrow> sink" where
  "dec_out st = (case d_pipe st of None \<Rightarrow> d_out st | Some p \<Rightarrow> dp_out p)"

definition init_decrypt :: "sink \<Rightarrow> 'd decState" where
  "init_decrypt out =
     \<lparr>d_meta = newMetadata, d_pipe = None, d_out = out, d_snaps = [], d_logs = []\<rparr>"

section \<open>The cases of the loop body\<close>

definition abort_pipe :: "'d lz_reader \<Rightarrow> error \<Rightarrow> 'd decState \<Rightarrow> 'd decState" where
  "abort_pipe lzr e st = st\<lparr>d_pipe := map_option (\<lambda>p. pipe_abort lzr p e) (d_pipe st)\<rparr>"

definition decrypt_metadata :: "wpair list \<Rightarrow> 'd decState \<Rightarrow> 'd decState \<times> error option" where
  "decrypt_metadata ms st =
     (case absorb_members ms (d_meta st) of
        (m', l, r) \<Rightarrow> (st\<lparr>d_meta := m', d_logs := d_logs st @ l\<rparr>, r))"

text \<open>The first data dict: modes, snapshot, session key, pipe.\<close>

definition open_pipe :: "'d lz_reader \<Rightarrow> DecryptOptions \<Rightarrow> 'd decState \<Rightarrow> 'd decState \<times> error option" where
  "open_pipe lzr opt st =
     (let m = d_meta st in
      case checkModes m of
        Some e \<Rightarrow> (st, Some e)
      | None \<Rightarrow>
          let st1 = st\<lparr>d_snaps := d_snaps st @ [m]\<rparr>
          in case recoverSessionKey (oPassword opt) (oPrivateKey opt) (mEncKey1 m) (mEncKey2 m) (mSalt m)
                    (mKey1Hash m) (mSessionKeyHash m) (mMajor m) of
               Inl e \<Rightarrow> (st1, Some e)
             | Inr sessionKey \<Rightarrow>
                 (case newDecryptPipe lzr sessionKey (d_out st) (mCompress m = 1) of
                    Inl e \<Rightarrow> (st1, Some e)
                  | Inr p \<Rightarrow> (st1\<lparr>d_pipe := Some p\<rparr>, None)))"

definition feed_data :: "'d lz_reader \<Rightarrow> wvalue \<Rightarrow> 'd decState \<Rightarrow> 'd decState \<times> error option" where
  "feed_data lzr obj st =
     (case Lookup obj ''data'' of
        Some (VBytes ct) \<Rightarrow>
          (case d_pipe st of
             None \<Rightarrow> (st, None)
           | Some p \<Rightarrow>
               (case pipe_feed lzr p ct of
                  (p', Some e) \<Rightarrow> (abort_pipe lzr e (st\<lparr>d_pipe := Some p'\<rparr>), Some e)
                | (p', None) \<Rightarrow> (st\<lparr>d_pipe := Some p'\<rparr>, None)))
      | _ \<Rightarrow> (abort_pipe lzr ErrBadDataDict st, Some ErrMissingPayload))"

definition decrypt_data ::
    "'d lz_reader \<Rightarrow> DecryptOptions \<Rightarrow> wvalue \<Rightarrow> 'd decState \<Rightarrow> 'd decState \<times> error option" where
  "decrypt_data lzr opt obj st =
     (case (case d_pipe st of None \<Rightarrow> open_pipe lzr opt st | Some p \<Rightarrow> (st, None)) of
        (st1, Some e) \<Rightarrow> (st1, Some e)
      | (st1, None) \<Rightarrow> feed_data lzr obj st1)"

definition decrypt_object ::
    "'d lz_reader \<Rightarrow> DecryptOptions \<Rightarrow> wvalue \<Rightarrow> 'd decState \<Rightarrow> 'd decState \<times> error option" where
  "decrypt_object lzr opt obj st =
     (case obj of
        VDict ms \<Rightarrow>
          (case Lookup obj ''type'' of
             Some (VString typ) \<Rightarrow>
               if typ = ''metadata'' then decrypt_metadata ms st
               else if typ = ''data'' then decrypt_data lzr opt obj st
               else (st, Some (ErrUnknownTopLevelType typ))
           | _ \<Rightarrow> (st, Some ErrMissingType))
      | _ \<Rightarrow> (st, Some (ErrTopLevelNotDict (kind_num obj))))"

text \<open>After the loop: \<open>finish\<close>, the digest of what was written, and the note on other digests.\<close>

definition decrypt_end :: "'d lz_reader \<Rightarrow> 'd decState \<Rightarrow> 'd decState \<times> error option" where
  "decrypt_end lzr st =
     (case d_pipe st of
        None \<Rightarrow> (st, Some ErrNoDataBlocks)
      | Some p \<Rightarrow>
          (case pipe_finish lzr p of
             (p', Some e) \<Rightarrow> (st\<lparr>d_pipe := Some p'\<rparr>, Some e)
           | (p', None) \<Rightarrow>
               let st1 = st\<lparr>d_pipe := Some p'\<rparr>;
                   want = mPlaintextMD5 (d_meta st);
                   got = hex_encode (md5 (dp_md5 p'))
               in if want \<noteq> [] \<and> got \<noteq> want then (st1, Some (ErrPlaintextMD5 got want))
                  else if mDigest (d_meta st) \<noteq> [] \<and> mDigest (d_meta st) \<noteq> ''md5''
                  then (st1\<lparr>d_logs := d_logs st1 @ [LogDigest (mDigest (d_meta st))]\<rparr>, None)
                  else (st1, None)))"

function decrypt_loop ::
    "'d lz_reader \<Rightarrow> DecryptOptions \<Rightarrow> 'd decState \<Rightarrow> reader \<Rightarrow> 'd decState \<times> error option" where
  "decrypt_loop lzr opt st r =
     (case Next r of
        Inl e \<Rightarrow> (abort_pipe lzr e st, Some e)
      | Inr None \<Rightarrow> decrypt_end lzr st
      | Inr (Some (obj, r')) \<Rightarrow>
          (case decrypt_object lzr opt obj st of
             (st', Some e) \<Rightarrow> (st', Some e)
           | (st', None) \<Rightarrow> decrypt_loop lzr opt st' r'))"
  by pat_completeness auto
termination
  by (relation "measure (\<lambda>(lzr, opt, st, r). length (rest r))") (auto dest: Next_shorter)

declare decrypt_loop.simps [simp del]

definition Decrypt ::
    "'d lz_reader \<Rightarrow> reader \<Rightarrow> sink \<Rightarrow> DecryptOptions \<Rightarrow> 'd decState \<times> error option" where
  "Decrypt lzr r out opt =
     (case consumeMagic r of
        Inl e \<Rightarrow> (init_decrypt out, Some e)
      | Inr r' \<Rightarrow> decrypt_loop lzr opt (init_decrypt out) r')"

end
