(* ===== verification/DecryptCorrect.thy ===== *)
theory DecryptCorrect
  imports Decrypt
begin

text \<open>
  What the stages of \<open>decrypt.go\<close> promise. \<open>writeSink\<close> and \<open>feed\<close> are \<open>io_writer\<close>s: the first has accepted
  the decoder's input, the second the ciphertext; \<open>finish\<close> delivers the unpadded, decoded rest. On the
  writer's own streams these contracts give the round trip.
\<close>

section \<open>The decoder's run\<close>

text \<open>
  \<open>lzr_run lzr d bs\<close>: what the decoder in state \<open>d\<close> has emitted after \<open>bs\<close>, and whether it still reads
  (\<open>Inl\<close>) or ended with the last byte (\<open>Inr\<close>); \<open>None\<close> when bytes are left over.
\<close>

fun lzr_run :: "'d lz_reader \<Rightarrow> 'd \<Rightarrow> bytes \<Rightarrow> (bytes \<times> ('d + error option)) option" where
  "lzr_run lzr d [] = Some ([], Inl d)"
| "lzr_run lzr d (b # bs) =
     (case lzr_step lzr d b of
        (d', x, Some r) \<Rightarrow> if bs = [] then Some (x, Inr r) else None
      | (d', x, None) \<Rightarrow>
          (case lzr_run lzr d' bs of None \<Rightarrow> None | Some (y, r) \<Rightarrow> Some (x @ y, r)))"

lemma lzr_run_append:
  "lzr_run lzr d (as @ b # bs) =
     (case lzr_run lzr d as of
        Some (x, Inl d') \<Rightarrow>
          (case lzr_run lzr d' (b # bs) of None \<Rightarrow> None | Some (y, r) \<Rightarrow> Some (x @ y, r))
      | _ \<Rightarrow> None)"
  by (induction as arbitrary: d) (auto simp del: lzr_run.simps(2) simp: lzr_run.simps(2) [of _ _ _ "_ @ _"]
      lzr_run.simps(2) [of _ _ a as for a as] split: prod.splits option.splits sum.splits)

lemma lzr_run_snoc:
  "lzr_run lzr d as = Some (x, Inl d') \<Longrightarrow> lzr_step lzr d' b = (d'', y, v) \<Longrightarrow>
     lzr_run lzr d (as @ [b]) = Some (x @ y, case v of None \<Rightarrow> Inl d'' | Some r \<Rightarrow> Inr r)"
  by (simp add: lzr_run_append split: option.splits)

lemma lzr_run_proper_prefix:
  assumes "lzr_run lzr d (as @ bs) = Some (x, r)" and "bs \<noteq> []"
  shows "\<exists>y d'. lzr_run lzr d as = Some (y, Inl d')"
proof -
  obtain b cs where "bs = b # cs" using assms(2) by (cases bs) auto
  with assms(1) show ?thesis by (auto simp: lzr_run_append split: option.splits sum.splits prod.splits)
qed

text \<open>
  The documented behaviour of the LZ4 codec: the reader decodes what the writer framed, for every split
  of the data into writes, and is done with the frame's last byte.
\<close>

definition lz4_lossless :: "'e lz_writer \<Rightarrow> 'd lz_reader \<Rightarrow> bool" where
  "lz4_lossless lzw lzr \<longleftrightarrow>
     (\<forall>bs. lzr_run lzr (lzr_init lzr) (lz_frame lzw bs) = Some (concat bs, Inr None))"

section \<open>writeSink\<close>

text \<open>\<open>delivered p base x\<close>: \<open>x\<close> has gone to \<open>out\<close>, behind \<open>base\<close>, and into the digest.\<close>

definition delivered :: "'d decryptPipe \<Rightarrow> bytes \<Rightarrow> bytes \<Rightarrow> bool" where
  "delivered p base x \<longleftrightarrow> written (dp_out p) = base @ x \<and> dp_md5 p = x"

definition lane_accepted ::
    "'d lz_reader \<Rightarrow> bool \<Rightarrow> bytes \<Rightarrow> 'd decryptPipe \<Rightarrow> bytes \<Rightarrow> bool" where
  "lane_accepted lzr lz base p d \<longleftrightarrow>
     (case dp_lane p of
        Direct \<Rightarrow> \<not> lz \<and> delivered p base d
      | LzRunning s \<Rightarrow> lz \<and> (\<exists>x. lzr_run lzr (lzr_init lzr) d = Some (x, Inl s) \<and> delivered p base x)
      | LzStopped None \<Rightarrow> lz \<and> (\<exists>x. lzr_run lzr (lzr_init lzr) d = Some (x, Inr None) \<and> delivered p base x)
      | LzStopped (Some e) \<Rightarrow> lz)"

lemma tee_Write_ok:
  "tee_Write p b = (p', None) \<Longrightarrow> delivered p base x \<Longrightarrow>
     delivered p' base (x @ b) \<and> dp_lane p' = dp_lane p \<and> dp_dec p' = dp_dec p \<and> dp_pending p' = dp_pending p"
  by (auto simp: tee_Write_def delivered_def dest: sink_write_ok split: prod.splits option.splits)

lemma tee_Write_fields:
  "tee_Write p b = (p', r) \<Longrightarrow> dp_lane p' = dp_lane p \<and> dp_dec p' = dp_dec p \<and> dp_pending p' = dp_pending p"
  by (auto simp: tee_Write_def split: prod.splits option.splits)

lemma lane_byte_accepted:
  assumes "lane_accepted lzr lz base p d" and "dp_lane p = LzRunning s"
  shows "lane_accepted lzr lz base (lane_byte lzr s p b) (d @ [b])"
proof -
  from assms obtain x where lz: lz and x: "lzr_run lzr (lzr_init lzr) d = Some (x, Inl s)"
    "delivered p base x" by (auto simp: lane_accepted_def)
  obtain s' y v where st: "lzr_step lzr s b = (s', y, v)" by (cases "lzr_step lzr s b") auto
  obtain p' r where t: "tee_Write p y = (p', r)" by (cases "tee_Write p y")
  show ?thesis
  proof (cases r)
    case None
    with tee_Write_ok [OF _ x(2)] t have "delivered p' base (x @ y)" by blast
    with None t st lz lzr_run_snoc [OF x(1) st] show ?thesis
      by (auto simp: lane_byte_def lane_accepted_def delivered_def split: option.splits)
  next
    case (Some e)
    with t st lz show ?thesis by (simp add: lane_byte_def lane_accepted_def)
  qed
qed

lemma pipe_bytes_accepted:
  "lane_accepted lzr lz base p d \<Longrightarrow> dp_lane p \<noteq> Direct \<Longrightarrow> pipe_bytes lzr b p = (p', None) \<Longrightarrow>
     lane_accepted lzr lz base p' (d @ b) \<and> dp_lane p' \<noteq> Direct"
proof (induction b arbitrary: p d)
  case (Cons b bs)
  from Cons.prems(2,3) obtain s where s: "dp_lane p = LzRunning s"
    and r: "pipe_bytes lzr bs (lane_byte lzr s p b) = (p', None)"
    by (auto split: lane.splits)
  have "dp_lane (lane_byte lzr s p b) \<noteq> Direct"
    by (auto simp: lane_byte_def split: prod.splits option.splits)
  with Cons.IH [OF lane_byte_accepted [OF Cons.prems(1) s] _ r] show ?case by simp
qed simp

interpretation lane: io_writer "writeSink lzr" "lane_accepted lzr lz base" for lzr lz base
proof
  fix p d b p'
  assume acc: "lane_accepted lzr lz base p d" and w: "writeSink lzr p b = (p', None)"
  show "lane_accepted lzr lz base p' (d @ b)"
  proof (cases "dp_lane p")
    case Direct
    with acc w tee_Write_ok [of p b p' base d] show ?thesis
      by (auto simp: writeSink_def lane_accepted_def)
  next
    case (LzRunning s)
    with w pipe_bytes_accepted [OF acc] show ?thesis by (auto simp: writeSink_def)
  next
    case (LzStopped r)
    with w show ?thesis by (simp add: writeSink_def)
  qed
qed

lemma lane_byte_fields:
  "dp_dec (lane_byte lzr s p b) = dp_dec p \<and> dp_pending (lane_byte lzr s p b) = dp_pending p"
  by (auto simp: lane_byte_def dest: tee_Write_fields split: prod.splits option.splits)

lemma pipe_bytes_fields:
  "pipe_bytes lzr b p = (p', r) \<Longrightarrow> dp_dec p' = dp_dec p \<and> dp_pending p' = dp_pending p"
  by (induction b arbitrary: p) (auto simp: lane_byte_fields split: lane.splits)

lemma writeSink_fields:
  "writeSink lzr p b = (p', r) \<Longrightarrow> dp_dec p' = dp_dec p \<and> dp_pending p' = dp_pending p"
  by (auto simp: writeSink_def dest: tee_Write_fields pipe_bytes_fields split: lane.splits)

section \<open>feed and finish\<close>

text \<open>
  After the ciphertext \<open>ct\<close> everything decrypted but the last data block has gone down the lane.
\<close>

definition feed_accepted ::
    "'d lz_reader \<Rightarrow> bool \<Rightarrow> bytes \<Rightarrow> cbc \<Rightarrow> 'd decryptPipe \<Rightarrow> bytes \<Rightarrow> bool" where
  "feed_accepted lzr lz base c0 p ct \<longleftrightarrow> cbc_ok (dp_dec p) \<and> 16 dvd length ct \<and>
     (\<exists>pre. cbc_crypt_decrypt c0 ct = (dp_dec p, pre @ (case dp_pending p of None \<Rightarrow> [] | Some b \<Rightarrow> b)) \<and>
       lane_accepted lzr lz base p pre \<and>
       (case dp_pending p of None \<Rightarrow> ct = [] | Some b \<Rightarrow> b \<noteq> [] \<and> 16 dvd length b \<and> 16 dvd length pre))"

lemma lane_accepted_cong:
  "lane_accepted lzr lz base p d \<Longrightarrow> dp_lane p' = dp_lane p \<Longrightarrow> dp_out p' = dp_out p \<Longrightarrow>
     dp_md5 p' = dp_md5 p \<Longrightarrow> lane_accepted lzr lz base p' d"
  by (simp add: lane_accepted_def delivered_def split: lane.splits option.splits)

interpretation feed: io_writer "pipe_feed lzr" "feed_accepted lzr lz base c0" for lzr lz base c0
proof
  fix p ct b p'
  assume acc: "feed_accepted lzr lz base c0 p ct" and w: "pipe_feed lzr p b = (p', None)"
  from acc obtain pre where ok: "cbc_ok (dp_dec p)" and ct: "16 dvd length ct"
    and pre: "cbc_crypt_decrypt c0 ct = (dp_dec p, pre @ (case dp_pending p of None \<Rightarrow> [] | Some b \<Rightarrow> b))"
    and lane: "lane_accepted lzr lz base p pre"
    and pend: "case dp_pending p of None \<Rightarrow> ct = [] | Some b \<Rightarrow> b \<noteq> [] \<and> 16 dvd length b \<and> 16 dvd length pre"
    by (auto simp: feed_accepted_def)
  from w have b: "b \<noteq> []" "16 dvd length b" by (auto simp: pipe_feed_def split: if_splits)
  obtain c1 plain where dec: "cbc_crypt_decrypt (dp_dec p) b = (c1, plain)"
    by (cases "cbc_crypt_decrypt (dp_dec p) b")
  note len = cbc_crypt_decrypt_ok [OF ok b(2) dec]
  let ?p1 = "p\<lparr>dp_dec := c1\<rparr>"
  have lane1: "lane_accepted lzr lz base ?p1 pre" by (rule lane_accepted_cong [OF lane]) simp_all
  have app: "cbc_crypt_decrypt c0 (ct @ b) =
      (c1, (pre @ (case dp_pending p of None \<Rightarrow> [] | Some b \<Rightarrow> b)) @ plain)"
    using pre dec by (simp add: cbc_crypt_decrypt_append [OF ct])
  show "feed_accepted lzr lz base c0 p' (ct @ b)"
  proof (cases "dp_pending p")
    case None
    with w b dec have p': "p' = ?p1\<lparr>dp_pending := Some plain\<rparr>" by (simp add: pipe_feed_def)
    have "pre = []" using None pend pre by simp
    moreover have "lane_accepted lzr lz base p' pre" by (rule lane_accepted_cong [OF lane1]) (simp_all add: p')
    ultimately show ?thesis
      using None app ct b len by (auto simp: feed_accepted_def p')
  next
    case (Some x)
    with w b dec obtain p2 where p2: "writeSink lzr ?p1 x = (p2, None)" and p': "p' = p2\<lparr>dp_pending := Some plain\<rparr>"
      by (auto simp: pipe_feed_def split: prod.splits option.splits)
    have "lane_accepted lzr lz base p' (pre @ x)"
      by (rule lane_accepted_cong [OF lane.write_accepted [OF lane1 p2]]) (simp_all add: p')
    with Some app ct b len pend writeSink_fields [OF p2] show ?thesis
      by (auto simp: feed_accepted_def p')
  qed
qed

text \<open>What the lane makes of its whole input \<open>pl\<close>: the identity, or the decoder's output and clean end.\<close>

definition lane_output :: "'d lz_reader \<Rightarrow> bool \<Rightarrow> bytes \<Rightarrow> bytes \<Rightarrow> bool" where
  "lane_output lzr lz pl x \<longleftrightarrow>
     (if lz
      then \<exists>r. lzr_run lzr (lzr_init lzr) pl = Some (x, r) \<and>
        (case r of Inl d \<Rightarrow> lzr_end lzr d None = None | Inr v \<Rightarrow> v = None)
      else x = pl)"

lemma pipe_done_ok:
  assumes "lane_accepted lzr lz base p d" and "pipe_done lzr p = (p', None)"
  shows "\<exists>x. lane_output lzr lz d x \<and> delivered p' base x"
  using assms
  by (auto simp: pipe_done_def pipe_close_def lane_accepted_def lane_output_def delivered_def Let_def
      split: lane.splits option.splits)

lemma pipe_finish_ok:
  assumes acc: "feed_accepted lzr lz base c0 p ct" and "ct \<noteq> []" and f: "pipe_finish lzr p = (p', None)"
  shows "\<exists>pl x. unpadPKCS7 (snd (cbc_crypt_decrypt c0 ct)) = Inr pl \<and> lane_output lzr lz pl x \<and>
    delivered p' base x"
proof -
  from acc \<open>ct \<noteq> []\<close> obtain pre b where b: "dp_pending p = Some b" "16 dvd length pre"
    and pre: "cbc_crypt_decrypt c0 ct = (dp_dec p, pre @ b)" and lane: "lane_accepted lzr lz base p pre"
    by (auto simp: feed_accepted_def split: option.splits)
  from f b obtain tl p2 where tl: "unpadPKCS7 b = Inr tl" and p2: "writeSink lzr p tl = (p2, None)"
    and d: "pipe_done lzr p2 = (p', None)"
    by (auto simp: pipe_finish_def split: sum.splits prod.splits option.splits)
  from pipe_done_ok [OF lane.write_accepted [OF lane p2] d] unpad_append [OF b(2) tl] pre
  show ?thesis by auto
qed

lemma newDecryptPipe_ok:
  "\<exists>p. newDecryptPipe lzr sk out lz = Inr p \<and> dp_out p = out \<and>
     feed_accepted lzr lz (written out) (payload_cipher sk) p [] \<and> dp_pending p = None \<and>
     dp_lane p = (if lz then LzRunning (lzr_init lzr) else Direct)"
  using evpKDF_lengths [of sk "[]" 1 32 16]
  by (cases "evpKDF sk [] 1 32 16")
    (auto simp: newDecryptPipe_def payload_cipher_def aes_new_cipher_def aes_key_ok_def feed_accepted_def
      cbc_ok_def new_cbc_def lane_accepted_def delivered_def)

section \<open>Runs that succeed\<close>

text \<open>The forward direction: with an \<open>out\<close> that takes everything, on a prefix of what the lane decodes.\<close>

definition lane_good :: "'d lz_reader \<Rightarrow> bool \<Rightarrow> bytes \<Rightarrow> 'd decryptPipe \<Rightarrow> bytes \<Rightarrow> bool" where
  "lane_good lzr lz base p d \<longleftrightarrow> lane_accepted lzr lz base p d \<and> room (dp_out p) = None \<and>
     (\<forall>e. dp_lane p \<noteq> LzStopped (Some e))"

text \<open>\<open>decodes lzr lz f\<close>: the lane takes \<open>f\<close> as one complete payload.\<close>

definition decodes :: "'d lz_reader \<Rightarrow> bool \<Rightarrow> bytes \<Rightarrow> bytes \<Rightarrow> bool" where
  "decodes lzr lz f x \<longleftrightarrow> (if lz then lzr_run lzr (lzr_init lzr) f = Some (x, Inr None) else x = f)"

lemma tee_Write_room:
  "room (dp_out p) = None \<Longrightarrow> \<exists>p'. tee_Write p b = (p', None) \<and> room (dp_out p') = None"
  by (simp add: tee_Write_def sink_write_room)

lemma lane_good_running:
  assumes "lane_good lzr True base p d" and "lzr_run lzr (lzr_init lzr) (d @ b # bs) = Some (x, Inr None)"
  shows "\<exists>s. dp_lane p = LzRunning s"
  using assms lzr_run_proper_prefix [OF assms(2)]
  by (auto simp: lane_good_def lane_accepted_def split: lane.splits option.splits)

lemma lane_byte_good:
  assumes g: "lane_good lzr True base p d" and s: "dp_lane p = LzRunning s"
    and r: "lzr_run lzr (lzr_init lzr) (d @ b # bs) = Some (x, Inr None)"
  shows "lane_good lzr True base (lane_byte lzr s p b) (d @ [b])"
proof -
  from g s obtain y where y: "lzr_run lzr (lzr_init lzr) d = Some (y, Inl s)"
    by (auto simp: lane_good_def lane_accepted_def)
  obtain s' z v where st: "lzr_step lzr s b = (s', z, v)" by (cases "lzr_step lzr s b") auto
  from r y st have v: "v = None \<or> v = Some None"
    by (auto simp: lzr_run_append split: option.splits if_splits)
  from g tee_Write_room [of p z] obtain p' where t: "tee_Write p z = (p', None)" "room (dp_out p') = None"
    by (auto simp: lane_good_def)
  with v st lane_byte_accepted [OF _ s, of lzr True base d b] g show ?thesis
    by (auto simp: lane_good_def lane_byte_def)
qed

lemma pipe_bytes_good:
  "lane_good lzr True base p d \<Longrightarrow> lzr_run lzr (lzr_init lzr) (d @ b @ s) = Some (x, Inr None) \<Longrightarrow>
     \<exists>p'. pipe_bytes lzr b p = (p', None) \<and> lane_good lzr True base p' (d @ b)"
proof (induction b arbitrary: p d)
  case (Cons b bs)
  then have r: "lzr_run lzr (lzr_init lzr) (d @ b # (bs @ s)) = Some (x, Inr None)" by simp
  from lane_good_running [OF Cons.prems(1) r] obtain q where q: "dp_lane p = LzRunning q" by blast
  from Cons.IH [OF lane_byte_good [OF Cons.prems(1) q r]] r q show ?case by simp
qed auto

lemma writeSink_good:
  assumes g: "lane_good lzr lz base p d" and r: "decodes lzr lz (d @ b @ s) x" and b: "b \<noteq> []"
  shows "\<exists>p'. writeSink lzr p b = (p', None) \<and> lane_good lzr lz base p' (d @ b)"
proof (cases lz)
  case True
  obtain a bs where ab: "b = a # bs" using b by (cases b) auto
  with r True have "lzr_run lzr (lzr_init lzr) (d @ a # (bs @ s)) = Some (x, Inr None)"
    by (simp add: decodes_def)
  from lane_good_running [OF _ this, of base p] g True obtain q where "dp_lane p = LzRunning q" by auto
  with pipe_bytes_good [of lzr base p d b s x] g r True show ?thesis
    by (auto simp: writeSink_def decodes_def)
next
  case False
  with g have D: "dp_lane p = Direct"
    by (auto simp: lane_good_def lane_accepted_def split: lane.splits option.splits)
  from g tee_Write_room [of p b] obtain p' where t: "tee_Write p b = (p', None)" "room (dp_out p') = None"
    by (auto simp: lane_good_def)
  with D have w: "writeSink lzr p b = (p', None)" by (simp add: writeSink_def)
  from lane.write_accepted [OF _ w] g have "lane_accepted lzr lz base p' (d @ b)"
    by (auto simp: lane_good_def)
  with w t D tee_Write_fields [OF t(1)] show ?thesis by (simp add: lane_good_def)
qed

lemma pkcs7Pad_split:
  assumes "pkcs7Pad pl 16 = a @ b" and "16 dvd length a" and "b \<noteq> []"
  shows "\<exists>tl. pl = a @ tl \<and> b = pkcs7Pad tl 16"
proof -
  have "16 dvd length a + length b" using pkcs7Pad_aligned [of pl] assms(1) by simp
  with assms(2) have "16 dvd length b" by (simp add: dvd_add_right_iff)
  with assms(3) have "16 \<le> length b" by (simp add: dvd_imp_le)
  have "\<exists>q. pkcs7Pad pl 16 = pl @ q \<and> length q \<le> 16" by (simp add: pkcs7Pad_def Let_def)
  then obtain q where q: "pl @ q = a @ b" "length q \<le> 16" using assms(1) by auto
  then have "length (pl @ q) = length (a @ b)" by simp
  with q(2) \<open>16 \<le> length b\<close> have "length a \<le> length pl" by simp
  with q(1) obtain tl where "pl = a @ tl" by (auto simp: append_eq_append_conv2)
  with assms(1) pkcs7Pad_append [OF assms(2), of tl] show ?thesis by simp
qed

definition feed_good ::
    "'d lz_reader \<Rightarrow> bool \<Rightarrow> bytes \<Rightarrow> cbc \<Rightarrow> 'd decryptPipe \<Rightarrow> bytes \<Rightarrow> bool" where
  "feed_good lzr lz base c0 p ct \<longleftrightarrow> feed_accepted lzr lz base c0 p ct \<and> room (dp_out p) = None \<and>
     (\<forall>e. dp_lane p \<noteq> LzStopped (Some e))"

lemma lane_good_cong:
  "lane_good lzr lz base p d \<Longrightarrow> dp_lane p' = dp_lane p \<Longrightarrow> dp_out p' = dp_out p \<Longrightarrow>
     dp_md5 p' = dp_md5 p \<Longrightarrow> lane_good lzr lz base p' d"
  using lane_accepted_cong [of lzr lz base p d p'] by (simp add: lane_good_def)

text \<open>The data block that \<open>feed\<close> holds back is never the end of the payload while more follows.\<close>

lemma pipe_feed_good:
  assumes g: "feed_good lzr lz base c0 p ct" and b: "b \<noteq> []" "16 dvd length b"
    and plain: "snd (cbc_crypt_decrypt c0 (ct @ b @ s)) = pkcs7Pad pl 16" "16 dvd length s"
    and dec: "decodes lzr lz pl x"
  shows "\<exists>p'. pipe_feed lzr p b = (p', None) \<and> feed_good lzr lz base c0 p' (ct @ b) \<and>
    (\<exists>y. dp_pending p' = Some y \<and> length y = length b)"
proof -
  from g obtain pre where ok: "cbc_ok (dp_dec p)" and ct: "16 dvd length ct"
    and pre: "cbc_crypt_decrypt c0 ct = (dp_dec p, pre @ (case dp_pending p of None \<Rightarrow> [] | Some b \<Rightarrow> b))"
    and lane: "lane_accepted lzr lz base p pre"
    and pend: "case dp_pending p of None \<Rightarrow> ct = [] | Some b \<Rightarrow> b \<noteq> [] \<and> 16 dvd length b \<and> 16 dvd length pre"
    by (auto simp: feed_good_def feed_accepted_def)
  obtain c1 y where y: "cbc_crypt_decrypt (dp_dec p) b = (c1, y)"
    by (cases "cbc_crypt_decrypt (dp_dec p) b")
  note len = cbc_crypt_decrypt_ok [OF ok b(2) y]
  let ?p1 = "p\<lparr>dp_dec := c1\<rparr>"
  have l1: "lane_good lzr lz base ?p1 pre"
    by (rule lane_good_cong [of lzr lz base p]) (use g lane in \<open>simp_all add: lane_good_def feed_good_def\<close>)
  show ?thesis
  proof (cases "dp_pending p")
    case None
    with b y have f: "pipe_feed lzr p b = (?p1\<lparr>dp_pending := Some y\<rparr>, None)" by (simp add: pipe_feed_def)
    from feed.write_accepted [OF _ f] g have "feed_accepted lzr lz base c0 (?p1\<lparr>dp_pending := Some y\<rparr>) (ct @ b)"
      by (auto simp: feed_good_def)
    with f g len show ?thesis by (simp add: feed_good_def)
  next
    case (Some q)
    have "snd (cbc_crypt_decrypt c0 (ct @ b @ s)) = (pre @ q) @ y @ snd (cbc_crypt_decrypt c1 s)"
      using pre y Some by (simp add: cbc_crypt_decrypt_append ct b(2) case_prod_beta)
    moreover have "16 dvd length (pre @ q)" "y \<noteq> []" using pend Some len b by auto
    ultimately obtain tl where "pl = (pre @ q) @ tl"
      using pkcs7Pad_split [of pl "pre @ q" "y @ snd (cbc_crypt_decrypt c1 s)"] plain by auto
    with dec have d: "decodes lzr lz (pre @ q @ tl) x" by simp
    from writeSink_good [OF l1 d] pend Some obtain p2 where
      p2: "writeSink lzr ?p1 q = (p2, None)" "lane_good lzr lz base p2 (pre @ q)" by auto
    with b y Some have f: "pipe_feed lzr p b = (p2\<lparr>dp_pending := Some y\<rparr>, None)" by (simp add: pipe_feed_def)
    from feed.write_accepted [OF _ f] g have "feed_accepted lzr lz base c0 (p2\<lparr>dp_pending := Some y\<rparr>) (ct @ b)"
      by (auto simp: feed_good_def)
    with f p2 len show ?thesis by (simp add: feed_good_def lane_good_def)
  qed
qed

lemma copy_feed_good:
  assumes "feed_good lzr lz base c0 p ct" and "snd (cbc_crypt_decrypt c0 (ct @ concat cs)) = pkcs7Pad pl 16"
    and "\<forall>c \<in> set cs. chunk_ok c" and "decodes lzr lz pl x"
  shows "\<exists>p'. copy_chunks (pipe_feed lzr) p cs = (p', None) \<and> feed_good lzr lz base c0 p' (ct @ concat cs) \<and>
    (cs \<noteq> [] \<longrightarrow> (\<exists>y. dp_pending p' = Some y \<and> length y = length (last cs)))"
  using assms
proof (induction cs arbitrary: p ct)
  case (Cons c cs)
  have "16 dvd length (concat cs)" using Cons.prems(3) by (intro dvd_length_concat) (auto simp: chunk_ok_def)
  with pipe_feed_good [OF Cons.prems(1), of c "concat cs" pl x] Cons.prems obtain q where
    q: "pipe_feed lzr p c = (q, None)" "feed_good lzr lz base c0 q (ct @ c)"
      "\<exists>y. dp_pending q = Some y \<and> length y = length c" by (auto simp: chunk_ok_def)
  from Cons.IH [OF q(2)] Cons.prems obtain p' where
    "copy_chunks (pipe_feed lzr) q cs = (p', None)" "feed_good lzr lz base c0 p' (ct @ c @ concat cs)"
    "cs \<noteq> [] \<longrightarrow> (\<exists>y. dp_pending p' = Some y \<and> length y = length (last cs))" by auto
  with q show ?case by (cases "cs = []") auto
qed auto

lemma pipe_done_good:
  assumes "lane_good lzr lz base p pl" and "decodes lzr lz pl x"
  shows "\<exists>p'. pipe_done lzr p = (p', None) \<and> delivered p' base x"
  using assms
  by (auto simp: pipe_done_def pipe_close_def lane_good_def lane_accepted_def decodes_def Let_def
      split: lane.splits option.splits if_splits)

lemma pipe_finish_good:
  assumes g: "feed_good lzr lz base c0 p ct" and "ct \<noteq> []"
    and plain: "snd (cbc_crypt_decrypt c0 ct) = pkcs7Pad pl 16" and dec: "decodes lzr lz pl x"
  shows "\<exists>pre tl. dp_pending p = Some (pkcs7Pad tl 16) \<and> pl = pre @ tl \<and> 16 dvd length pre \<and>
    (if lz \<and> tl = [] then pipe_finish lzr p = (p, Some ErrClosedPipe) \<and> delivered p base x
     else \<exists>p'. pipe_finish lzr p = (p', None) \<and> delivered p' base x)"
proof -
  from g \<open>ct \<noteq> []\<close> obtain pre b where b: "dp_pending p = Some b" "16 dvd length pre" "b \<noteq> []"
    and pre: "cbc_crypt_decrypt c0 ct = (dp_dec p, pre @ b)" and lane: "lane_good lzr lz base p pre"
    by (auto simp: feed_good_def feed_accepted_def lane_good_def split: option.splits)
  from pkcs7Pad_split [OF _ b(2,3)] plain pre obtain tl where tl: "pl = pre @ tl" "b = pkcs7Pad tl 16" by auto
  have "if lz \<and> tl = [] then pipe_finish lzr p = (p, Some ErrClosedPipe) \<and> delivered p base x
     else \<exists>p'. pipe_finish lzr p = (p', None) \<and> delivered p' base x"
  proof (cases "tl = []")
    case False
    from writeSink_good [OF lane, of tl "[]"] tl dec False obtain p2 where
      "writeSink lzr p tl = (p2, None)" "lane_good lzr lz base p2 pl" by auto
    with pipe_done_good [OF _ dec] b tl False show ?thesis
      by (fastforce simp: pipe_finish_def unpad_pkcs7Pad)
  next
    case True
    show ?thesis
    proof (cases lz)
      case lz: True
      with dec lane tl True have "dp_lane p = LzStopped None" "delivered p base x"
        by (auto simp: decodes_def lane_good_def lane_accepted_def split: lane.splits option.splits)
      with lz True b tl show ?thesis
        by (simp add: pipe_finish_def unpad_pkcs7Pad writeSink_def stop_error_def)
    next
      case lz: False
      with lane have D: "dp_lane p = Direct" "room (dp_out p) = None" "delivered p base pre"
        by (auto simp: lane_good_def lane_accepted_def split: lane.splits option.splits)
      with lz True b tl dec show ?thesis
        by (simp add: pipe_finish_def unpad_pkcs7Pad writeSink_def tee_Write_def sink_write_room pipe_done_def
            pipe_close_def delivered_def decodes_def)
    qed
  qed
  with b tl show ?thesis by blast
qed

section \<open>Decrypting the writer's streams\<close>

lemma decrypt_loop_value:
  assumes "wf_value v" and "rest r = enc_value v @ s" and "decrypt_object lzr opt v st = (st', None)"
  shows "decrypt_loop lzr opt st r = decrypt_loop lzr opt st' (r\<lparr>rest := s\<rparr>)"
  by (subst decrypt_loop.simps) (simp add: Next_enc_value [OF assms(1,2)] assms(3))

lemma decrypt_loop_dict:
  "wf_value v \<Longrightarrow> decrypt_object lzr opt v st = (st', None) \<Longrightarrow>
     decrypt_loop lzr opt st (r\<lparr>rest := enc_value v @ s\<rparr>) = decrypt_loop lzr opt st' (r\<lparr>rest := s\<rparr>)"
  using decrypt_loop_value [of v "r\<lparr>rest := enc_value v @ s\<rparr>" s lzr opt st st'] by simp

lemma chunk_ok_wf: "chunk_ok c \<Longrightarrow> wf_value (VDict (data_members c))"
  by (rule wf_members(2)) (simp add: chunk_ok_def dataChunkSize_def)

lemma decrypt_object_data:
  "decrypt_object lzr opt (VDict (data_members c)) st = decrypt_data lzr opt (VDict (data_members c)) st"
  by (simp add: decrypt_object_def)

lemma decrypt_loop_data:
  "\<forall>c \<in> set cs. chunk_ok c \<Longrightarrow> rest r = data_stream cs @ s \<Longrightarrow> d_pipe st = Some p \<Longrightarrow>
     copy_chunks (pipe_feed lzr) p cs = (p', None) \<Longrightarrow>
     decrypt_loop lzr opt st r = decrypt_loop lzr opt (st\<lparr>d_pipe := Some p'\<rparr>) (r\<lparr>rest := s\<rparr>)"
proof (induction cs arbitrary: r st p)
  case Nil
  then have "r\<lparr>rest := s\<rparr> = r" "st\<lparr>d_pipe := Some p'\<rparr> = st" by simp_all
  then show ?case by simp
next
  case (Cons c cs)
  from Cons.prems(4) obtain q where q: "pipe_feed lzr p c = (q, None)"
    "copy_chunks (pipe_feed lzr) q cs = (p', None)" by (auto split: prod.splits option.splits)
  have "decrypt_object lzr opt (VDict (data_members c)) st = (st\<lparr>d_pipe := Some q\<rparr>, None)"
    using Cons.prems(3) q(1) by (simp add: decrypt_object_data decrypt_data_def feed_data_def)
  with Cons.prems chunk_ok_wf have "decrypt_loop lzr opt st r =
      decrypt_loop lzr opt (st\<lparr>d_pipe := Some q\<rparr>) (r\<lparr>rest := data_stream cs @ s\<rparr>)"
    by (intro decrypt_loop_value) auto
  also have "\<dots> = decrypt_loop lzr opt (st\<lparr>d_pipe := Some p'\<rparr>) (r\<lparr>rest := s\<rparr>)"
    using Cons.prems(1) q(2) Cons.IH [of "r\<lparr>rest := data_stream cs @ s\<rparr>" "st\<lparr>d_pipe := Some q\<rparr>" q] by simp
  finally show ?case .
qed

lemma length_concat_butlast:
  "\<forall>c \<in> set (butlast cs). length c = n \<Longrightarrow> cs \<noteq> [] \<Longrightarrow>
     length (concat cs) = n * (length cs - 1) + length (last cs)"
proof -
  assume b: "\<forall>c \<in> set (butlast cs). length c = n" and "cs \<noteq> []"
  then have "length (concat cs) = length (concat (butlast cs @ [last cs]))" by simp
  also have "\<dots> = n * (length cs - 1) + length (last cs)"
    using b length_concat_const [of "butlast cs" n] by simp
  finally show ?thesis .
qed

text \<open>The tail that \<open>finish\<close> writes is the payload beyond the last full chunk.\<close>

lemma tail_length:
  fixes pre tl :: bytes
  assumes ch: "chunking cs" "concat cs = ciphertext sk pl" and pl: "pl = pre @ tl" "16 dvd length pre"
    and l: "length (last cs) = length (pkcs7Pad tl 16)"
  shows "length tl = length pl mod dataChunkSize"
proof -
  have "cs \<noteq> []" using ch(2) length_ciphertext [of sk pl] by auto
  then have last: "length (last cs) \<le> dataChunkSize" using ch(1) by (simp add: chunking_def chunk_ok_def)
  obtain k where k: "length pre = 16 * k" using pl(2) by (auto simp: dvd_def)
  have "length (concat cs) = 16 * (length pl div 16 + 1)"
    by (simp add: ch(2) length_ciphertext length_pkcs7Pad)
  also have "length pl div 16 = k + length tl div 16" by (simp add: pl(1) k)
  finally have "dataChunkSize * (length cs - 1) + length (last cs) = length pre + length (last cs)"
    using length_concat_butlast [of cs dataChunkSize] \<open>cs \<noteq> []\<close> ch(1) l k
    by (simp add: chunking_def length_pkcs7Pad)
  moreover have "length tl < length (last cs)"
    by (simp add: l length_pkcs7Pad)
  ultimately have "length pl = length tl + dataChunkSize * (length cs - 1)" "length tl < dataChunkSize"
    using last by (simp_all add: pl(1))
  then show ?thesis by (simp only: mod_mult_self2 mod_less)
qed

text \<open>
  The decoder on the header and the data dicts of a writer's stream, whatever the rest \<open>t\<close> of the stream
  is: it arrives at \<open>t\<close> with the key recovered, one snapshot taken, and everything but the last data
  block delivered, and \<open>finish\<close> will deliver \<open>d\<close> completely. \<open>at_trailer\<close> is that state.
\<close>

definition at_trailer ::
    "leadingMetadata \<Rightarrow> 'd decryptPipe \<Rightarrow> sink \<Rightarrow> 'd decState" where
  "at_trailer m p out =
     \<lparr>d_meta = metadata_of m, d_pipe = Some p, d_out = out, d_snaps = [metadata_of m], d_logs = []\<rparr>"

definition finishes :: "'d lz_reader \<Rightarrow> bool \<Rightarrow> bytes \<Rightarrow> 'd decryptPipe \<Rightarrow> sink \<Rightarrow> bytes \<Rightarrow> bool" where
  "finishes lzr lz pl p out d \<longleftrightarrow>
     (if lz \<and> length pl mod dataChunkSize = 0
      then pipe_finish lzr p = (p, Some ErrClosedPipe) \<and> delivered p (written out) d
      else \<exists>p'. pipe_finish lzr p = (p', None) \<and> delivered p' (written out) d)"

lemma Decrypt_to_trailer:
  assumes p: "prepared crand opts m sk" and s: "secret_fits opts (oPassword opt) (oPrivateKey opt)"
    and ch: "chunking cs" "concat cs = ciphertext sk pl"
    and dec: "decodes lzr (compressOn opts) pl d" and room: "room out = None"
    and r: "rest r = leading_stream m @ data_stream cs @ t"
  shows "\<exists>q. Decrypt lzr r out opt = decrypt_loop lzr opt (at_trailer m q out) (r\<lparr>rest := t\<rparr>) \<and>
    finishes lzr (compressOn opts) pl q out d"
proof -
  let ?lz = "compressOn opts"
  from p have ph: "prepareHeader opts (opt_rand crand opts) = Inr (m, sk)" and lok: "leading_ok m"
    by (simp_all add: prepared_def)
  have lz: "mCompress (metadata_of m) = 1 \<longleftrightarrow> ?lz" and modes: "checkModes (metadata_of m) = None"
    using prepareHeader_InrD(5,6) [OF ph] by (auto simp: metadata_of_def boolAsInt_def checkModes_None)
  have "cs \<noteq> []" using ch(2) length_ciphertext [of sk pl] by auto
  then obtain c cs' where cs: "cs = c # cs'" by (cases cs) auto
  let ?st1 = "(init_decrypt out)\<lparr>d_meta := metadata_of m\<rparr>"
  have "Decrypt lzr r out opt = decrypt_loop lzr opt (init_decrypt out)
      (r\<lparr>rest := enc_value (VDict (leading_members m)) @ data_stream cs @ t\<rparr>)"
    using r by (simp add: Decrypt_def leading_stream_def consumeMagic_header)
  also have "\<dots> = decrypt_loop lzr opt ?st1 (r\<lparr>rest := data_stream cs @ t\<rparr>)"
    by (rule decrypt_loop_dict [OF wf_members(1) [OF lok]])
      (simp add: decrypt_object_def decrypt_metadata_def init_decrypt_def absorb_leading_members)
  finally have D1: "Decrypt lzr r out opt = decrypt_loop lzr opt ?st1 (r\<lparr>rest := data_stream cs @ t\<rparr>)" .
  from newDecryptPipe_ok [of lzr sk out ?lz] obtain p0 where
    p0: "newDecryptPipe lzr sk out ?lz = Inr p0" "dp_out p0 = out"
      "feed_accepted lzr ?lz (written out) (payload_cipher sk) p0 []"
      "dp_lane p0 = (if ?lz then LzRunning (lzr_init lzr) else Direct)" by blast
  have good0: "feed_good lzr ?lz (written out) (payload_cipher sk) p0 []"
    using p0 room by (simp add: feed_good_def)
  have "cbc_crypt_decrypt (payload_cipher sk) (ciphertext sk pl) =
      (fst (cbc_crypt_encrypt (payload_cipher sk) (pkcs7Pad pl 16)), pkcs7Pad pl 16)"
    unfolding ciphertext_def
    by (rule cbc_crypt_decrypt_encrypt [OF payload_cipher_ok pkcs7Pad_aligned]) simp
  then have plain: "snd (cbc_crypt_decrypt (payload_cipher sk) ([] @ concat cs)) = pkcs7Pad pl 16"
    by (simp add: ch(2))
  from copy_feed_good [OF good0 plain _ dec] ch(1) \<open>cs \<noteq> []\<close> obtain p1 where
    p1: "copy_chunks (pipe_feed lzr) p0 cs = (p1, None)"
      "feed_good lzr ?lz (written out) (payload_cipher sk) p1 (concat cs)"
      "\<exists>y. dp_pending p1 = Some y \<and> length y = length (last cs)" by (auto simp: chunking_def)
  then obtain q where q: "pipe_feed lzr p0 c = (q, None)" "copy_chunks (pipe_feed lzr) q cs' = (p1, None)"
    by (auto simp: cs split: prod.splits option.splits)
  let ?st2 = "at_trailer m q out"
  have rec: "recoverSessionKey (oPassword opt) (oPrivateKey opt) (mEncKey1 (metadata_of m))
      (mEncKey2 (metadata_of m)) (mSalt (metadata_of m)) (mKey1Hash (metadata_of m))
      (mSessionKeyHash (metadata_of m)) (mMajor (metadata_of m)) = Inr sk"
    using recover_prepared [OF ph s] by (simp add: recoverMeta_def)
  have "decrypt_object lzr opt (VDict (data_members c)) ?st1 = (?st2, None)"
    using p0(1) q(1) by (simp add: decrypt_object_data decrypt_data_def open_pipe_def feed_data_def Let_def
        modes rec lz init_decrypt_def at_trailer_def)
  then have "decrypt_loop lzr opt ?st1 (r\<lparr>rest := data_stream cs @ t\<rparr>) =
      decrypt_loop lzr opt ?st2 (r\<lparr>rest := data_stream cs' @ t\<rparr>)"
    using ch(1) chunk_ok_wf [of c] decrypt_loop_dict [of "VDict (data_members c)" lzr opt ?st1 ?st2
        "data_stream cs' @ t" r] by (simp add: cs chunking_def)
  also have "\<dots> = decrypt_loop lzr opt (at_trailer m p1 out) (r\<lparr>rest := t\<rparr>)"
    using ch(1) q(2)
      decrypt_loop_data [of cs' "r\<lparr>rest := data_stream cs' @ t\<rparr>" t ?st2 q lzr p1 opt]
    by (simp add: cs chunking_def at_trailer_def)
  finally have D2: "Decrypt lzr r out opt = decrypt_loop lzr opt (at_trailer m p1 out) (r\<lparr>rest := t\<rparr>)"
    by (simp add: D1)
  from pipe_finish_good [OF p1(2) _ _ dec] plain \<open>cs \<noteq> []\<close> ch obtain pre tl where
    tl: "dp_pending p1 = Some (pkcs7Pad tl 16)" "pl = pre @ tl" "16 dvd length pre"
    and fin: "if ?lz \<and> tl = [] then pipe_finish lzr p1 = (p1, Some ErrClosedPipe) \<and> delivered p1 (written out) d
     else \<exists>p'. pipe_finish lzr p1 = (p', None) \<and> delivered p' (written out) d"
    using length_ciphertext [of sk pl] by fastforce
  have "tl = [] \<longleftrightarrow> length pl mod dataChunkSize = 0"
    using tail_length [OF ch tl(2,3)] p1(3) tl(1) by auto
  with fin D2 show ?thesis by (auto simp: finishes_def split: if_splits)
qed

text \<open>The three trailers of interest: the digest dict, the end of the input, a digest dict cut off.\<close>

lemma decrypt_loop_digest:
  assumes "rest r = enc_value (VDict (final_members h))" and "rend r = ErrEOF" and "length h \<le> 65535"
  shows "decrypt_loop lzr opt (at_trailer m p out) r =
    decrypt_end lzr ((at_trailer m p out)\<lparr>d_meta := (metadata_of m)\<lparr>mPlaintextMD5 := h\<rparr>\<rparr>)"
proof -
  let ?st = "(at_trailer m p out)\<lparr>d_meta := (metadata_of m)\<lparr>mPlaintextMD5 := h\<rparr>\<rparr>"
  have "decrypt_loop lzr opt (at_trailer m p out) r = decrypt_loop lzr opt ?st (r\<lparr>rest := []\<rparr>)"
    using assms(1,3)
    by (intro decrypt_loop_value [where v = "VDict (final_members h)"])
      (simp_all add: wf_members(3) decrypt_object_def decrypt_metadata_def absorb_final_members
        at_trailer_def del: wf_value.simps)
  also have "\<dots> = decrypt_end lzr ?st"
    using assms(2) by (subst decrypt_loop.simps) (simp add: Next_end)
  finally show ?thesis .
qed

lemma decrypt_loop_cut:
  assumes "rest r = [] \<or> (\<exists>ms. list_all wf_pair ms \<and> rest r = tagDict # concat (map enc_pair ms))"
    and "rend r = ErrEOF"
  shows "decrypt_loop lzr opt st r = decrypt_end lzr st"
proof -
  from assms have "Next r = Inr None"
    by (auto simp: Next_end) (simp add: Next_def read_one_cut_dict)
  then show ?thesis by (subst decrypt_loop.simps) simp
qed

text \<open>\<open>outcome\<close>: the result of \<open>Decrypt\<close> whose pipe has delivered \<open>d\<close>, by the recorded digest \<open>h\<close>.\<close>

lemma decrypt_end_digest:
  assumes "finishes lzr lz pl p out d" and "mPlaintextMD5 mt = h"
    and "mDigest mt = ''md5''"
  shows "\<exists>st. decrypt_end lzr ((at_trailer m p out)\<lparr>d_meta := mt\<rparr>) =
      (st, if lz \<and> length pl mod dataChunkSize = 0 then Some ErrClosedPipe
           else if h \<noteq> [] \<and> hex_encode (md5 d) \<noteq> h then Some (ErrPlaintextMD5 (hex_encode (md5 d)) h)
           else None) \<and>
    written (dec_out st) = written out @ d \<and> d_meta st = mt \<and> d_snaps st = [metadata_of m] \<and> d_logs st = []"
  using assms
  by (auto simp: finishes_def decrypt_end_def at_trailer_def dec_out_def delivered_def Let_def split: if_splits)

end
