(* ===== verification/DecryptSafety.thy ===== *)
theory DecryptSafety
  imports DecryptCorrect
begin

text \<open>
  \<open>Decrypt\<close> on arbitrary streams. \<open>stream_values\<close> is the sequence of top-level values \<open>Next\<close> delivers and
  \<open>data_payload\<close> the ciphertext in one of them. The loop keeps \<open>loop_inv\<close>: either no pipe, no snapshot and
  an untouched \<open>out\<close>, or one snapshot whose modes are supported and whose session key was recovered, and a
  pipe that has accepted exactly the ciphertext seen so far.
\<close>

section \<open>What a stream carries\<close>

function stream_values :: "reader \<Rightarrow> wvalue list" where
  "stream_values r = (case Next r of Inr (Some (v, r')) \<Rightarrow> v # stream_values r' | _ \<Rightarrow> [])"
  by pat_completeness auto
termination
  by (relation "measure (\<lambda>r. length (rest r))") (auto dest: Next_shorter)

declare stream_values.simps [simp del]

definition data_payload :: "wvalue \<Rightarrow> bytes" where
  "data_payload v =
     (if Lookup v ''type'' = Some (VString ''data'')
      then (case Lookup v ''data'' of Some (VBytes b) \<Rightarrow> b | _ \<Rightarrow> [])
      else [])"

definition stream_ciphertext :: "reader \<Rightarrow> bytes" where
  "stream_ciphertext r = concat (map data_payload (stream_values r))"

lemma stream_ciphertext_step:
  "Next r = Inr (Some (v, r')) \<Longrightarrow> stream_ciphertext r = data_payload v @ stream_ciphertext r'"
  "Next r = Inr None \<Longrightarrow> stream_ciphertext r = []"
  by (simp_all add: stream_ciphertext_def stream_values.simps [of r])

section \<open>The invariant of the loop\<close>

definition snap_ok :: "DecryptOptions \<Rightarrow> Metadata \<Rightarrow> bytes \<Rightarrow> bool" where
  "snap_ok opt snap sk \<longleftrightarrow>
     checkModes snap = None \<and> recoverMeta (oPassword opt) (oPrivateKey opt) snap = Inr sk"

definition loop_inv ::
    "'d lz_reader \<Rightarrow> DecryptOptions \<Rightarrow> sink \<Rightarrow> 'd decState \<Rightarrow> bytes \<Rightarrow> bool" where
  "loop_inv lzr opt out st ct \<longleftrightarrow>
     (case d_pipe st of
        None \<Rightarrow> d_snaps st = [] \<and> d_out st = out \<and> ct = []
      | Some p \<Rightarrow> ct \<noteq> [] \<and> (\<exists>snap sk. d_snaps st = [snap] \<and> snap_ok opt snap sk \<and>
          feed_accepted lzr (mCompress snap = 1) (written out) (payload_cipher sk) p ct))"

text \<open>What holds whenever \<open>Decrypt\<close> returns: output only behind a recovered key, at most one snapshot.\<close>

definition exit_inv :: "DecryptOptions \<Rightarrow> sink \<Rightarrow> 'd decState \<Rightarrow> bool" where
  "exit_inv opt out st \<longleftrightarrow>
     (case d_pipe st of
        None \<Rightarrow> d_out st = out \<and> length (d_snaps st) \<le> 1
      | Some p \<Rightarrow> \<exists>snap sk. d_snaps st = [snap] \<and> snap_ok opt snap sk)"

lemma loop_inv_exit: "loop_inv lzr opt out st ct \<Longrightarrow> exit_inv opt out st"
  by (auto simp: loop_inv_def exit_inv_def split: option.splits)

lemma exit_inv_abort: "exit_inv opt out st \<Longrightarrow> exit_inv opt out (abort_pipe lzr e st)"
  by (auto simp: exit_inv_def abort_pipe_def split: option.splits)

lemma open_pipe_ok:
  assumes "open_pipe lzr opt st = (st', None)" and "d_pipe st = None" and "loop_inv lzr opt out st ct"
  shows "\<exists>snap sk p. d_snaps st' = [snap] \<and> snap_ok opt snap sk \<and> d_pipe st' = Some p \<and>
    feed_accepted lzr (mCompress snap = 1) (written out) (payload_cipher sk) p []"
proof -
  from assms obtain sk p where "checkModes (d_meta st) = None"
    and "recoverMeta (oPassword opt) (oPrivateKey opt) (d_meta st) = Inr sk"
    and p: "newDecryptPipe lzr sk (d_out st) (mCompress (d_meta st) = 1) = Inr p"
    and st': "st' = st\<lparr>d_snaps := d_snaps st @ [d_meta st], d_pipe := Some p\<rparr>"
    by (auto simp: open_pipe_def recoverMeta_def Let_def split: option.splits sum.splits)
  moreover have "d_snaps st = []" "d_out st = out" using assms(2,3) by (simp_all add: loop_inv_def)
  moreover from newDecryptPipe_ok [of lzr sk "d_out st" "mCompress (d_meta st) = 1"] p
  have "feed_accepted lzr (mCompress (d_meta st) = 1) (written (d_out st)) (payload_cipher sk) p []" by auto
  ultimately show ?thesis by (auto simp: snap_ok_def)
qed

lemma open_pipe_exit:
  "open_pipe lzr opt st = (st', r) \<Longrightarrow> d_pipe st = None \<Longrightarrow> loop_inv lzr opt out st ct \<Longrightarrow> exit_inv opt out st'"
  by (auto simp: open_pipe_def exit_inv_def loop_inv_def snap_ok_def recoverMeta_def Let_def
      split: option.splits sum.splits)

text \<open>A data dict, once the pipe is there.\<close>

definition piped ::
    "'d lz_reader \<Rightarrow> DecryptOptions \<Rightarrow> sink \<Rightarrow> 'd decState \<Rightarrow> bytes \<Rightarrow> bool" where
  "piped lzr opt out st ct \<longleftrightarrow> (\<exists>snap sk p. d_snaps st = [snap] \<and> snap_ok opt snap sk \<and> d_pipe st = Some p \<and>
     feed_accepted lzr (mCompress snap = 1) (written out) (payload_cipher sk) p ct)"

lemma feed_data_inv:
  assumes "feed_data lzr obj st = (st', r)" and "piped lzr opt out st ct"
    and "Lookup obj ''type'' = Some (VString ''data'')"
  shows "exit_inv opt out st'" and "r = None \<Longrightarrow> loop_inv lzr opt out st' (ct @ data_payload obj)"
proof -
  from assms(2) obtain snap sk p where s: "d_snaps st = [snap]" "snap_ok opt snap sk" "d_pipe st = Some p"
    "feed_accepted lzr (mCompress snap = 1) (written out) (payload_cipher sk) p ct" by (auto simp: piped_def)
  with assms(1) show "exit_inv opt out st'"
    by (auto simp: feed_data_def exit_inv_def abort_pipe_def
        split: option.splits wvalue.splits prod.splits)
  assume "r = None"
  with assms(1) s(3) obtain b p' where b: "Lookup obj ''data'' = Some (VBytes b)"
    "pipe_feed lzr p b = (p', None)" "st' = st\<lparr>d_pipe := Some p'\<rparr>"
    by (auto simp: feed_data_def split: option.splits wvalue.splits prod.splits)
  moreover from b(2) have "b \<noteq> []" by (auto simp: pipe_feed_def)
  ultimately show "loop_inv lzr opt out st' (ct @ data_payload obj)"
    using s feed.write_accepted [OF s(4) b(2)] assms(3) by (auto simp: loop_inv_def data_payload_def)
qed

lemma decrypt_data_inv:
  assumes "decrypt_data lzr opt obj st = (st', r)" and inv: "loop_inv lzr opt out st ct"
    and "Lookup obj ''type'' = Some (VString ''data'')"
  shows "exit_inv opt out st' \<and> (r = None \<longrightarrow> loop_inv lzr opt out st' (ct @ data_payload obj))"
proof (cases "d_pipe st")
  case None
  obtain st1 q where op: "open_pipe lzr opt st = (st1, q)" by (cases "open_pipe lzr opt st")
  show ?thesis
  proof (cases q)
    case (Some e)
    with assms(1) None op open_pipe_exit [OF op None inv] show ?thesis by (auto simp: decrypt_data_def)
  next
    case q: None
    from open_pipe_ok [OF _ None inv] op q have "piped lzr opt out st1 []" by (auto simp: piped_def)
    moreover have "ct = []" using inv None by (simp add: loop_inv_def)
    moreover from assms(1) None op q have "feed_data lzr obj st1 = (st', r)" by (simp add: decrypt_data_def)
    ultimately show ?thesis using feed_data_inv [of lzr obj st1 st' r opt out "[]"] assms(3) by auto
  qed
next
  case (Some p)
  with inv have "piped lzr opt out st ct" by (auto simp: loop_inv_def piped_def)
  moreover from assms(1) Some have "feed_data lzr obj st = (st', r)" by (simp add: decrypt_data_def)
  ultimately show ?thesis using feed_data_inv assms(3) by blast
qed

lemma decrypt_object_inv:
  assumes "decrypt_object lzr opt obj st = (st', r)" and inv: "loop_inv lzr opt out st ct"
  shows "exit_inv opt out st' \<and> (r = None \<longrightarrow> loop_inv lzr opt out st' (ct @ data_payload obj))"
proof (cases "Lookup obj ''type'' = Some (VString ''data'')")
  case True
  then obtain ms where "obj = VDict ms" by (cases obj) auto
  with True assms(1) have "decrypt_data lzr opt obj st = (st', r)" by (simp add: decrypt_object_def)
  from decrypt_data_inv [OF this inv True] show ?thesis .
next
  case False
  then have "data_payload obj = []" by (simp add: data_payload_def)
  moreover from assms(1) False
  have "d_pipe st' = d_pipe st \<and> d_snaps st' = d_snaps st \<and> d_out st' = d_out st"
    by (auto simp: decrypt_object_def decrypt_metadata_def
        split: wvalue.splits option.splits prod.splits if_splits)
  ultimately show ?thesis using inv loop_inv_exit [OF inv]
    by (cases "d_pipe st") (auto simp: loop_inv_def exit_inv_def)
qed

section \<open>What holds when Decrypt returns\<close>

lemma decrypt_end_exit: "decrypt_end lzr st = (st', r) \<Longrightarrow> exit_inv opt out st \<Longrightarrow> exit_inv opt out st'"
  by (auto simp: decrypt_end_def exit_inv_def Let_def split: option.splits prod.splits if_splits)

lemma decrypt_loop_exit:
  "loop_inv lzr opt out st ct \<Longrightarrow> decrypt_loop lzr opt st r = (st', res) \<Longrightarrow> exit_inv opt out st'"
proof (induction lzr opt st r arbitrary: ct rule: decrypt_loop.induct)
  case (1 lzr opt st r)
  from "1.prems"(2) consider (Err) e where "st' = abort_pipe lzr e st"
    | (End) "decrypt_end lzr st = (st', res)"
    | (Fail) obj e where "decrypt_object lzr opt obj st = (st', Some e)"
    | (Step) obj r' st1 where "Next r = Inr (Some (obj, r'))" "decrypt_object lzr opt obj st = (st1, None)"
        "decrypt_loop lzr opt st1 r' = (st', res)"
    by (subst (asm) decrypt_loop.simps) (auto split: sum.splits option.splits prod.splits)
  then show ?case
  proof cases
    case Err
    with loop_inv_exit [OF "1.prems"(1)] show ?thesis by (simp add: exit_inv_abort)
  next
    case End
    from decrypt_end_exit [OF this loop_inv_exit [OF "1.prems"(1)]] show ?thesis .
  next
    case Fail
    from decrypt_object_inv [OF this "1.prems"(1)] show ?thesis by simp
  next
    case Step
    from decrypt_object_inv [OF Step(2) "1.prems"(1)]
    have "loop_inv lzr opt out st1 (ct @ data_payload obj)" by simp
    from "1.IH" [OF Step(1) refl refl Step(2) [symmetric] refl this Step(3)] show ?thesis .
  qed
qed

definition decrypted ::
    "'d lz_reader \<Rightarrow> DecryptOptions \<Rightarrow> bytes \<Rightarrow> Metadata \<Rightarrow> bytes \<Rightarrow> bool" where
  "decrypted lzr opt ct snap x \<longleftrightarrow> (\<exists>sk pl. snap_ok opt snap sk \<and>
     unpadPKCS7 (snd (cbc_crypt_decrypt (payload_cipher sk) ct)) = Inr pl \<and>
     lane_output lzr (mCompress snap = 1) pl x)"

lemma decrypt_end_ok:
  assumes "loop_inv lzr opt out st ct" and "decrypt_end lzr st = (st', None)"
  shows "\<exists>snap x. d_snaps st' = [snap] \<and> decrypted lzr opt ct snap x \<and>
    written (dec_out st') = written out @ x \<and>
    (mPlaintextMD5 (d_meta st') = [] \<or> mPlaintextMD5 (d_meta st') = hex_encode (md5 x))"
proof -
  from assms(2) obtain p p' where p: "d_pipe st = Some p" "pipe_finish lzr p = (p', None)"
    and st': "d_pipe st' = Some p'" "d_snaps st' = d_snaps st" "d_meta st' = d_meta st"
    and h: "mPlaintextMD5 (d_meta st) = [] \<or> mPlaintextMD5 (d_meta st) = hex_encode (md5 (dp_md5 p'))"
    by (auto simp: decrypt_end_def Let_def split: option.splits prod.splits if_splits)
  from assms(1) p(1) obtain snap sk where ct: "ct \<noteq> []" and s: "d_snaps st = [snap]" "snap_ok opt snap sk"
    and f: "feed_accepted lzr (mCompress snap = 1) (written out) (payload_cipher sk) p ct"
    by (auto simp: loop_inv_def)
  from pipe_finish_ok [OF f ct p(2)] obtain pl x where
    "unpadPKCS7 (snd (cbc_crypt_decrypt (payload_cipher sk) ct)) = Inr pl"
    "lane_output lzr (mCompress snap = 1) pl x" "delivered p' (written out) x" by blast
  with s st' h show ?thesis by (auto simp: decrypted_def dec_out_def delivered_def)
qed

lemma decrypt_loop_ok:
  "loop_inv lzr opt out st ct \<Longrightarrow> decrypt_loop lzr opt st r = (st', None) \<Longrightarrow>
     \<exists>snap x. d_snaps st' = [snap] \<and> decrypted lzr opt (ct @ stream_ciphertext r) snap x \<and>
       written (dec_out st') = written out @ x \<and>
       (mPlaintextMD5 (d_meta st') = [] \<or> mPlaintextMD5 (d_meta st') = hex_encode (md5 x))"
proof (induction lzr opt st r arbitrary: ct rule: decrypt_loop.induct)
  case (1 lzr opt st r)
  from "1.prems"(2) consider (End) "Next r = Inr None" "decrypt_end lzr st = (st', None)"
    | (Step) obj r' st1 where "Next r = Inr (Some (obj, r'))" "decrypt_object lzr opt obj st = (st1, None)"
        "decrypt_loop lzr opt st1 r' = (st', None)"
    by (subst (asm) decrypt_loop.simps) (auto split: sum.splits option.splits prod.splits)
  then show ?case
  proof cases
    case End
    with decrypt_end_ok [OF "1.prems"(1)] show ?thesis by (simp add: stream_ciphertext_step)
  next
    case Step
    from decrypt_object_inv [OF Step(2) "1.prems"(1)]
    have "loop_inv lzr opt out st1 (ct @ data_payload obj)" by simp
    from "1.IH" [OF Step(1) refl refl Step(2) [symmetric] refl this Step(3)] show ?thesis
      by (simp add: stream_ciphertext_step(1) [OF Step(1)])
  qed
qed

lemma init_loop_inv: "loop_inv lzr opt out (init_decrypt out) []"
  by (simp add: loop_inv_def init_decrypt_def)

section \<open>The snapshot is what Inspect returns\<close>

lemma feed_data_keeps:
  "feed_data lzr obj st = (st', r) \<Longrightarrow> d_snaps st' = d_snaps st \<and> (d_pipe st' = None \<longleftrightarrow> d_pipe st = None)"
  by (auto simp: feed_data_def abort_pipe_def split: option.splits wvalue.splits prod.splits)

lemma decrypt_object_piped:
  "decrypt_object lzr opt obj st = (st', r) \<Longrightarrow> d_pipe st = Some p \<Longrightarrow>
     d_snaps st' = d_snaps st \<and> d_pipe st' \<noteq> None"
  by (auto simp: decrypt_object_def decrypt_metadata_def decrypt_data_def dest: feed_data_keeps
      split: wvalue.splits option.splits prod.splits if_splits)

lemma decrypt_end_snaps: "decrypt_end lzr st = (st', r) \<Longrightarrow> d_snaps st' = d_snaps st"
  by (auto simp: decrypt_end_def Let_def split: option.splits prod.splits if_splits)

lemma decrypt_loop_cases:
  assumes "decrypt_loop lzr opt st r = (st', res)"
  obtains (Err) e where "Next r = Inl e" "st' = abort_pipe lzr e st" "res = Some e"
    | (End) "Next r = Inr None" "decrypt_end lzr st = (st', res)"
    | (Fail) obj r' e where "Next r = Inr (Some (obj, r'))" "decrypt_object lzr opt obj st = (st', Some e)"
        "res = Some e"
    | (Step) obj r' st1 where "Next r = Inr (Some (obj, r'))" "decrypt_object lzr opt obj st = (st1, None)"
        "decrypt_loop lzr opt st1 r' = (st', res)"
  using assms by (subst (asm) decrypt_loop.simps) (auto split: sum.splits option.splits prod.splits)

lemma decrypt_loop_piped:
  "decrypt_loop lzr opt st r = (st', res) \<Longrightarrow> d_pipe st = Some p \<Longrightarrow> d_snaps st' = d_snaps st"
proof (induction lzr opt st r arbitrary: p rule: decrypt_loop.induct)
  case (1 lzr opt st r)
  from "1.prems"(1) show ?case
  proof (cases rule: decrypt_loop_cases)
    case (Step obj r' st1)
    from decrypt_object_piped [OF Step(2) "1.prems"(2)] obtain q where
      q: "d_pipe st1 = Some q" "d_snaps st1 = d_snaps st" by auto
    from "1.IH" [OF Step(1) refl refl Step(2) [symmetric] refl Step(3) q(1)] q(2) show ?thesis by simp
  qed (use "1.prems" in \<open>auto simp: abort_pipe_def dest: decrypt_end_snaps decrypt_object_piped\<close>)
qed

text \<open>Before the first data dict both loops absorb the same metadata.\<close>

lemma inspect_loop_metadata:
  assumes "Next r = Inr (Some (obj, r'))" and "decrypt_object lzr opt obj st = (st1, None)"
    and "Lookup obj ''type'' \<noteq> Some (VString ''data'')"
  shows "inspect_loop (d_meta st) r = inspect_loop (d_meta st1) r'"
    and "d_pipe st1 = d_pipe st" "d_snaps st1 = d_snaps st"
  using assms
  by (auto simp: decrypt_object_def decrypt_metadata_def inspect_loop.simps [of "d_meta st" r]
      split: wvalue.splits option.splits prod.splits if_splits)

lemma inspect_loop_data:
  "Next r = Inr (Some (obj, r')) \<Longrightarrow> Lookup obj ''type'' = Some (VString ''data'') \<Longrightarrow>
     inspect_loop m r = Inr m"
  by (cases obj) (simp_all add: inspect_loop.simps [of m r])

lemma decrypt_data_snaps:
  assumes "decrypt_data lzr opt obj st = (st', r)" and "d_pipe st = None" and "d_snaps st = []"
  shows "d_snaps st' = [] \<or> d_snaps st' = [d_meta st]" and "r = None \<Longrightarrow> d_pipe st' \<noteq> None"
proof -
  obtain st1 q where op: "open_pipe lzr opt st = (st1, q)" by (cases "open_pipe lzr opt st")
  with assms(3) have s: "d_snaps st1 = [] \<or> d_snaps st1 = [d_meta st]" "q = None \<Longrightarrow> d_pipe st1 \<noteq> None"
    by (auto simp: open_pipe_def Let_def split: option.splits sum.splits)
  have "(d_snaps st' = [] \<or> d_snaps st' = [d_meta st]) \<and> (r = None \<longrightarrow> d_pipe st' \<noteq> None)"
  proof (cases q)
    case None
    with assms(1,2) op have "feed_data lzr obj st1 = (st', r)" by (simp add: decrypt_data_def)
    with s None show ?thesis by (auto dest: feed_data_keeps)
  next
    case (Some e)
    with assms(1,2) op have "st' = st1" "r = q" by (auto simp: decrypt_data_def)
    with s Some show ?thesis by simp
  qed
  then show "d_snaps st' = [] \<or> d_snaps st' = [d_meta st]" "r = None \<Longrightarrow> d_pipe st' \<noteq> None" by simp_all
qed

lemma decrypt_loop_inspect:
  "decrypt_loop lzr opt st r = (st', res) \<Longrightarrow> d_pipe st = None \<Longrightarrow> d_snaps st = [] \<Longrightarrow>
     d_snaps st' = [snap] \<Longrightarrow> inspect_loop (d_meta st) r = Inr snap"
proof (induction lzr opt st r rule: decrypt_loop.induct)
  case (1 lzr opt st r)
  have data: "decrypt_data lzr opt obj st = (st1, q)"
    if "decrypt_object lzr opt obj st = (st1, q)" "Lookup obj ''type'' = Some (VString ''data'')" for obj st1 q
    using that by (cases obj) (simp_all add: decrypt_object_def)
  from "1.prems"(1) show ?case
  proof (cases rule: decrypt_loop_cases)
    case (Fail obj r' e)
    have "d_snaps st' = []" if "Lookup obj ''type'' \<noteq> Some (VString ''data'')"
      using that Fail(2) "1.prems"(3)
      by (auto simp: decrypt_object_def decrypt_metadata_def split: wvalue.splits option.splits prod.splits if_splits)
    with "1.prems"(4) have ty: "Lookup obj ''type'' = Some (VString ''data'')" by auto
    from decrypt_data_snaps(1) [OF data [OF Fail(2) ty] "1.prems"(2,3)] "1.prems"(4)
    show ?thesis using inspect_loop_data [OF Fail(1) ty] by auto
  next
    case (Step obj r' st1)
    show ?thesis
    proof (cases "Lookup obj ''type'' = Some (VString ''data'')")
      case True
      note d = decrypt_data_snaps [OF data [OF Step(2) True] "1.prems"(2,3)]
      from d(2) decrypt_loop_piped [OF Step(3)] have "d_snaps st' = d_snaps st1" by auto
      with d(1) "1.prems"(4) inspect_loop_data [OF Step(1) True] show ?thesis by auto
    next
      case False
      from inspect_loop_metadata [OF Step(1,2) False]
        "1.IH" [OF Step(1) refl refl Step(2) [symmetric] refl Step(3)] "1.prems"(2-4)
      show ?thesis by simp
    qed
  qed (use "1.prems"(3,4) in \<open>auto simp: abort_pipe_def dest: decrypt_end_snaps\<close>)
qed

section \<open>Which failures stop the LZ4 goroutine\<close>

definition lane_running :: "'d decState \<Rightarrow> bool" where
  "lane_running st \<longleftrightarrow>
     (case d_pipe st of None \<Rightarrow> False | Some p \<Rightarrow> (case dp_lane p of LzRunning s \<Rightarrow> True | _ \<Rightarrow> False))"

lemma abort_pipe_stops: "\<not> lane_running (abort_pipe lzr e st)"
  by (auto simp: lane_running_def abort_pipe_def pipe_abort_def pipe_close_def
      split: option.splits lane.splits)

lemma decrypt_object_stops:
  assumes "decrypt_object lzr opt obj st = (st', Some e)" and "lane_running st"
  shows "lane_running st' \<longleftrightarrow> Lookup obj ''type'' \<noteq> Some (VString ''data'')"
proof (cases "Lookup obj ''type'' = Some (VString ''data'')")
  case True
  from assms(2) obtain p where p: "d_pipe st = Some p" by (auto simp: lane_running_def split: option.splits)
  from True obtain ms where "obj = VDict ms" by (cases obj) auto
  with True assms(1) p have "feed_data lzr obj st = (st', Some e)"
    by (simp add: decrypt_object_def decrypt_data_def)
  with True p show ?thesis
    by (auto simp: feed_data_def abort_pipe_stops split: option.splits wvalue.splits prod.splits)
next
  case False
  with assms(1) have "d_pipe st' = d_pipe st"
    by (auto simp: decrypt_object_def decrypt_metadata_def
        split: wvalue.splits option.splits prod.splits if_splits)
  with assms(2) False show ?thesis by (simp add: lane_running_def)
qed

lemma pipe_finish_stops:
  "pipe_finish lzr p = (p', r) \<Longrightarrow> (case dp_lane p' of LzRunning s \<Rightarrow> False | _ \<Rightarrow> True)"
proof -
  have stopped: "dp_lane q' \<noteq> LzRunning s'" if "pipe_bytes lzr b q = (q', Some e)" for b q q' e s'
    using that by (induction b arbitrary: q) (auto split: lane.splits)
  then have "dp_lane q' \<noteq> LzRunning s'" if "writeSink lzr q b = (q', Some e)" for b q q' e s'
    using that by (auto simp: writeSink_def tee_Write_def split: lane.splits prod.splits option.splits)
  then show "pipe_finish lzr p = (p', r) \<Longrightarrow> (case dp_lane p' of LzRunning s \<Rightarrow> False | _ \<Rightarrow> True)"
    by (auto simp: pipe_finish_def pipe_abort_def pipe_done_def pipe_close_def Let_def
        split: option.splits sum.splits prod.splits lane.splits)
qed

lemma decrypt_end_stops: "decrypt_end lzr st = (st', r) \<Longrightarrow> \<not> lane_running st'"
  by (auto simp: decrypt_end_def lane_running_def Let_def dest!: pipe_finish_stops
      split: option.splits prod.splits if_splits lane.splits)

end
