(* ===== verification/EncryptTotal.thy ===== *)
theory EncryptTotal
  imports SessionKey
begin

text \<open>
  When \<open>Encrypt\<close> succeeds, in terms of its inputs: enough entropy (at most 70 bytes are read), options
  within what the wire format can carry, and an \<open>out\<close> that takes everything.
\<close>

section \<open>Enough entropy\<close>

lemma read_full_enough:
  "n + k \<le> length (rest r) \<Longrightarrow> \<exists>bs r'. read_full n r = Inr (bs, r') \<and> k \<le> length (rest r')"
  by (simp add: read_full_def)

lemma randomHex_enough:
  "5 + k \<le> length (rest r) \<Longrightarrow> \<exists>s r'. randomHex r 10 = Inr (s, r') \<and> k \<le> length (rest r')"
  using read_full_enough [of 5 k r] by (auto simp: randomHex_def)

lemma makeSalt_enough:
  "8 + k \<le> length (rest r) \<Longrightarrow> \<exists>s r'. makeSalt major r = Inr (s, r') \<and> k \<le> length (rest r')"
  using read_full_enough [of 8 k r] by (auto simp: makeSalt_def randomAlnum_def)

definition key_usable :: "EncryptOptions \<Rightarrow> bool" where
  "key_usable opts \<longleftrightarrow>
     (case ePublicKey opts of None \<Rightarrow> True
      | Some pk \<Rightarrow> checkPub pk = None \<and> odd (rN pk) \<and> 106 \<le> rsa_size (rN pk) \<and> rsa_size (rN pk) \<le> 49149)"

lemma wrapPublicKey_enough:
  assumes "key_usable opts" and "length key \<le> 64" and "20 + k \<le> length (rest r)"
  shows "\<exists>ct r'. wrapPublicKey (ePublicKey opts) key r = Inr (ct, r') \<and> k \<le> length (rest r')"
proof (cases "ePublicKey opts")
  case None
  with assms(3) show ?thesis by (simp add: wrapPublicKey_def)
next
  case (Some pk)
  from assms(3) read_full_enough obtain seed r' where
    "read_full 20 r = Inr (seed, r')" "k \<le> length (rest r')" by blast
  with Some assms(1,2) show ?thesis
    by (simp add: wrapPublicKey_def key_usable_def EncryptOAEP_def Let_def)
qed

lemma wrapPassword_total: "\<exists>k1. wrapPassword pw salt key = Inr k1"
  using evpKDF_lengths [of pw salt "if salt \<noteq> [] then 1000 else 1" 32 16]
  by (cases "evpKDF pw salt (if salt \<noteq> [] then 1000 else 1) 32 16")
    (auto simp: wrapPassword_def Let_def aes_new_cipher_def aes_key_ok_def split: if_splits)

lemma length_wire_key: "length sk = 32 \<Longrightarrow> length (wire_key major sk) \<le> 64"
  by (simp add: wire_key_def)

lemma hashPassword_enough:
  "5 + k \<le> length (rest r) \<Longrightarrow> \<exists>h r'. hashPassword pw r = Inr (h, r') \<and> k \<le> length (rest r')"
  using randomHex_enough [of k r] by (auto simp: hashPassword_def)

lemma prepareHeader_total:
  assumes "70 \<le> length (rest rnd)" and "key_usable opts"
  shows "\<exists>m sk. prepareHeader opts rnd = Inr (m, sk)"
proof -
  have "32 + 38 \<le> length (rest rnd)" using assms(1) by simp
  from read_full_enough [OF this] obtain sk r1 where r1: "read_full 32 rnd = Inr (sk, r1)" "8 + 30 \<le> length (rest r1)"
    by auto
  from makeSalt_enough [OF r1(2)] obtain salt r2 where
    r2: "makeSalt (opt_major opts) r1 = Inr (salt, r2)" "20 + 10 \<le> length (rest r2)" by fastforce
  let ?key = "wire_key (opt_major opts) sk"
  have "length ?key \<le> 64" using read_full_InrD [OF r1(1)] by (simp add: length_wire_key)
  from wrapPublicKey_enough [OF assms(2) this r2(2)] obtain k2 r3 where
    r3: "wrapPublicKey (ePublicKey opts) ?key r2 = Inr (k2, r3)" "5 + 5 \<le> length (rest r3)" by auto
  from hashPassword_enough [of "5 + 0" r3 "ePassword opts"] r3(2) obtain h1 r4 where
    r4: "hashPassword (ePassword opts) r3 = Inr (h1, r4)" "5 + 0 \<le> length (rest r4)" by auto
  from randomHex_enough [OF r4(2)] obtain h2 r5 where "hashSessionKey ?key r4 = Inr (h2, r5)"
    by (auto simp: hashSessionKey_def)
  moreover from wrapPassword_total obtain k1 where "wrapPassword (ePassword opts) salt ?key = Inr k1" by blast
  ultimately show ?thesis
    using r1(1) r2(1) r3(1) r4(1) unfolding prepareHeader_def Let_def wire_key_def by simp
qed

section \<open>The header fits the wire format\<close>

definition opts_encodable :: "EncryptOptions \<Rightarrow> bool" where
  "opts_encodable opts \<longleftrightarrow>
     (ePassword opts \<noteq> [] \<or> ePublicKey opts \<noteq> None) \<and> (opt_major opts = 1 \<or> opt_major opts = 3) \<and>
     0 \<le> sint (opt_minor opts) \<and> length (eFilename opts) \<le> 65535 \<and> key_usable opts"

lemma length_wrapPassword:
  assumes "wrapPassword pw salt key = Inr k1" and "length key \<le> 64"
  shows "length k1 \<le> 80"
proof (cases "pw = []")
  case False
  obtain k iv where kdf: "evpKDF pw salt (if salt \<noteq> [] then 1000 else 1) 32 16 = (k, iv)"
    by (cases "evpKDF pw salt (if salt \<noteq> [] then 1000 else 1) 32 16")
  then have len: "length k = 32" "length iv = 16" by (auto dest: evpKDF_lengths)
  then have "aes_new_cipher k = Inr k" and ok: "cbc_ok (new_cbc k iv)"
    by (simp_all add: aes_new_cipher_def aes_key_ok_def cbc_ok_def new_cbc_def)
  with assms(1) False kdf have "k1 = snd (cbc_crypt_encrypt (new_cbc k iv) (pkcs7Pad key 16))"
    by (simp add: wrapPassword_def Let_def)
  then have "length k1 = 16 * (length key div 16 + 1)"
    using cbc_crypt_encrypt_ok(2) [OF ok pkcs7Pad_aligned, of key]
    by (metis length_pkcs7Pad prod.collapse zero_less_numeral)
  moreover have "length key div 16 \<le> 64 div 16" by (rule div_le_mono [OF assms(2)])
  ultimately show ?thesis by simp
qed (use assms in \<open>simp add: wrapPassword_def\<close>)

lemma length_wrapPublicKey:
  assumes "wrapPublicKey (ePublicKey opts) key rnd = Inr (k2, rnd')" and "key_usable opts"
  shows "length k2 \<le> 49149"
proof (cases "ePublicKey opts")
  case None
  with assms(1) show ?thesis by (simp add: wrapPublicKey_def)
next
  case (Some pk)
  with assms(1) have "EncryptOAEP rnd pk key = Inr (k2, rnd')" by (auto simp: wrapPublicKey_def split: sum.splits)
  from EncryptOAEP_length [OF this] Some assms(2) show ?thesis by (simp add: key_usable_def)
qed

lemma length_b64_bound: "length b \<le> 49149 \<Longrightarrow> length (b64_encode b) \<le> 65535"
proof -
  assume "length b \<le> 49149"
  then have "(length b + 2) div 3 \<le> 49151 div 3" by (intro div_le_mono) simp
  then show ?thesis by (simp add: length_b64_encode)
qed

lemma prepared_total:
  assumes "opts_encodable opts" and "70 \<le> length (rest (opt_rand crand opts))"
  shows "\<exists>m sk. prepared crand opts m sk"
proof -
  from assms have ku: "key_usable opts" by (simp add: opts_encodable_def)
  from prepareHeader_total [OF assms(2) ku] obtain m sk where
    p: "prepareHeader opts (opt_rand crand opts) = Inr (m, sk)" by blast
  note h = prepareHeader_InrD [OF p]
  have key: "length (wire_key (opt_major opts) sk) \<le> 64" using h(1) by (rule length_wire_key)
  have "0 \<le> sint (lmajor m)" using assms(1) h(2) by (auto simp: opts_encodable_def)
  moreover have "0 \<le> sint (lcompress m)" "0 \<le> sint (lencrypt m)" using h(5,6) by (simp_all add: boolAsInt_def)
  moreover have "length (lsalt m) \<le> 65535" using h(7) by (auto split: if_splits)
  moreover have "length (b64_encode (lencKey1 m)) \<le> 65535"
    using length_wrapPassword [OF h(8) key] by (intro length_b64_bound) simp
  moreover have "length (b64_encode (lencKey2 m)) \<le> 65535"
    using h(9) length_wrapPublicKey [OF _ ku] by (intro length_b64_bound) blast
  moreover have "length (lkey1Hash m) \<le> 65535"
    using h(10) by (auto simp: length_saltedDigest split: if_splits)
  moreover have "length (lsessKeyHash m) \<le> 65535" using h(11) by (auto simp: length_saltedDigest)
  ultimately have "leading_ok m"
    using assms(1) h(3,4) by (simp add: leading_ok_def opts_encodable_def)
  with p show ?thesis by (auto simp: prepared_def)
qed

end
