(* ===== verification/EndToEnd.thy ===== *)
theory EndToEnd
  imports DecryptSafety EncryptTotal
begin

text \<open>
  \<open>Encrypt\<close> followed by \<open>Decrypt\<close>: the stream a successful run of the writer left on an empty \<open>out\<close> brings
  the decoder to its trailer. \<open>frame_writer\<close> and \<open>frame_reader\<close> are a minimal frame codec with the property
  asked of LZ4 (\<open>lz4_lossless\<close>), used to show that it can hold.
\<close>

definition trailer :: "bytes \<Rightarrow> bytes" where
  "trailer d = enc_value (VDict (final_members (hex_encode (md5 d))))"

definition writes :: "bytes list \<Rightarrow> bytes list" where
  "writes chunks = filter (\<lambda>c. c \<noteq> []) chunks"

text \<open>The codec is lossless where it is used.\<close>

definition codec_ok :: "'e lz_writer \<Rightarrow> 'd lz_reader \<Rightarrow> EncryptOptions \<Rightarrow> bool" where
  "codec_ok lzw lzr opts \<longleftrightarrow> (compressOn opts \<longrightarrow> lz4_lossless lzw lzr)"

text \<open>\<open>full_chunks\<close>: a compressed payload that ends exactly with a full data chunk.\<close>

definition full_chunks :: "'e lz_writer \<Rightarrow> EncryptOptions \<Rightarrow> bytes list \<Rightarrow> bool" where
  "full_chunks lzw opts chunks \<longleftrightarrow>
     compressOn opts \<and> length (lz_frame lzw (writes chunks)) mod dataChunkSize = 0"

lemma codec_decodes:
  "codec_ok lzw lzr opts \<Longrightarrow> decodes lzr (compressOn opts) (payload lzw opts (writes chunks)) (concat chunks)"
  by (simp add: codec_ok_def decodes_def payload_def lz4_lossless_def writes_def concat_nonempty)

lemma full_chunks_payload:
  "compressOn opts \<and> length (payload lzw opts (writes chunks)) mod dataChunkSize = 0 \<longleftrightarrow>
     full_chunks lzw opts chunks"
  by (auto simp: full_chunks_def payload_def)

lemma Encrypt_to_trailer:
  assumes enc: "Encrypt lzw crand chunks inEnd new_sink opts = (enc, None)"
    and sec: "secret_fits opts (oPassword opt) (oPrivateKey opt)"
    and cod: "codec_ok lzw lzr opts" and room: "room out = None"
    and pre: "written enc = pre @ trailer (concat chunks)"
  shows "\<exists>m sk. prepared crand opts m sk \<and>
    (\<forall>t e. \<exists>q. Decrypt lzr \<lparr>rest = pre @ t, rend = e\<rparr> out opt =
        decrypt_loop lzr opt (at_trailer m q out) \<lparr>rest = t, rend = e\<rparr> \<and>
      finishes lzr (compressOn opts) (payload lzw opts (writes chunks)) q out (concat chunks))"
proof -
  from Encrypt_stream(1) [OF enc] obtain m sk cs where p: "prepared crand opts m sk"
    and ch: "chunking cs" "concat cs = ciphertext sk (payload lzw opts (writes chunks))"
    and w: "written enc = csenc_stream m cs (concat chunks)" by (auto simp: writes_def)
  from w pre have "pre = leading_stream m @ data_stream cs" by (simp add: csenc_stream_def trailer_def)
  then have "\<exists>q. Decrypt lzr \<lparr>rest = pre @ t, rend = e\<rparr> out opt =
        decrypt_loop lzr opt (at_trailer m q out) \<lparr>rest = t, rend = e\<rparr> \<and>
      finishes lzr (compressOn opts) (payload lzw opts (writes chunks)) q out (concat chunks)" for t e
    using Decrypt_to_trailer [OF p sec ch codec_decodes [OF cod] room, of "\<lparr>rest = pre @ t, rend = e\<rparr>" t] by simp
  with p show ?thesis by blast
qed

text \<open>The result for every digest \<open>h\<close> recorded in the trailer.\<close>

lemma Decrypt_with_digest:
  assumes "Encrypt lzw crand chunks inEnd new_sink opts = (enc, None)"
    and "secret_fits opts (oPassword opt) (oPrivateKey opt)"
    and "codec_ok lzw lzr opts" and "room out = None"
    and "written enc = pre @ trailer (concat chunks)" and "length h \<le> 65535"
  shows "\<exists>m sk st. prepared crand opts m sk \<and>
    Decrypt lzr (reader_of (pre @ enc_value (VDict (final_members h)))) out opt =
      (st, if full_chunks lzw opts chunks then Some ErrClosedPipe
           else if h \<noteq> [] \<and> hex_encode (md5 (concat chunks)) \<noteq> h
           then Some (ErrPlaintextMD5 (hex_encode (md5 (concat chunks))) h) else None) \<and>
    written (dec_out st) = written out @ concat chunks \<and>
    d_meta st = (metadata_of m)\<lparr>mPlaintextMD5 := h\<rparr> \<and> d_snaps st = [metadata_of m] \<and> d_logs st = []"
proof -
  let ?t = "enc_value (VDict (final_members h))"
  from Encrypt_to_trailer [OF assms(1-5)] obtain m sk q where p: "prepared crand opts m sk"
    and D: "Decrypt lzr \<lparr>rest = pre @ ?t, rend = ErrEOF\<rparr> out opt =
        decrypt_loop lzr opt (at_trailer m q out) \<lparr>rest = ?t, rend = ErrEOF\<rparr>"
    and f: "finishes lzr (compressOn opts) (payload lzw opts (writes chunks)) q out (concat chunks)" by blast
  have "mDigest ((metadata_of m)\<lparr>mPlaintextMD5 := h\<rparr>) = ''md5''"
    "mPlaintextMD5 ((metadata_of m)\<lparr>mPlaintextMD5 := h\<rparr>) = h" by (simp_all add: metadata_of_def)
  from decrypt_end_digest [OF f this(2,1), of m, unfolded full_chunks_payload]
    decrypt_loop_digest [of "\<lparr>rest = ?t, rend = ErrEOF\<rparr>" h lzr opt m q out] assms(6)
  have "\<exists>st. Decrypt lzr (reader_of (pre @ ?t)) out opt =
      (st, if full_chunks lzw opts chunks then Some ErrClosedPipe
           else if h \<noteq> [] \<and> hex_encode (md5 (concat chunks)) \<noteq> h
           then Some (ErrPlaintextMD5 (hex_encode (md5 (concat chunks))) h) else None) \<and>
    written (dec_out st) = written out @ concat chunks \<and>
    d_meta st = (metadata_of m)\<lparr>mPlaintextMD5 := h\<rparr> \<and> d_snaps st = [metadata_of m] \<and> d_logs st = []"
    unfolding reader_of_def D by simp
  with p show ?thesis by blast
qed

text \<open>The result when the trailer is missing or cut off between its values.\<close>

lemma Decrypt_without_digest:
  assumes "Encrypt lzw crand chunks inEnd new_sink opts = (enc, None)"
    and "secret_fits opts (oPassword opt) (oPrivateKey opt)"
    and "codec_ok lzw lzr opts" and "room out = None"
    and "written enc = pre @ trailer (concat chunks)"
    and "t = [] \<or> (\<exists>ms. list_all wf_pair ms \<and> t = tagDict # concat (map enc_pair ms))"
  shows "\<exists>m sk st. prepared crand opts m sk \<and>
    Decrypt lzr (reader_of (pre @ t)) out opt =
      (st, if full_chunks lzw opts chunks then Some ErrClosedPipe else None) \<and>
    written (dec_out st) = written out @ concat chunks \<and> d_meta st = metadata_of m"
proof -
  from Encrypt_to_trailer [OF assms(1-5)] obtain m sk q where p: "prepared crand opts m sk"
    and D: "Decrypt lzr \<lparr>rest = pre @ t, rend = ErrEOF\<rparr> out opt =
        decrypt_loop lzr opt (at_trailer m q out) \<lparr>rest = t, rend = ErrEOF\<rparr>"
    and f: "finishes lzr (compressOn opts) (payload lzw opts (writes chunks)) q out (concat chunks)" by blast
  have st: "(at_trailer m q out)\<lparr>d_meta := metadata_of m\<rparr> = at_trailer m q out" by (simp add: at_trailer_def)
  have "mPlaintextMD5 (metadata_of m) = []" "mDigest (metadata_of m) = ''md5''"
    by (simp_all add: metadata_of_def)
  from decrypt_end_digest [OF f this, of m, unfolded full_chunks_payload st]
    decrypt_loop_cut [of "\<lparr>rest = t, rend = ErrEOF\<rparr>" lzr opt "at_trailer m q out"] assms(6)
  have "\<exists>st. Decrypt lzr (reader_of (pre @ t)) out opt =
      (st, if full_chunks lzw opts chunks then Some ErrClosedPipe else None) \<and>
    written (dec_out st) = written out @ concat chunks \<and> d_meta st = metadata_of m"
    unfolding reader_of_def D by auto
  with p show ?thesis by blast
qed

text \<open>Without compression the stream does not depend on how the input was split into reads.\<close>

lemma encrypt_same_stream:
  assumes "Encrypt lzw crand cs1 e1 new_sink opts = (o1, None)"
    and "Encrypt lzw crand cs2 e2 new_sink opts = (o2, None)"
    and "\<not> compressOn opts" and "concat cs1 = concat cs2"
  shows "written o1 = written o2"
proof -
  from Encrypt_stream(1) [OF assms(1)] obtain m1 sk1 ds1 where 1: "prepared crand opts m1 sk1"
    "concat ds1 = ciphertext sk1 (payload lzw opts (filter (\<lambda>c. c \<noteq> []) cs1))" "chunking ds1"
    "written o1 = csenc_stream m1 ds1 (concat cs1)" by auto
  from Encrypt_stream(1) [OF assms(2)] obtain m2 sk2 ds2 where 2: "prepared crand opts m2 sk2"
    "concat ds2 = ciphertext sk2 (payload lzw opts (filter (\<lambda>c. c \<noteq> []) cs2))" "chunking ds2"
    "written o2 = csenc_stream m2 ds2 (concat cs2)" by auto
  from 1(1) 2(1) have "m1 = m2" "sk1 = sk2" by (simp_all add: prepared_def)
  moreover have "concat ds1 = concat ds2"
    using 1(2) 2(2) \<open>sk1 = sk2\<close> assms(3,4) by (simp add: payload_def concat_nonempty)
  ultimately show ?thesis using 1(3,4) 2(3,4) chunking_unique assms(4) by auto
qed

section \<open>A codec with the property\<close>

definition frame_writer :: "unit lz_writer" where
  "frame_writer = \<lparr>lzw_new = (), lzw_write = (\<lambda>z p. ((), concat (map (\<lambda>b. [1, b]) p))),
     lzw_close = (\<lambda>z. [0, 0])\<rparr>"

definition frame_reader :: "byte option lz_reader" where
  "frame_reader = \<lparr>lzr_init = None,
     lzr_step = (\<lambda>s b. case s of None \<Rightarrow> (Some b, [], None)
       | Some tag \<Rightarrow> if tag = 0 then (None, [], Some None) else (None, [b], None)),
     lzr_end = (\<lambda>s e. Some (case e of None \<Rightarrow> ErrUnexpectedEOF | Some e \<Rightarrow> e))\<rparr>"

lemma frame_writer_frame: "lz_frame frame_writer bs = concat (map (\<lambda>b. [1, b]) (concat bs)) @ [0, 0]"
proof -
  have "lz_run frame_writer z bs = ((), concat (map (\<lambda>b. [1, b]) (concat bs)))" for z
    by (induction bs arbitrary: z) (simp_all add: frame_writer_def)
  then show ?thesis by (simp add: lz_frame_def) (simp add: frame_writer_def)
qed

lemma frame_lossless: "lz4_lossless frame_writer frame_reader"
proof -
  have "lzr_run frame_reader None (concat (map (\<lambda>b. [1, b]) d) @ [0, 0]) = Some (d, Inr None)" for d
    by (induction d) (simp_all add: frame_reader_def)
  moreover have "lzr_init frame_reader = None" by (simp add: frame_reader_def)
  ultimately show ?thesis by (simp add: lz4_lossless_def frame_writer_frame)
qed

lemma length_frame: "length (lz_frame frame_writer bs) = 2 * length (concat bs) + 2"
proof -
  have "length (concat (map (\<lambda>b. [1, b]) d)) = 2 * length d" for d :: bytes
    by (induction d) simp_all
  then show ?thesis by (simp add: frame_writer_frame)
qed

section \<open>A sample run\<close>

definition sample_opts :: "bool \<Rightarrow> EncryptOptions" where
  "sample_opts cmpr =
     \<lparr>ePassword = bytes_of_string ''secret'', ePublicKey = None, eMajor = 0, eMinor = 0,
      eFilename = ''a.txt'', eCompress = Some cmpr, eRand = Some (reader_of (map word_of_nat [0..<70]))\<rparr>"

definition sample_secret :: DecryptOptions where
  "sample_secret = \<lparr>oPassword = Some (bytes_of_string ''secret''), oPrivateKey = None\<rparr>"

lemma sample_encodable:
  "opts_encodable (sample_opts cmpr)" "70 \<le> length (rest (opt_rand r (sample_opts cmpr)))"
  by (simp_all add: opts_encodable_def sample_opts_def opt_major_def opt_minor_def key_usable_def
      opt_rand_def)

lemma sample_fits: "secret_fits (sample_opts cmpr) (oPassword sample_secret) (oPrivateKey sample_secret)"
  by (simp add: secret_fits_def sample_opts_def sample_secret_def)

lemma sample_codec: "codec_ok frame_writer frame_reader (sample_opts cmpr)"
  by (simp add: codec_ok_def frame_lossless)

lemma compressOn_sample [simp]: "compressOn (sample_opts cmpr) = cmpr"
  by (simp add: compressOn_def sample_opts_def)

lemma sample_Encrypt:
  "\<exists>enc pre. Encrypt frame_writer crand chunks ErrEOF new_sink (sample_opts cmpr) = (enc, None) \<and>
     written enc = pre @ trailer (concat chunks)"
proof -
  from prepared_total [OF sample_encodable, of crand cmpr] obtain m sk where
    "prepared crand (sample_opts cmpr) m sk" by blast
  from Encrypt_succeeds [OF _ _ _ this, of new_sink frame_writer chunks] sample_encodable(1) [of cmpr]
  obtain enc where enc: "Encrypt frame_writer crand chunks ErrEOF new_sink (sample_opts cmpr) = (enc, None)"
    by (auto simp: opts_encodable_def)
  from Encrypt_stream(1) [OF this] obtain m cs where "written enc = csenc_stream m cs (concat chunks)" by auto
  then have "written enc = (leading_stream m @ data_stream cs) @ trailer (concat chunks)"
    by (simp add: csenc_stream_def trailer_def)
  with enc show ?thesis by blast
qed

end
