(* ===== verification/Paths.thy ===== *)
theory Paths
  imports Prelude "HOL-Library.Char_ord" "HOL-Library.List_Lexorder" "HOL-Library.Sublist"
begin

text \<open>
  Package \<open>path/filepath\<close> on Unix, as far as the repository uses it: \<open>Clean\<close>, \<open>Join\<close>, \<open>Dir\<close>, \<open>Base\<close>, \<open>Rel\<close>.
  A cleaned path is determined by its \<open>pkey\<close>: whether it is rooted, and its elements; a key is proper
  (\<open>key_ok\<close>) when only leading elements of an unrooted one are \<open>..\<close>.
\<close>

type_synonym path = string
type_synonym pkey = "bool \<times> string list"

section \<open>Splitting and joining\<close>

fun split_slash :: "string \<Rightarrow> string list" where
  "split_slash [] = [[]]"
| "split_slash (c # s) =
     (if c = CHR ''/'' then [] # split_slash s
      else (case split_slash s of [] \<Rightarrow> [[c]] | x # xs \<Rightarrow> (c # x) # xs))"

fun join_slash :: "string list \<Rightarrow> string" where
  "join_slash [] = []"
| "join_slash [x] = x"
| "join_slash (x # y # xs) = x @ CHR ''/'' # join_slash (y # xs)"

definition rooted :: "path \<Rightarrow> bool" where
  "rooted p = (case p of [] \<Rightarrow> False | c # s \<Rightarrow> c = CHR ''/'')"

text \<open>One element of the path onto the stack of elements kept so far (last element first).\<close>

definition push_elem :: "bool \<Rightarrow> string list \<Rightarrow> string \<Rightarrow> string list" where
  "push_elem r st x =
     (if x = [] \<or> x = ''.'' then st
      else if x = ''..''
      then (case st of
              [] \<Rightarrow> if r then [] else [''..'']
            | y # ys \<Rightarrow> if y = ''..'' then ''..'' # st else ys)
      else x # st)"

definition key_of :: "path \<Rightarrow> pkey" where
  "key_of p = (rooted p, rev (foldl (push_elem (rooted p)) [] (split_slash p)))"

definition path_of :: "pkey \<Rightarrow> path" where
  "path_of k =
     (case k of
        (True, cs) \<Rightarrow> CHR ''/'' # join_slash cs
      | (False, []) \<Rightarrow> ''.''
      | (False, cs) \<Rightarrow> join_slash cs)"

definition Clean :: "path \<Rightarrow> path" where
  "Clean p = path_of (key_of p)"

fun Join :: "path list \<Rightarrow> path" where
  "Join [] = []"
| "Join (e # es) = (if e = [] then Join es else Clean (join_slash (e # es)))"

definition strip_slashes :: "path \<Rightarrow> path" where
  "strip_slashes p = rev (dropWhile (\<lambda>c. c = CHR ''/'') (rev p))"

definition Base :: "path \<Rightarrow> path" where
  "Base p =
     (if p = [] then ''.''
      else let b = last (split_slash (strip_slashes p)) in if b = [] then ''/'' else b)"

definition upto_slash :: "path \<Rightarrow> path" where
  "upto_slash p = rev (dropWhile (\<lambda>c. c \<noteq> CHR ''/'') (rev p))"

definition Dir :: "path \<Rightarrow> path" where
  "Dir p = Clean (upto_slash p)"

fun strip_common :: "string list \<Rightarrow> string list \<Rightarrow> string list \<times> string list" where
  "strip_common (x # xs) (y # ys) = (if x = y then strip_common xs ys else (x # xs, y # ys))"
| "strip_common xs ys = (xs, ys)"

definition Rel :: "path \<Rightarrow> path \<Rightarrow> error + path" where
  "Rel base targ =
     (case (key_of base, key_of targ) of
        ((rb, bs), (rt, ts)) \<Rightarrow>
          if rb \<noteq> rt then Inl (ErrExternal ''Rel'')
          else if bs = ts then Inr ''.''
          else
            (case strip_common bs ts of
               (bs', ts') \<Rightarrow>
                 if bs' \<noteq> [] \<and> hd bs' = ''..'' then Inl (ErrExternal ''Rel'')
                 else Inr (join_slash (replicate (length bs') ''..'' @ ts'))))"

section \<open>Elements and keys\<close>

definition elem_ok :: "string \<Rightarrow> bool" where
  "elem_ok x \<longleftrightarrow> x \<noteq> [] \<and> x \<noteq> ''.'' \<and> CHR ''/'' \<notin> set x"

definition plain :: "string \<Rightarrow> bool" where
  "plain x \<longleftrightarrow> elem_ok x \<and> x \<noteq> ''..''"

text \<open>Elements of a cleaned path: no \<open>..\<close> after another element, and none at all when rooted.\<close>

definition key_ok :: "pkey \<Rightarrow> bool" where
  "key_ok k \<longleftrightarrow>
     (case k of (r, cs) \<Rightarrow>
        list_all plain (dropWhile (\<lambda>x. x = ''..'') cs) \<and> (r \<longrightarrow> list_all plain cs))"

lemma split_slash_not_Nil [simp]: "split_slash s \<noteq> []"
  by (induction s) (auto split: list.splits)

lemma split_slash_elem: "CHR ''/'' \<notin> set x \<Longrightarrow> split_slash x = [x]"
  by (induction x) auto

lemma split_slash_append:
  "CHR ''/'' \<notin> set x \<Longrightarrow> split_slash (x @ CHR ''/'' # s) = x # split_slash s"
  by (induction x) (auto split: list.splits)

lemma split_join: "cs \<noteq> [] \<Longrightarrow> list_all (\<lambda>x. CHR ''/'' \<notin> set x) cs \<Longrightarrow> split_slash (join_slash cs) = cs"
  by (induction cs rule: join_slash.induct) (simp_all add: split_slash_elem split_slash_append)

lemma split_slash_elems: "list_all (\<lambda>x. CHR ''/'' \<notin> set x) (split_slash s)"
  by (induction s) (auto split: list.splits)

lemma split_join_append:
  "xs \<noteq> [] \<Longrightarrow> split_slash (join_slash xs) = concat (map split_slash xs)"
proof (induction xs rule: join_slash.induct)
  case (3 x y xs)
  have "split_slash (a @ CHR ''/'' # s) = split_slash a @ split_slash s" for a s
    by (induction a) (auto split: list.splits)
  with 3 show ?case by simp
qed simp_all

lemma foldl_push_ignore: "x = [] \<or> x = ''.'' \<Longrightarrow> push_elem r st x = st"
  by (auto simp: push_elem_def)

lemma foldl_push_plain:
  "list_all plain xs \<Longrightarrow> foldl (push_elem r) st xs = rev xs @ st"
  by (induction xs arbitrary: st) (auto simp: push_elem_def plain_def elem_ok_def)

lemma key_ok_iff:
  "key_ok (r, cs) \<longleftrightarrow> (\<exists>n xs. cs = replicate n ''..'' @ xs \<and> list_all plain xs \<and> (r \<longrightarrow> n = 0))"
proof
  assume k: "key_ok (r, cs)"
  have "takeWhile (\<lambda>x. x = ''..'') cs = replicate (length (takeWhile (\<lambda>x. x = ''..'') cs)) ''..''"
    by (rule replicate_length_same [symmetric]) (auto dest: set_takeWhileD)
  moreover have "r \<longrightarrow> takeWhile (\<lambda>x. x = ''..'') cs = []"
    using k by (cases cs) (auto simp: key_ok_def plain_def)
  ultimately show "\<exists>n xs. cs = replicate n ''..'' @ xs \<and> list_all plain xs \<and> (r \<longrightarrow> n = 0)"
    using k by (intro exI [of _ "length (takeWhile (\<lambda>x. x = ''..'') cs)"]
        exI [of _ "dropWhile (\<lambda>x. x = ''..'') cs"]) (simp add: key_ok_def)
next
  assume "\<exists>n xs. cs = replicate n ''..'' @ xs \<and> list_all plain xs \<and> (r \<longrightarrow> n = 0)"
  then obtain n xs where cs: "cs = replicate n ''..'' @ xs" "list_all plain xs" "r \<longrightarrow> n = 0" by blast
  have "dropWhile (\<lambda>x. x = ''..'') (replicate n ''..'' @ xs) = xs"
    using cs(2) by (induction n) (cases xs; simp add: plain_def)+
  with cs show "key_ok (r, cs)" by (auto simp: key_ok_def)
qed

lemma push_elem_ok:
  assumes "key_ok (r, rev st)" and "CHR ''/'' \<notin> set x"
  shows "key_ok (r, rev (push_elem r st x))"
proof -
  from assms(1) obtain n xs where st: "rev st = replicate n ''..'' @ xs" "list_all plain xs" "r \<longrightarrow> n = 0"
    by (auto simp: key_ok_iff)
  consider (skip) "x = [] \<or> x = ''.''" | (up) "x = ''..''" | (keep) "plain x"
    using assms(2) by (auto simp: plain_def elem_ok_def)
  then show ?thesis
  proof cases
    case skip
    with assms(1) show ?thesis by (auto simp: push_elem_def)
  next
    case up
    show ?thesis
    proof (cases xs rule: rev_cases)
      case Nil
      with st(1) have st': "st = replicate n ''..''" by (metis append_Nil2 rev_replicate rev_rev_ident)
      have "key_ok (r, rev (''..'' # replicate n ''..''))" if "\<not> r"
        using that unfolding key_ok_iff
        by (intro exI [of _ "Suc n"] exI [of _ "[]"]) (simp add: replicate_append_same)
      moreover have "key_ok (r, [])" by (simp add: key_ok_def)
      ultimately show ?thesis using st(3) by (cases n) (auto simp: push_elem_def up st')
    next
      case (snoc ys y)
      with st have "st = y # rev (replicate n ''..'' @ ys)" by (metis append_assoc rev_rev_ident rev.simps(2) rev_swap)
      with snoc st(2,3) show ?thesis
        by (auto simp: push_elem_def up plain_def [of y] key_ok_iff simp del: rev_append)
    qed
  next
    case keep
    then have "rev (push_elem r st x) = replicate n ''..'' @ (xs @ [x])"
      by (auto simp: push_elem_def plain_def elem_ok_def st(1))
    with st(2,3) keep show ?thesis by (auto simp: key_ok_iff intro!: exI [of _ n] exI [of _ "xs @ [x]"])
  qed
qed

lemma key_of_ok: "key_ok (key_of p)"
proof -
  have "key_ok (r, rev st) \<Longrightarrow> list_all (\<lambda>x. CHR ''/'' \<notin> set x) xs \<Longrightarrow> key_ok (r, rev (foldl (push_elem r) st xs))"
    for r st xs
    by (induction xs arbitrary: st) (simp_all add: push_elem_ok)
  moreover have "key_ok (rooted p, rev [])" by (simp add: key_ok_def)
  ultimately show ?thesis by (simp only: key_of_def split_slash_elems)
qed

lemma foldl_push_ups: "foldl (push_elem False) (replicate m ''..'') (replicate n ''..'') = replicate (m + n) ''..''"
proof (induction n arbitrary: m)
  case (Suc n)
  have "push_elem False (replicate m ''..'') ''..'' = replicate (Suc m) ''..''"
    by (cases m) (simp_all add: push_elem_def)
  with Suc [of "Suc m"] show ?case by simp
qed simp

lemma foldl_push_key:
  assumes "key_ok (r, cs)" shows "foldl (push_elem r) [] cs = rev cs"
proof -
  from assms obtain n xs where cs: "cs = replicate n ''..'' @ xs" "list_all plain xs" "r \<longrightarrow> n = 0"
    by (auto simp: key_ok_iff)
  have "foldl (push_elem r) [] (replicate n ''..'') = replicate n ''..''"
    using foldl_push_ups [of 0 n] cs(3) by (cases r) simp_all
  with cs show ?thesis by (simp add: foldl_push_plain)
qed

lemma key_ok_no_slash: "key_ok (r, cs) \<Longrightarrow> list_all (\<lambda>x. x \<noteq> [] \<and> CHR ''/'' \<notin> set x) cs"
proof -
  assume "key_ok (r, cs)"
  then obtain n xs where cs: "cs = replicate n ''..'' @ xs" "list_all plain xs" by (auto simp: key_ok_iff)
  have "plain x \<Longrightarrow> x \<noteq> [] \<and> CHR ''/'' \<notin> set x" for x by (simp add: plain_def elem_ok_def)
  with cs show ?thesis unfolding list_all_iff by auto
qed

lemma rooted_join: "cs \<noteq> [] \<Longrightarrow> hd cs \<noteq> [] \<Longrightarrow> rooted (join_slash cs) \<longleftrightarrow> hd (hd cs) = CHR ''/''"
proof (cases cs rule: join_slash.cases)
  case (2 x)
  assume "hd cs \<noteq> []"
  with 2 show ?thesis by (cases x) (simp_all add: rooted_def)
next
  case (3 x y xs)
  assume "hd cs \<noteq> []"
  with 3 show ?thesis by (cases x) (simp_all add: rooted_def)
qed simp

lemma rooted_path_of: "key_ok (r, cs) \<Longrightarrow> rooted (path_of (r, cs)) = r"
proof (cases "r \<or> cs = []")
  case True
  then show ?thesis by (cases cs) (auto simp: path_of_def rooted_def split: bool.splits)
next
  case False
  assume "key_ok (r, cs)"
  from key_ok_no_slash [OF this] False obtain x xs where cs: "cs = x # xs" "x \<noteq> []" "CHR ''/'' \<notin> set x"
    by (cases cs) auto
  then obtain a as where x: "x = a # as" "a \<noteq> CHR ''/''" by (cases x) auto
  then have "hd cs \<noteq> []" "hd (hd cs) \<noteq> CHR ''/''" by (simp_all add: cs(1))
  with cs(1) rooted_join [of cs] have "\<not> rooted (join_slash cs)" by simp
  moreover have "path_of (r, cs) = join_slash cs" using False cs(1) by (simp add: path_of_def)
  ultimately show ?thesis using False by simp
qed

lemma key_of_path_of:
  assumes "key_ok k" shows "key_of (path_of k) = k"
proof -
  obtain r cs where k: "k = (r, cs)" by (cases k)
  have ns: "list_all (\<lambda>x. CHR ''/'' \<notin> set x) cs"
    using key_ok_no_slash [of r cs] assms k by (auto simp: list_all_iff)
  consider (root) "r" | (dot) "\<not> r" "cs = []" | (rel) "\<not> r" "cs \<noteq> []" by blast
  then show ?thesis
  proof cases
    case root
    have "foldl (push_elem True) [] (split_slash (join_slash cs)) = rev cs"
    proof (cases "cs = []")
      case False
      with ns root assms k show ?thesis by (simp add: split_join foldl_push_key)
    qed (simp add: push_elem_def)
    with root k show ?thesis by (simp add: path_of_def key_of_def rooted_def push_elem_def)
  next
    case dot
    with k show ?thesis by (simp add: path_of_def key_of_def rooted_def push_elem_def)
  next
    case rel
    with assms k rooted_path_of [of r cs] have "rooted (path_of k) = False" by simp
    moreover have "path_of k = join_slash cs" using rel k by (cases cs) (simp_all add: path_of_def)
    ultimately show ?thesis
      using rel ns assms k by (simp add: key_of_def split_join foldl_push_key)
  qed
qed

lemma key_of_Clean [simp]: "key_of (Clean p) = key_of p"
  by (simp add: Clean_def key_of_path_of key_of_ok)

lemma Clean_Clean: "Clean (Clean p) = Clean p"
  by (simp add: Clean_def key_of_path_of key_of_ok)

lemma key_ok_append: "key_ok (r, cs) \<Longrightarrow> list_all plain ns \<Longrightarrow> key_ok (r, cs @ ns)"
proof -
  assume a: "key_ok (r, cs)" "list_all plain ns"
  then obtain n xs where "cs = replicate n ''..'' @ xs" "list_all plain xs" "r \<longrightarrow> n = 0" by (auto simp: key_ok_iff)
  with a(2) show ?thesis unfolding key_ok_iff by (intro exI [of _ n] exI [of _ "xs @ ns"]) simp
qed

section \<open>Relative paths\<close>

lemma strip_common_append [simp]: "strip_common cs (cs @ ns) = ([], ns)"
  by (induction cs) (cases ns, simp_all)

lemma Rel_below:
  assumes "key_of root = (r, cs)" and "list_all plain ns" and "ns \<noteq> []"
  shows "Rel root (path_of (r, cs @ ns)) = Inr (join_slash ns)"
  using assms key_of_ok [of root]
  by (simp add: Rel_def key_of_path_of key_ok_append)

lemma Rel_self: "key_of root = (r, cs) \<Longrightarrow> Rel root (path_of (r, cs)) = Inr ''.''"
  using key_of_ok [of root] by (simp add: Rel_def key_of_path_of)

end
