(* ===== verification/FileSys.thy ===== *)
theory FileSys
  imports Paths GoIO "HOL-Library.AList"
begin

text \<open>
  The part of package \<open>os\<close> the repository uses, on a file system without links and permissions.

  \<^item> A \<open>fsys\<close> holds the nodes by their resolved key (the elements from the root), the working directory,
    the clock, the numbers \<open>CreateTemp\<close> draws, and what goes wrong: \<open>fs_fault\<close> gives the error of a call,
    \<open>fs_part\<close> the entries a failing \<open>ReadDir\<close> has got all the same, \<open>fs_rfault\<close> after how many bytes reading a
    file fails, \<open>fs_room\<close> how much a file takes before a write fails. All theorems hold for any faults unless they say otherwise.
  \<^item> Paths are resolved lexically against the working directory (\<open>fs_key\<close>), as the kernel does where no
    links are involved and the directories on the way exist.
  \<^item> Each call is one atomic step. An opened file is the content at that moment: the code never writes
    into a file other than its own temporary one, and a rename leaves an open file alone.
\<close>

type_synonym fkey = "string list"

datatype node =
    FileNode (content: bytes) (modtime: int)
  | DirNode

datatype oscall =
    CallOpen fkey
  | CallStat fkey
  | CallMkdir fkey
  | CallTemp fkey
  | CallClose fkey
  | CallRename fkey
  | CallRemove fkey
  | CallChtimes fkey
  | CallReadDir fkey
  | CallInfo fkey

record fsys =
  fs_nodes :: "(fkey \<times> node) list"
  fs_cwd :: fkey
  fs_clock :: int
  fs_rand :: "nat list"
  fs_fault :: "oscall \<Rightarrow> error option"
  fs_part :: "fkey \<Rightarrow> string \<Rightarrow> bool"
  fs_rfault :: "fkey \<Rightarrow> (nat \<times> error) option"
  fs_room :: "fkey \<Rightarrow> (nat \<times> error) option"

record FileInfo =
  fi_isdir :: bool
  fi_size :: int64
  fi_mtime :: int

abbreviation ENOENT :: error where "ENOENT \<equiv> ErrExternal ''no such file or directory''"
abbreviation ENOTDIR :: error where "ENOTDIR \<equiv> ErrExternal ''not a directory''"
abbreviation EISDIR :: error where "EISDIR \<equiv> ErrExternal ''is a directory''"
abbreviation EEXIST :: error where "EEXIST \<equiv> ErrExternal ''file exists''"
abbreviation ENOTEMPTY :: error where "ENOTEMPTY \<equiv> ErrExternal ''directory not empty''"

section \<open>Nodes\<close>

definition node_at :: "fsys \<Rightarrow> fkey \<Rightarrow> node option" where
  "node_at fs k = (if k = [] then Some DirNode else map_of (fs_nodes fs) k)"

definition put_node :: "fkey \<Rightarrow> node \<Rightarrow> fsys \<Rightarrow> fsys" where
  "put_node k n fs = fs\<lparr>fs_nodes := AList.update k n (fs_nodes fs)\<rparr>"

definition del_node :: "fkey \<Rightarrow> fsys \<Rightarrow> fsys" where
  "del_node k fs = fs\<lparr>fs_nodes := AList.delete k (fs_nodes fs)\<rparr>"

definition names_in :: "fsys \<Rightarrow> fkey \<Rightarrow> string list" where
  "names_in fs k =
     sort (remdups (map last (filter (\<lambda>c. c \<noteq> [] \<and> butlast c = k) (map fst (fs_nodes fs)))))"

definition fs_key :: "fsys \<Rightarrow> path \<Rightarrow> fkey" where
  "fs_key fs p =
     rev (foldl (push_elem True) (if rooted p then [] else rev (fs_cwd fs)) (split_slash p))"

text \<open>The directories above every node are there, and names are names.\<close>

definition fs_wf :: "fsys \<Rightarrow> bool" where
  "fs_wf fs \<longleftrightarrow> list_all plain (fs_cwd fs) \<and>
     (\<forall>k x. node_at fs (k @ [x]) \<noteq> None \<longrightarrow> node_at fs k = Some DirNode \<and> plain x)"

text \<open>What no call changes: everything but the nodes and the random numbers still to come.\<close>

definition fs_conf :: "fsys \<Rightarrow> fsys" where
  "fs_conf fs = fs\<lparr>fs_nodes := [], fs_rand := []\<rparr>"

section \<open>System calls\<close>

definition os_Open :: "fsys \<Rightarrow> path \<Rightarrow> error + reader" where
  "os_Open fs p =
     (if p = [] then Inl ENOENT
      else let k = fs_key fs p in
        case fs_fault fs (CallOpen k) of
          Some e \<Rightarrow> Inl e
        | None \<Rightarrow>
            (case node_at fs k of
               None \<Rightarrow> Inl ENOENT
             | Some DirNode \<Rightarrow> Inr \<lparr>rest = [], rend = EISDIR\<rparr>
             | Some (FileNode c t) \<Rightarrow>
                 Inr (case fs_rfault fs k of
                        None \<Rightarrow> reader_of c
                      | Some (n, e) \<Rightarrow> \<lparr>rest = take n c, rend = e\<rparr>)))"

definition os_Stat :: "fsys \<Rightarrow> path \<Rightarrow> error + FileInfo" where
  "os_Stat fs p =
     (if p = [] then Inl ENOENT
      else let k = fs_key fs p in
        case fs_fault fs (CallStat k) of
          Some e \<Rightarrow> Inl e
        | None \<Rightarrow>
            (case node_at fs k of
               None \<Rightarrow> Inl ENOENT
             | Some DirNode \<Rightarrow> Inr \<lparr>fi_isdir = True, fi_size = 0, fi_mtime = 0\<rparr>
             | Some (FileNode c t) \<Rightarrow>
                 Inr \<lparr>fi_isdir = False, fi_size = word_of_nat (length c), fi_mtime = t\<rparr>))"

text \<open>\<open>Info\<close> of a directory entry.\<close>

definition os_Info :: "fsys \<Rightarrow> fkey \<Rightarrow> error + FileInfo" where
  "os_Info fs k =
     (case fs_fault fs (CallInfo k) of
        Some e \<Rightarrow> Inl e
      | None \<Rightarrow>
          (case node_at fs k of
             None \<Rightarrow> Inl ENOENT
           | Some DirNode \<Rightarrow> Inr \<lparr>fi_isdir = True, fi_size = 0, fi_mtime = 0\<rparr>
           | Some (FileNode c t) \<Rightarrow>
               Inr \<lparr>fi_isdir = False, fi_size = word_of_nat (length c), fi_mtime = t\<rparr>))"

text \<open>\<open>os.ReadFile\<close>: open and read to the end.\<close>

definition os_ReadFile :: "fsys \<Rightarrow> path \<Rightarrow> error + bytes" where
  "os_ReadFile fs p =
     (case os_Open fs p of
        Inl e \<Rightarrow> Inl e
      | Inr r \<Rightarrow> if rend r = ErrEOF then Inr (rest r) else Inl (rend r))"

text \<open>\<open>os.MkdirAll\<close>: the missing directories from the top down.\<close>

fun mkdir_from :: "fkey \<Rightarrow> string list \<Rightarrow> fsys \<Rightarrow> fsys \<times> error option" where
  "mkdir_from k [] fs = (fs, None)"
| "mkdir_from k (x # xs) fs =
     (case node_at fs (k @ [x]) of
        Some DirNode \<Rightarrow> mkdir_from (k @ [x]) xs fs
      | Some (FileNode c t) \<Rightarrow> (fs, Some ENOTDIR)
      | None \<Rightarrow>
          (case fs_fault fs (CallMkdir (k @ [x])) of
             Some e \<Rightarrow> (fs, Some e)
           | None \<Rightarrow> mkdir_from (k @ [x]) xs (put_node (k @ [x]) DirNode fs)))"

definition os_MkdirAll :: "path \<Rightarrow> fsys \<Rightarrow> fsys \<times> error option" where
  "os_MkdirAll p fs = mkdir_from [] (fs_key fs p) fs"

fun dec_digits :: "nat \<Rightarrow> string" where
  "dec_digits n =
     (if n < 10 then [char_of (48 + n)] else dec_digits (n div 10) @ [char_of (48 + n mod 10)])"

declare dec_digits.simps [simp del]

text \<open>
  \<open>os.CreateTemp(dir, pat + "*")\<close>: random numbers are drawn until the name is free, at most 10000 times; the
  file is created empty. The result is the key of the new file, which its \<open>Name()\<close> resolves to.
\<close>

fun draw :: "nat \<Rightarrow> (nat \<Rightarrow> bool) \<Rightarrow> nat list \<Rightarrow> (nat \<times> nat list) option" where
  "draw (Suc t) free (n # ns) = (if free n then Some (n, ns) else draw t free ns)"
| "draw t free ns = None"

definition os_CreateTemp :: "path \<Rightarrow> string \<Rightarrow> fsys \<Rightarrow> error + (fkey \<times> fsys)" where
  "os_CreateTemp dir pat fs =
     (let d = fs_key fs dir in
      case fs_fault fs (CallTemp d) of
        Some e \<Rightarrow> Inl e
      | None \<Rightarrow>
          if node_at fs d \<noteq> Some DirNode then Inl (if node_at fs d = None then ENOENT else ENOTDIR)
          else
            (case draw 10000 (\<lambda>n. node_at fs (d @ [pat @ dec_digits n]) = None) (fs_rand fs) of
               None \<Rightarrow> Inl EEXIST
             | Some (n, ns) \<Rightarrow>
                 let k = d @ [pat @ dec_digits n]
                 in Inr (k, put_node k (FileNode [] (fs_clock fs)) (fs\<lparr>fs_rand := ns\<rparr>))))"

text \<open>The temporary file as the writer \<open>Decrypt\<close> and \<open>Encrypt\<close> get, and what it holds afterwards.\<close>

definition temp_sink :: "fsys \<Rightarrow> fkey \<Rightarrow> sink" where
  "temp_sink fs k = \<lparr>written = [], room = fs_room fs k\<rparr>"

definition temp_store :: "fkey \<Rightarrow> sink \<Rightarrow> fsys \<Rightarrow> fsys" where
  "temp_store k s fs = put_node k (FileNode (written s) (fs_clock fs)) fs"

definition os_Close :: "fkey \<Rightarrow> fsys \<Rightarrow> error option" where
  "os_Close k fs = fs_fault fs (CallClose k)"

text \<open>\<open>os.Rename\<close> of a file (the code renames nothing else).\<close>

definition os_Rename :: "fkey \<Rightarrow> path \<Rightarrow> fsys \<Rightarrow> fsys \<times> error option" where
  "os_Rename k p fs =
     (if p = [] then (fs, Some ENOENT)
      else let k' = fs_key fs p in
        case fs_fault fs (CallRename k') of
          Some e \<Rightarrow> (fs, Some e)
        | None \<Rightarrow>
            if node_at fs k' = Some DirNode then (fs, Some EEXIST)
            else
              (case node_at fs k of
                 Some (FileNode c t) \<Rightarrow>
                   if node_at fs (butlast k') \<noteq> Some DirNode then (fs, Some ENOENT)
                   else (put_node k' (FileNode c t) (del_node k fs), None)
               | _ \<Rightarrow> (fs, Some ENOENT)))"

definition os_Remove :: "fkey \<Rightarrow> fsys \<Rightarrow> fsys \<times> error option" where
  "os_Remove k fs =
     (case fs_fault fs (CallRemove k) of
        Some e \<Rightarrow> (fs, Some e)
      | None \<Rightarrow>
          (case node_at fs k of
             None \<Rightarrow> (fs, Some ENOENT)
           | Some DirNode \<Rightarrow>
               if k = [] \<or> names_in fs k \<noteq> [] then (fs, Some ENOTEMPTY) else (del_node k fs, None)
           | Some (FileNode c t) \<Rightarrow> (del_node k fs, None)))"

definition os_Chtimes :: "path \<Rightarrow> int \<Rightarrow> fsys \<Rightarrow> fsys \<times> error option" where
  "os_Chtimes p t fs =
     (let k = fs_key fs p in
      case fs_fault fs (CallChtimes k) of
        Some e \<Rightarrow> (fs, Some e)
      | None \<Rightarrow>
          (case node_at fs k of
             Some (FileNode c t') \<Rightarrow> (put_node k (FileNode c t) fs, None)
           | Some DirNode \<Rightarrow> (fs, None)
           | None \<Rightarrow> (fs, Some ENOENT)))"

section \<open>Lookups\<close>

lemma node_at_Nil [simp]: "node_at fs [] = Some DirNode"
  by (simp add: node_at_def)

lemma node_at_put [simp]: "k \<noteq> [] \<Longrightarrow> node_at (put_node k n fs) k' = (if k' = k then Some n else node_at fs k')"
  by (simp add: node_at_def put_node_def update_conv')

lemma node_at_del [simp]: "k \<noteq> [] \<Longrightarrow> node_at (del_node k fs) k' = (if k' = k then None else node_at fs k')"
  by (simp add: node_at_def del_node_def delete_conv')

lemma fs_conf_put [simp]: "fs_conf (put_node k n fs) = fs_conf fs" "fs_conf (del_node k fs) = fs_conf fs"
  by (simp_all add: fs_conf_def put_node_def del_node_def)

lemma fs_confD:
  assumes "fs_conf fs = fs_conf fs'"
  shows "fs_cwd fs = fs_cwd fs'" "fs_clock fs = fs_clock fs'"
    "fs_fault fs = fs_fault fs'" "fs_rfault fs = fs_rfault fs'" "fs_room fs = fs_room fs'"
    "fs_key fs p = fs_key fs' p"
  using assms by (cases fs; cases fs'; simp add: fs_conf_def fs_key_def)+

lemma fs_cwd_put [simp]: "fs_cwd (put_node k n fs) = fs_cwd fs" "fs_cwd (del_node k fs) = fs_cwd fs"
  by (simp_all add: put_node_def del_node_def)

lemma fs_rand_put [simp]: "fs_rand (put_node k n fs) = fs_rand fs" "fs_rand (del_node k fs) = fs_rand fs"
  by (simp_all add: put_node_def del_node_def)

lemma fs_rand_update [simp]: "node_at (fs\<lparr>fs_rand := ns\<rparr>) k = node_at fs k" "fs_conf (fs\<lparr>fs_rand := ns\<rparr>) = fs_conf fs"
  by (simp_all add: node_at_def fs_conf_def)

lemma names_in_iff: "x \<in> set (names_in fs k) \<longleftrightarrow> node_at fs (k @ [x]) \<noteq> None"
proof -
  have "x \<in> set (names_in fs k) \<longleftrightarrow> k @ [x] \<in> fst ` set (fs_nodes fs)"
  proof -
    have "c \<noteq> [] \<and> butlast c = k \<and> last c = x \<longleftrightarrow> c = k @ [x]" for c
      by (cases c rule: rev_cases) auto
    then show ?thesis by (simp add: names_in_def image_iff) metis
  qed
  then show ?thesis by (simp add: node_at_def map_of_eq_None_iff)
qed

lemma names_in_sorted: "sorted (names_in fs k)" "distinct (names_in fs k)"
  by (simp_all add: names_in_def)

section \<open>What the calls change\<close>

text \<open>
  \<open>grown D fs fs'\<close>: nothing has changed but that directories missing at or above \<open>D\<close> may have been made.
\<close>

definition grown :: "fkey \<Rightarrow> fsys \<Rightarrow> fsys \<Rightarrow> bool" where
  "grown D fs fs' \<longleftrightarrow> fs_conf fs' = fs_conf fs \<and> fs_rand fs' = fs_rand fs \<and>
     (\<forall>k. node_at fs' k = node_at fs k \<or>
          node_at fs k = None \<and> node_at fs' k = Some DirNode \<and> prefix k D)"

lemma grown_refl [simp]: "grown D fs fs"
  by (simp add: grown_def)

lemma grown_file: "grown D fs fs' \<Longrightarrow> node_at fs k \<noteq> None \<Longrightarrow> node_at fs' k = node_at fs k"
  by (auto simp: grown_def)

lemma grown_None: "grown D fs fs' \<Longrightarrow> node_at fs' k = None \<Longrightarrow> node_at fs k = None"
  unfolding grown_def by (elim conjE, drule spec [of _ k], auto)

lemma grown_trans: "grown D fs fs' \<Longrightarrow> grown D fs' fs'' \<Longrightarrow> grown D fs fs''"
  unfolding grown_def by (intro conjI allI; elim conjE, (drule spec)+, auto)

lemma mkdir_from_grown: "mkdir_from k xs fs = (fs', r) \<Longrightarrow> grown (k @ xs) fs fs'"
proof (induction k xs fs rule: mkdir_from.induct)
  case (2 k x xs fs)
  have put: "grown (k @ x # xs) fs (put_node (k @ [x]) DirNode fs)" if "node_at fs (k @ [x]) = None"
    using that by (auto simp: grown_def)
  show ?case
  proof (cases "node_at fs (k @ [x])")
    case None
    with 2 put [OF None] show ?thesis by (auto split: option.splits intro: grown_trans)
  next
    case (Some n)
    with 2 show ?thesis by (cases n) auto
  qed
qed simp

lemma mkdir_from_dirs:
  "mkdir_from k xs fs = (fs', None) \<Longrightarrow> node_at fs k = Some DirNode \<Longrightarrow> node_at fs' (k @ xs) = Some DirNode"
proof (induction k xs fs rule: mkdir_from.induct)
  case (2 k x xs fs)
  then show ?case by (auto split: option.splits node.splits)
qed simp

lemma fs_wf_put: "fs_wf fs \<Longrightarrow> k \<noteq> [] \<Longrightarrow> node_at fs (butlast k) = Some DirNode \<Longrightarrow>
    node_at fs k \<noteq> Some DirNode \<Longrightarrow> plain (last k) \<Longrightarrow> fs_wf (put_node k n fs)"
  unfolding fs_wf_def by auto

lemma mkdir_from_wf:
  "mkdir_from k xs fs = (fs', r) \<Longrightarrow> fs_wf fs \<Longrightarrow> node_at fs k = Some DirNode \<Longrightarrow> list_all plain xs \<Longrightarrow> fs_wf fs'"
proof (induction k xs fs rule: mkdir_from.induct)
  case (2 k x xs fs)
  have "fs_wf (put_node (k @ [x]) DirNode fs)" if "node_at fs (k @ [x]) = None"
    using "2.prems"(2-4) that by (simp add: fs_wf_put)
  with 2 show ?case by (auto split: option.splits node.splits)
qed simp

lemma fs_key_plain: "fs_wf fs \<Longrightarrow> list_all plain (fs_key fs p)"
proof -
  have "list_all plain st \<Longrightarrow> list_all (\<lambda>x. CHR ''/'' \<notin> set x) xs \<Longrightarrow> list_all plain (foldl (push_elem True) st xs)"
    for st xs
  proof (induction xs arbitrary: st)
    case (Cons x xs)
    have "list_all plain (push_elem True st x)"
      using Cons.prems by (auto simp: push_elem_def plain_def [of x] elem_ok_def [of x] split: list.splits)
    with Cons show ?case by simp
  qed simp
  moreover assume "fs_wf fs"
  ultimately show ?thesis
    by (simp add: fs_key_def fs_wf_def split_slash_elems)
qed

lemma MkdirAll_grown: "os_MkdirAll p fs = (fs', r) \<Longrightarrow> grown (fs_key fs p) fs fs'"
  using mkdir_from_grown [of "[]" "fs_key fs p" fs fs' r] by (simp add: os_MkdirAll_def)

lemma MkdirAll_wf: "os_MkdirAll p fs = (fs', r) \<Longrightarrow> fs_wf fs \<Longrightarrow> fs_wf fs'"
  using mkdir_from_wf [of "[]" "fs_key fs p" fs fs' r] fs_key_plain by (simp add: os_MkdirAll_def)

lemma MkdirAll_dir: "os_MkdirAll p fs = (fs', None) \<Longrightarrow> node_at fs' (fs_key fs p) = Some DirNode"
  using mkdir_from_dirs [of "[]" "fs_key fs p" fs fs'] by (simp add: os_MkdirAll_def)

lemma dec_digits_no_slash: "CHR ''/'' \<notin> set (dec_digits n)"
proof (induction n rule: dec_digits.induct)
  case (1 n)
  have "CHR ''/'' \<noteq> char_of (48 + d :: nat)" if "d < 10" for d
  proof
    assume "CHR ''/'' = char_of (48 + d)"
    then have "of_char CHR ''/'' = (of_char (char_of (48 + d)) :: nat)" by simp
    with that show False by simp
  qed
  with 1 show ?case by (subst dec_digits.simps) auto
qed

lemma plain_temp: "CHR ''/'' \<notin> set pat \<Longrightarrow> 2 < length pat \<Longrightarrow> plain (pat @ dec_digits n)"
  by (auto simp: plain_def elem_ok_def dec_digits_no_slash dest: arg_cong [where f = length])

lemma draw_SomeD: "draw t free ns = Some (n, ns') \<Longrightarrow> free n \<and> (\<exists>ms. ns = ms @ n # ns')"
  by (induction t free ns rule: draw.induct) (auto split: if_splits intro: exI [of _ "_ # _"] exI [of _ "[]"])

lemma CreateTemp_InrD:
  assumes "os_CreateTemp dir pat fs = Inr (k, fs')"
  shows "\<exists>n ms ns. fs_rand fs = ms @ n # ns \<and> k = fs_key fs dir @ [pat @ dec_digits n] \<and> node_at fs k = None \<and>
    node_at fs (fs_key fs dir) = Some DirNode \<and>
    fs' = put_node k (FileNode [] (fs_clock fs)) (fs\<lparr>fs_rand := ns\<rparr>)"
  using assms
  by (auto simp: os_CreateTemp_def Let_def dest!: draw_SomeD split: option.splits if_splits)

text \<open>Different numbers give different names.\<close>

lemma dec_digits_value:
  "foldl (\<lambda>a c. 10 * a + (of_char c - 48)) 0 (dec_digits n) = n"
proof (induction n rule: dec_digits.induct)
  case (1 n)
  then show ?case
    by (subst dec_digits.simps) (simp add: of_char_of)
qed

lemma dec_digits_inj: "dec_digits m = dec_digits n \<longleftrightarrow> m = n"
  by (metis dec_digits_value)

lemma Rename_ok:
  assumes "os_Rename k p fs = (fs', None)" and "k \<noteq> []"
  shows "\<exists>c t. node_at fs k = Some (FileNode c t) \<and> node_at fs (fs_key fs p) \<noteq> Some DirNode \<and>
    fs_key fs p \<noteq> [] \<and> node_at fs (butlast (fs_key fs p)) = Some DirNode \<and>
    fs' = put_node (fs_key fs p) (FileNode c t) (del_node k fs)"
  using assms by (auto simp: os_Rename_def Let_def split: option.splits node.splits if_splits)

lemma Rename_error: "os_Rename k p fs = (fs', Some e) \<Longrightarrow> fs' = fs"
  by (auto simp: os_Rename_def Let_def split: option.splits node.splits if_splits)

lemma fs_wf_del_file: "fs_wf fs \<Longrightarrow> node_at fs k \<noteq> Some DirNode \<Longrightarrow> fs_wf (del_node k fs)"
  by (cases "k = []") (auto simp: fs_wf_def, metis not_None_eq)

lemma Remove_frame:
  "os_Remove k fs = (fs', r) \<Longrightarrow> k \<noteq> [] \<Longrightarrow> fs_conf fs' = fs_conf fs \<and> (\<forall>k'. k' \<noteq> k \<longrightarrow> node_at fs' k' = node_at fs k')"
  by (auto simp: os_Remove_def split: option.splits node.splits if_splits)

lemma Remove_wf: "os_Remove k fs = (fs', r) \<Longrightarrow> fs_wf fs \<Longrightarrow> fs_wf fs'"
proof -
  assume a: "os_Remove k fs = (fs', r)" "fs_wf fs"
  have "fs_wf (del_node k fs)" if "k \<noteq> []" "names_in fs k = []"
    using a(2) that names_in_iff [of _ fs k] by (auto simp: fs_wf_def)
  with a show ?thesis
    by (auto simp: os_Remove_def fs_wf_del_file split: option.splits node.splits if_splits)
qed


section \<open>Directory walks\<close>

text \<open>
  The callbacks of \<open>filepath.WalkDir\<close>, in order, for callbacks that never stop the walk: the names from the
  root of the walk, whether it is a directory, and \<open>walkErr\<close>. A directory is visited before its entries,
  which come sorted; when reading it fails, it is visited again with the error, and then the entries read
  before the error are.
\<close>

type_synonym visit = "string list \<times> bool \<times> error option"

definition depth :: "fsys \<Rightarrow> nat" where
  "depth fs = foldr (\<lambda>p m. max (length (fst p)) m) (fs_nodes fs) 0"

lemma depth_ge: "node_at fs k \<noteq> None \<Longrightarrow> length k \<le> depth fs"
proof -
  have "p \<in> set xs \<Longrightarrow> length (fst p) \<le> foldr (\<lambda>p m. max (length (fst p)) m) xs 0" for p :: "fkey \<times> node" and xs
    by (induction xs) auto
  then show "node_at fs k \<noteq> None \<Longrightarrow> length k \<le> depth fs"
    by (force simp: node_at_def depth_def split: if_splits dest: map_of_SomeD)
qed

definition os_ReadDir :: "fsys \<Rightarrow> fkey \<Rightarrow> string list \<times> error option" where
  "os_ReadDir fs k =
     (case fs_fault fs (CallReadDir k) of
        None \<Rightarrow> (names_in fs k, None)
      | Some e \<Rightarrow> (filter (fs_part fs k) (names_in fs k), Some e))"

function walk_names :: "fsys \<Rightarrow> fkey \<Rightarrow> string list \<Rightarrow> visit list" where
  "walk_names fs K ns =
     (if node_at fs (K @ ns) = Some DirNode
      then (ns, True, None) #
        (case os_ReadDir fs (K @ ns) of
           (xs, r) \<Rightarrow> (case r of Some e \<Rightarrow> [(ns, True, Some e)] | None \<Rightarrow> []) @
             concat (map (\<lambda>x. walk_names fs K (ns @ [x])) xs))
      else [(ns, False, None)])"
  by pat_completeness auto
termination
proof (relation "measure (\<lambda>(fs, K, ns). depth fs - length (K @ ns))", goal_cases)
  case (2 fs K ns xs r x)
  then have "x \<in> set (names_in fs (K @ ns))" by (auto simp: os_ReadDir_def split: option.splits)
  then have "length (K @ ns @ [x]) \<le> depth fs"
    using names_in_iff [of x fs "K @ ns"] depth_ge [of fs "K @ ns @ [x]"] by simp
  then show ?case by simp
qed simp

declare walk_names.simps [simp del]

definition walk_dir :: "fsys \<Rightarrow> fkey \<Rightarrow> visit list" where
  "walk_dir fs K =
     (case fs_fault fs (CallStat K) of
        Some e \<Rightarrow> [([], False, Some e)]
      | None \<Rightarrow> if node_at fs K = None then [([], False, Some ENOENT)] else walk_names fs K [])"

section \<open>Resolution of cleaned paths\<close>

definition resolve :: "string list \<Rightarrow> string list \<Rightarrow> string list" where
  "resolve st cs = rev (foldl (push_elem True) (rev st) cs)"

lemma resolve_push:
  assumes "key_ok (r, rev s)" and "CHR ''/'' \<notin> set x" and "r \<longrightarrow> st = []"
  shows "resolve st (rev (push_elem r s x)) = resolve st (rev s @ [x])"
proof -
  consider (skip) "x = [] \<or> x = ''.''" | (up) "x = ''..''" | (keep) "plain x"
    using assms(2) by (auto simp: plain_def elem_ok_def)
  then show ?thesis
  proof cases
    case skip
    then show ?thesis by (auto simp: resolve_def push_elem_def)
  next
    case up
    show ?thesis
    proof (cases s)
      case Nil
      with assms(3) up show ?thesis by (cases r) (simp_all add: resolve_def push_elem_def)
    next
      case (Cons y ys)
      from assms(1) obtain n xs where n: "rev s = replicate n ''..'' @ xs" "list_all plain xs"
        by (auto simp: key_ok_iff)
      from Cons have "y \<in> set (rev s)" by simp
      with n have "y = ''..'' \<or> plain y" by (auto simp: list_all_iff)
      then show ?thesis
      proof
        assume "y = ''..''"
        with Cons up show ?thesis by (simp add: resolve_def push_elem_def)
      next
        assume p: "plain y"
        then have "push_elem True w y = y # w" for w by (auto simp: push_elem_def plain_def elem_ok_def)
        with Cons up p show ?thesis by (simp add: resolve_def) (simp add: push_elem_def plain_def)
      qed
    qed
  next
    case keep
    then show ?thesis by (auto simp: resolve_def push_elem_def plain_def elem_ok_def)
  qed
qed

lemma resolve_key:
  assumes "list_all (\<lambda>x. CHR ''/'' \<notin> set x) xs" and "r \<longrightarrow> st = []" and "key_ok (r, rev s)"
  shows "resolve st (rev (foldl (push_elem r) s xs)) = resolve st (rev s @ xs)"
  using assms
proof (induction xs arbitrary: s)
  case (Cons x xs)
  then have "key_ok (r, rev (push_elem r s x))" by (simp add: push_elem_ok)
  with Cons have "resolve st (rev (foldl (push_elem r) s (x # xs))) = resolve st (rev (push_elem r s x) @ xs)" by simp
  also have "\<dots> = resolve st ((rev s @ [x]) @ xs)"
  proof -
    have "resolve st (a @ xs) = rev (foldl (push_elem True) (rev (resolve st a)) xs)" for a
      by (simp add: resolve_def)
    from this [of "rev (push_elem r s x)"] this [of "rev s @ [x]"] show ?thesis
      using resolve_push [of r s x st] Cons.prems by simp
  qed
  finally show ?case by simp
qed simp

lemma fs_key_resolve:
  "fs_key fs p = resolve (if rooted p then [] else fs_cwd fs) (snd (key_of p))"
proof -
  have k: "key_ok (rooted p, rev [])" by (simp add: key_ok_def)
  have "fs_key fs p = resolve (if rooted p then [] else fs_cwd fs) (split_slash p)"
    by (simp add: fs_key_def resolve_def)
  also have "\<dots> = resolve (if rooted p then [] else fs_cwd fs) (rev (foldl (push_elem (rooted p)) [] (split_slash p)))"
    using resolve_key [OF split_slash_elems [of p] _ k, of "if rooted p then [] else fs_cwd fs"] by simp
  finally show ?thesis by (simp add: key_of_def)
qed

lemma fst_key_of [simp]: "fst (key_of p) = rooted p"
  by (simp add: key_of_def)

lemma rooted_Clean [simp]: "rooted (Clean p) = rooted p"
  by (metis fst_key_of key_of_Clean)

lemma fs_key_Clean [simp]: "fs_key fs (Clean p) = fs_key fs p"
  by (simp add: fs_key_resolve)

text \<open>A path below a directory resolves below the directory.\<close>

lemma fs_key_below:
  assumes "key_of root = (r, cs)" and "list_all plain ns"
  shows "fs_key fs (path_of (r, cs @ ns)) = fs_key fs root @ ns"
proof -
  from assms key_of_ok [of root] have k: "key_ok (r, cs @ ns)" by (simp add: key_ok_append)
  from assms(1) have r: "rooted root = r" by (metis fst_conv fst_key_of)
  have "resolve st (cs @ ns) = resolve st cs @ ns" for st
    using assms(2) by (simp add: resolve_def foldl_push_plain)
  with k r assms(1) show ?thesis by (simp add: fs_key_resolve key_of_path_of rooted_path_of)
qed

section \<open>What a walk visits\<close>

lemma fs_wf_child: "fs_wf fs \<Longrightarrow> node_at fs (k @ [x]) \<noteq> None \<Longrightarrow> node_at fs k = Some DirNode \<and> plain x"
  unfolding fs_wf_def by blast

lemma fs_wf_above: "fs_wf fs \<Longrightarrow> node_at fs (k @ x # ms) \<noteq> None \<Longrightarrow> node_at fs (k @ [x]) \<noteq> None \<and> node_at fs k = Some DirNode"
proof (induction ms rule: rev_induct)
  case Nil
  then show ?case using fs_wf_child by simp
next
  case (snoc y ms)
  from fs_wf_child [of fs "k @ x # ms" y] snoc show ?case by simp
qed

definition walk_files :: "visit list \<Rightarrow> string list list" where
  "walk_files vs = map fst (filter (\<lambda>(ns, isdir, e). \<not> isdir \<and> e = None) vs)"

lemma walk_files_simps [simp]:
  "walk_files [] = []"
  "walk_files ((ns, d, e) # vs) = (if \<not> d \<and> e = None then ns # walk_files vs else walk_files vs)"
  "walk_files (vs @ ws) = walk_files vs @ walk_files ws"
  by (simp_all add: walk_files_def)

lemma walk_files_concat: "walk_files (concat vss) = concat (map walk_files vss)"
  by (induction vss) simp_all

lemma distinct_concat_map:
  "distinct xs \<Longrightarrow> (\<And>x. x \<in> set xs \<Longrightarrow> distinct (f x)) \<Longrightarrow>
     (\<And>x y. x \<noteq> y \<Longrightarrow> x \<in> set xs \<Longrightarrow> y \<in> set xs \<Longrightarrow> set (f x) \<inter> set (f y) = {}) \<Longrightarrow>
     distinct (concat (map f xs))"
proof (induction xs)
  case (Cons x xs)
  have "set (f x) \<inter> set (f y) = {}" if "y \<in> set xs" for y
    using Cons.prems(1,3) that by (metis distinct.simps(2) list.set_intros)
  then have "set (f x) \<inter> (\<Union>y\<in>set xs. set (f y)) = {}" by blast
  with Cons show ?case by simp
qed simp

lemma walk_files_dir:
  "node_at fs (K @ ns) = Some DirNode \<Longrightarrow>
     walk_files (walk_names fs K ns) =
       concat (map (\<lambda>x. walk_files (walk_names fs K (ns @ [x]))) (fst (os_ReadDir fs (K @ ns))))"
  by (subst walk_names.simps) (simp add: walk_files_concat comp_def split: prod.split option.split)

lemma ReadDir_names: "set (fst (os_ReadDir fs k)) \<subseteq> set (names_in fs k)" "distinct (fst (os_ReadDir fs k))"
  using names_in_sorted [of fs k] by (auto simp: os_ReadDir_def split: option.split)

text \<open>Every file of the walk lies below its root, is a file of the file system, and comes once.\<close>

lemma walk_names_files:
  "fs_wf fs \<Longrightarrow> node_at fs (K @ ns) \<noteq> None \<Longrightarrow>
     distinct (walk_files (walk_names fs K ns)) \<and>
     (\<forall>p \<in> set (walk_files (walk_names fs K ns)).
        \<exists>ms c t. p = ns @ ms \<and> list_all plain ms \<and> node_at fs (K @ p) = Some (FileNode c t))"
proof (induction fs K ns rule: walk_names.induct)
  case (1 fs K ns)
  show ?case
  proof (cases "node_at fs (K @ ns) = Some DirNode")
    case False
    with "1.prems"(2) obtain c t where f: "node_at fs (K @ ns) = Some (FileNode c t)"
      by (cases "the (node_at fs (K @ ns))") auto
    then have "walk_files (walk_names fs K ns) = [ns]" by (subst walk_names.simps) simp
    with f show ?thesis by simp
  next
    case True
    let ?w = "\<lambda>x. walk_files (walk_names fs K (ns @ [x]))" and ?xs = "fst (os_ReadDir fs (K @ ns))"
    have w: "walk_files (walk_names fs K ns) = concat (map ?w ?xs)" using True by (rule walk_files_dir)
    have ih: "distinct (?w x) \<and>
        (\<forall>p \<in> set (?w x). \<exists>ms c t. p = ns @ x # ms \<and> list_all plain (x # ms) \<and> node_at fs (K @ p) = Some (FileNode c t))"
      if x: "x \<in> set ?xs" for x
    proof -
      from x ReadDir_names(1) [of fs "K @ ns"] have n: "node_at fs (K @ (ns @ [x])) \<noteq> None" by (auto simp: names_in_iff)
      then have "plain x" using fs_wf_child [of fs "K @ ns" x] "1.prems" by simp
      moreover have "distinct (?w x) \<and> (\<forall>p \<in> set (?w x). \<exists>ms c t. p = (ns @ [x]) @ ms \<and> list_all plain ms \<and>
          node_at fs (K @ p) = Some (FileNode c t))"
        using "1.IH" [OF True surjective_pairing [symmetric] x "1.prems"(1)] n by simp
      ultimately show ?thesis by fastforce
    qed
    have dis: "set (?w x) \<inter> set (?w y) = {}" if "x \<noteq> y" "x \<in> set ?xs" "y \<in> set ?xs" for x y
    proof -
      have "nth p (length ns) = z" if "z \<in> set ?xs" "p \<in> set (?w z)" for p z
        using ih [OF that(1)] that(2) by auto
      with that show ?thesis by blast
    qed
    have d: "distinct (concat (map ?w ?xs))"
    proof (rule distinct_concat_map)
      show "distinct ?xs" by (rule ReadDir_names)
      show "distinct (?w x)" if "x \<in> set ?xs" for x using ih [OF that] by blast
    qed (fact dis)
    have "\<exists>ms c t. p = ns @ ms \<and> list_all plain ms \<and> node_at fs (K @ p) = Some (FileNode c t)"
      if "p \<in> set (concat (map ?w ?xs))" for p
    proof -
      from that obtain x where "x \<in> set ?xs" "p \<in> set (?w x)" by auto
      with ih [OF this(1)] show ?thesis by blast
    qed
    with d show ?thesis unfolding w by blast
  qed
qed

text \<open>Where every directory can be read, no file is missed.\<close>

lemma walk_names_complete:
  assumes "fs_wf fs" and "\<And>k. fs_fault fs (CallReadDir k) = None"
    and "node_at fs (K @ ns @ ms) = Some (FileNode c t)"
  shows "ns @ ms \<in> set (walk_files (walk_names fs K ns))"
  using assms(3)
proof (induction ms arbitrary: ns)
  case Nil
  then show ?case by (subst walk_names.simps) simp
next
  case (Cons x ms)
  from fs_wf_above [OF assms(1), of "K @ ns" x ms] Cons.prems
  have d: "node_at fs (K @ ns) = Some DirNode" and x: "x \<in> set (names_in fs (K @ ns))"
    by (simp_all add: names_in_iff)
  from Cons.IH [of "ns @ [x]"] Cons.prems have "ns @ x # ms \<in> set (walk_files (walk_names fs K (ns @ [x])))" by simp
  moreover from x have "x \<in> set (fst (os_ReadDir fs (K @ ns)))" by (simp add: os_ReadDir_def assms(2))
  ultimately show ?case unfolding walk_files_dir [OF d] set_concat set_map by blast
qed

end
