(* ===== verification/Files.thy ===== *)
theory Files
  imports EndToEnd FileSys
begin

text \<open>
  \<open>file.go\<close> and \<open>EncryptFile\<close>: the operations on paths. \<open>DecryptFile\<close> and \<open>EncryptFile\<close> follow the same protocol
  (\<open>crypt_file\<close>): open the input, make the directories, write a temporary file beside the output, close and
  rename it, and remove the temporary name in any case. What differs is a \<open>job_kind\<close>: the pattern of the
  temporary name and the function from the opened input to the temporary file.

  The decoders of \<open>encoding/pem\<close> and \<open>crypto/x509\<close> are the functions of a parameter \<open>pem_lib\<close>.
\<close>

section \<open>Looking at a file\<close>

definition IsCsencFile :: "fsys \<Rightarrow> path \<Rightarrow> error + bool" where
  "IsCsencFile fs p = (case os_Open fs p of Inl e \<Rightarrow> Inl e | Inr f \<Rightarrow> IsCsencContent f)"

definition InspectFile :: "fsys \<Rightarrow> path \<Rightarrow> error + Metadata" where
  "InspectFile fs p = (case os_Open fs p of Inl e \<Rightarrow> Inl e | Inr f \<Rightarrow> Inspect f)"

section \<open>The protocol\<close>

record job_kind =
  jk_pat :: string
  jk_run :: "path \<Rightarrow> reader \<Rightarrow> sink \<Rightarrow> sink \<times> error option"

text \<open>The directories of the output, unless it goes to the working directory.\<close>

definition make_parents :: "path \<Rightarrow> fsys \<Rightarrow> fsys \<times> error option" where
  "make_parents outPath fs =
     (let dir = Dir outPath in
      if dir \<noteq> [] \<and> dir \<noteq> ''.'' then os_MkdirAll dir fs else (fs, None))"

text \<open>From the written temporary file to the deferred \<open>os.Remove\<close>; \<open>r\<close> is the result of writing it.\<close>

definition move_temp :: "path \<Rightarrow> fkey \<Rightarrow> error option \<Rightarrow> fsys \<Rightarrow> fsys \<times> error option" where
  "move_temp outPath tmp r fs =
     (case r of
        Some e \<Rightarrow> (fs, Some e)
      | None \<Rightarrow>
          (case os_Close tmp fs of
             Some e \<Rightarrow> (fs, Some e)
           | None \<Rightarrow> os_Rename tmp outPath fs))"

definition crypt_file :: "job_kind \<Rightarrow> path \<Rightarrow> path \<Rightarrow> fsys \<Rightarrow> fsys \<times> error option" where
  "crypt_file jk inPath outPath fs =
     (case os_Open fs inPath of
        Inl e \<Rightarrow> (fs, Some e)
      | Inr src \<Rightarrow>
          (case make_parents outPath fs of
             (fs1, Some e) \<Rightarrow> (fs1, Some e)
           | (fs1, None) \<Rightarrow>
               (case os_CreateTemp (Dir outPath) (jk_pat jk) fs1 of
                  Inl e \<Rightarrow> (fs1, Some e)
                | Inr (tmp, fs2) \<Rightarrow>
                    let (s, r) = jk_run jk inPath src (temp_sink fs2 tmp);
                        (fs3, r') = move_temp outPath tmp r (temp_store tmp s fs2)
                    in (fst (os_Remove tmp fs3), r'))))"

definition decrypt_kind :: "'d lz_reader \<Rightarrow> DecryptOptions \<Rightarrow> job_kind" where
  "decrypt_kind lzr opts =
     \<lparr>jk_pat = ''.csenc-'',
      jk_run = (\<lambda>inPath src tmp. case Decrypt lzr src tmp opts of (st, r) \<Rightarrow> (dec_out st, r))\<rparr>"

definition DecryptFile :: "'d lz_reader \<Rightarrow> path \<Rightarrow> path \<Rightarrow> DecryptOptions \<Rightarrow> fsys \<Rightarrow> fsys \<times> error option" where
  "DecryptFile lzr inPath outPath opts = crypt_file (decrypt_kind lzr opts) inPath outPath"

text \<open>The reads of \<open>io.Copy\<close>, whose buffer has 32 KiB.\<close>

function copy_reads :: "bytes \<Rightarrow> bytes list" where
  "copy_reads b = (if b = [] then [] else take 32768 b # copy_reads (drop 32768 b))"
  by pat_completeness auto
termination by (relation "measure length") auto

declare copy_reads.simps [simp del]

text \<open>
  \<open>buildOpts\<close> gives the options for an input path (a constant function for a single \<open>EncryptFile\<close>);
  \<open>crand\<close> is what \<open>crypto/rand\<close> yields while that file is encrypted.
\<close>

definition default_filename :: "path \<Rightarrow> EncryptOptions \<Rightarrow> EncryptOptions" where
  "default_filename inPath opts = (if eFilename opts = [] then opts\<lparr>eFilename := Base inPath\<rparr> else opts)"

definition encrypt_kind ::
    "'e lz_writer \<Rightarrow> (path \<Rightarrow> reader) \<Rightarrow> (path \<Rightarrow> EncryptOptions) \<Rightarrow> job_kind" where
  "encrypt_kind lzw crand buildOpts =
     \<lparr>jk_pat = ''.csenc-enc-'',
      jk_run = (\<lambda>inPath src tmp.
        Encrypt lzw (crand inPath) (copy_reads (rest src)) (rend src) tmp
          (default_filename inPath (buildOpts inPath)))\<rparr>"

definition EncryptFile ::
    "'e lz_writer \<Rightarrow> (path \<Rightarrow> reader) \<Rightarrow> path \<Rightarrow> path \<Rightarrow> EncryptOptions \<Rightarrow> fsys \<Rightarrow> fsys \<times> error option" where
  "EncryptFile lzw crand inPath outPath opts =
     crypt_file (encrypt_kind lzw crand (\<lambda>_. opts)) inPath outPath"

section \<open>Keys\<close>

record pem_block =
  pb_type :: string
  pb_bytes :: bytes

record pem_lib =
  pem_Decode :: "bytes \<Rightarrow> pem_block option"
  x509_IsEncryptedPEMBlock :: "pem_block \<Rightarrow> bool"
  x509_DecryptPEMBlock :: "pem_block \<Rightarrow> bytes \<Rightarrow> error + bytes"
  x509_ParsePKCS1PrivateKey :: "bytes \<Rightarrow> error + rsa_private"
  x509_ParsePKCS8PrivateKey :: "bytes \<Rightarrow> error + rsa_private option"
  x509_ParsePKIXPublicKey :: "bytes \<Rightarrow> error + rsa_public option"
  x509_ParsePKCS1PublicKey :: "bytes \<Rightarrow> error + rsa_public"

text \<open>The DER bytes of a private key block; \<open>None\<close> is a key of another kind for the generic parsers.\<close>

definition private_der :: "pem_lib \<Rightarrow> pem_block \<Rightarrow> string \<Rightarrow> error + bytes" where
  "private_der lib block passphrase =
     (if x509_IsEncryptedPEMBlock lib block
      then if passphrase = [] then Inl ErrPemPassphrase
           else (case x509_DecryptPEMBlock lib block (bytes_of_string passphrase) of
                   Inl e \<Rightarrow> Inl (ErrPemDecrypt e)
                 | Inr der \<Rightarrow> Inr der)
      else Inr (pb_bytes block))"

definition LoadRSAPrivateKey :: "pem_lib \<Rightarrow> fsys \<Rightarrow> path \<Rightarrow> string \<Rightarrow> error + rsa_private" where
  "LoadRSAPrivateKey lib fs p passphrase =
     (case os_ReadFile fs p of
        Inl e \<Rightarrow> Inl e
      | Inr raw \<Rightarrow>
          (case pem_Decode lib raw of
             None \<Rightarrow> Inl ErrNoPemBlock
           | Some block \<Rightarrow>
               (case private_der lib block passphrase of
                  Inl e \<Rightarrow> Inl e
                | Inr der \<Rightarrow>
                    if pb_type block = ''RSA PRIVATE KEY'' then x509_ParsePKCS1PrivateKey lib der
                    else if pb_type block = ''PRIVATE KEY'' then
                      (case x509_ParsePKCS8PrivateKey lib der of
                         Inl e \<Rightarrow> Inl e
                       | Inr None \<Rightarrow> Inl ErrPkcs8NotRsa
                       | Inr (Some rk) \<Rightarrow> Inr rk)
                    else Inl (ErrPemBlockType (pb_type block)))))"

definition parseRSAPublicKeyPEM :: "pem_lib \<Rightarrow> bytes \<Rightarrow> error + rsa_public" where
  "parseRSAPublicKeyPEM lib raw =
     (case pem_Decode lib raw of
        None \<Rightarrow> Inl ErrNoPemBlock
      | Some block \<Rightarrow>
          if pb_type block = ''PUBLIC KEY'' then
            (case x509_ParsePKIXPublicKey lib (pb_bytes block) of
               Inl e \<Rightarrow> Inl e
             | Inr None \<Rightarrow> Inl ErrPkixNotRsa
             | Inr (Some rk) \<Rightarrow> Inr rk)
          else if pb_type block = ''RSA PUBLIC KEY'' then x509_ParsePKCS1PublicKey lib (pb_bytes block)
          else Inl (ErrPemBlockType (pb_type block)))"

definition LoadRSAPublicKey :: "pem_lib \<Rightarrow> fsys \<Rightarrow> path \<Rightarrow> error + rsa_public" where
  "LoadRSAPublicKey lib fs p =
     (case os_ReadFile fs p of Inl e \<Rightarrow> Inl e | Inr raw \<Rightarrow> parseRSAPublicKeyPEM lib raw)"

section \<open>The protocol as single steps\<close>

text \<open>
  Where one run of the protocol stands between two system calls. \<open>FTemp\<close> to \<open>FMoved\<close> carry the name of the
  temporary file, \<open>FOpened\<close> to \<open>FTemp\<close> the opened input. Running the steps to the end is \<open>crypt_file\<close>
  (\<open>file_steps\<close>).
\<close>

datatype phase =
    FStart
  | FOpened reader
  | FDirs reader
  | FTemp fkey reader
  | FWritten fkey "error option"
  | FMoved fkey "error option"
  | FEnd "error option"

fun file_step :: "job_kind \<Rightarrow> path \<Rightarrow> path \<Rightarrow> phase \<times> fsys \<Rightarrow> phase \<times> fsys" where
  "file_step jk inPath outPath (FStart, fs) =
     (case os_Open fs inPath of Inl e \<Rightarrow> (FEnd (Some e), fs) | Inr src \<Rightarrow> (FOpened src, fs))"
| "file_step jk inPath outPath (FOpened src, fs) =
     (case make_parents outPath fs of
        (fs1, Some e) \<Rightarrow> (FEnd (Some e), fs1)
      | (fs1, None) \<Rightarrow> (FDirs src, fs1))"
| "file_step jk inPath outPath (FDirs src, fs) =
     (case os_CreateTemp (Dir outPath) (jk_pat jk) fs of
        Inl e \<Rightarrow> (FEnd (Some e), fs)
      | Inr (tmp, fs2) \<Rightarrow> (FTemp tmp src, fs2))"
| "file_step jk inPath outPath (FTemp tmp src, fs) =
     (case jk_run jk inPath src (temp_sink fs tmp) of
        (s, r) \<Rightarrow> (FWritten tmp r, temp_store tmp s fs))"
| "file_step jk inPath outPath (FWritten tmp r, fs) =
     (case move_temp outPath tmp r fs of (fs3, r') \<Rightarrow> (FMoved tmp r', fs3))"
| "file_step jk inPath outPath (FMoved tmp r, fs) = (FEnd r, fst (os_Remove tmp fs))"
| "file_step jk inPath outPath (FEnd r, fs) = (FEnd r, fs)"

lemma file_step_End [simp]: "(file_step jk i out ^^ n) (FEnd r, fs) = (FEnd r, fs)"
  by (induction n) simp_all

lemma file_steps:
  "(file_step jk inPath outPath ^^ 6) (FStart, fs) =
     (case crypt_file jk inPath outPath fs of (fs', r) \<Rightarrow> (FEnd r, fs'))"
  by (simp add: numeral_eq_Suc funpow_Suc_right crypt_file_def Let_def
      split: sum.split prod.split option.split del: funpow.simps)

section \<open>What the protocol guarantees\<close>

definition temp_name :: "job_kind \<Rightarrow> fkey \<Rightarrow> bool" where
  "temp_name jk k \<longleftrightarrow> (\<exists>d n. k = d @ [jk_pat jk @ dec_digits n])"

text \<open>The contents \<open>jk_run\<close> makes of the opened input \<open>src\<close> when it succeeds, on a file of whatever capacity.\<close>

definition result_of :: "job_kind \<Rightarrow> path \<Rightarrow> reader \<Rightarrow> bytes \<Rightarrow> bool" where
  "result_of jk inPath src c \<longleftrightarrow>
     (\<exists>rm s. jk_run jk inPath src \<lparr>written = [], room = rm\<rparr> = (s, None) \<and> c = written s)"

lemma make_parents_grown: "make_parents out fs = (fs', r) \<Longrightarrow> grown (fs_key fs (Dir out)) fs fs'"
  by (auto simp: make_parents_def Let_def MkdirAll_grown split: if_splits)

lemma make_parents_wf: "make_parents out fs = (fs', r) \<Longrightarrow> fs_wf fs \<Longrightarrow> fs_wf fs'"
  by (auto simp: make_parents_def Let_def MkdirAll_wf split: if_splits)

lemma move_temp_ok:
  assumes "move_temp out tmp r fs = (fs', None)" and "tmp \<noteq> []"
  shows "r = None" "\<exists>c t. node_at fs tmp = Some (FileNode c t) \<and> node_at fs (fs_key fs out) \<noteq> Some DirNode \<and>
    fs_key fs out \<noteq> [] \<and> node_at fs (butlast (fs_key fs out)) = Some DirNode \<and>
    fs' = put_node (fs_key fs out) (FileNode c t) (del_node tmp fs)"
  using assms Rename_ok [of tmp out fs fs'] by (auto simp: move_temp_def split: option.splits)

lemma move_temp_error: "move_temp out tmp r fs = (fs', Some e) \<Longrightarrow> fs' = fs"
  using Rename_error by (auto simp: move_temp_def split: option.splits)

lemma temp_store_simps [simp]:
  "fs_conf (temp_store k s fs) = fs_conf fs" "fs_rand (temp_store k s fs) = fs_rand fs"
  "k \<noteq> [] \<Longrightarrow> node_at (temp_store k s fs) k' = (if k' = k then Some (FileNode (written s) (fs_clock fs)) else node_at fs k')"
  by (simp_all add: temp_store_def)

text \<open>The stages of a run, each with what it found and left.\<close>

lemma crypt_file_cases:
  assumes "crypt_file jk inPath out fs = (fs', r)"
  obtains (early) e where "r = Some e" "grown (fs_key fs (Dir out)) fs fs'" "fs_wf fs \<longrightarrow> fs_wf fs'"
  | (late) src fs1 tmp n ms ns s q fs3 where
      "os_Open fs inPath = Inr src" "make_parents out fs = (fs1, None)" "grown (fs_key fs (Dir out)) fs fs1"
      "fs_rand fs1 = ms @ n # ns" "tmp = fs_key fs1 (Dir out) @ [jk_pat jk @ dec_digits n]"
      "node_at fs1 tmp = None" "node_at fs1 (fs_key fs1 (Dir out)) = Some DirNode"
      "jk_run jk inPath src \<lparr>written = [], room = fs_room fs tmp\<rparr> = (s, q)"
      "move_temp out tmp q (temp_store tmp s (fs1\<lparr>fs_rand := ns\<rparr>)) = (fs3, r)"
      "fs' = fst (os_Remove tmp fs3)"
proof -
  consider (open_err) e where "os_Open fs inPath = Inl e" "r = Some e" "fs' = fs"
    | (dir_err) src fs1 e where "os_Open fs inPath = Inr src" "make_parents out fs = (fs1, Some e)" "r = Some e" "fs' = fs1"
    | (temp_err) src fs1 e where "os_Open fs inPath = Inr src" "make_parents out fs = (fs1, None)"
        "os_CreateTemp (Dir out) (jk_pat jk) fs1 = Inl e" "r = Some e" "fs' = fs1"
    | (run) src fs1 tmp fs2 s q fs3 where "os_Open fs inPath = Inr src" "make_parents out fs = (fs1, None)"
        "os_CreateTemp (Dir out) (jk_pat jk) fs1 = Inr (tmp, fs2)" "jk_run jk inPath src (temp_sink fs2 tmp) = (s, q)"
        "move_temp out tmp q (temp_store tmp s fs2) = (fs3, r)" "fs' = fst (os_Remove tmp fs3)"
    using assms by (auto simp: crypt_file_def Let_def split: sum.splits prod.splits option.splits)
  then show thesis
  proof cases
    case run
    have g: "grown (fs_key fs (Dir out)) fs fs1" using run(2) by (rule make_parents_grown)
    from CreateTemp_InrD [OF run(3)] obtain n ms ns where c: "fs_rand fs1 = ms @ n # ns"
      "tmp = fs_key fs1 (Dir out) @ [jk_pat jk @ dec_digits n]" "node_at fs1 tmp = None"
      "node_at fs1 (fs_key fs1 (Dir out)) = Some DirNode"
      "fs2 = put_node tmp (FileNode [] (fs_clock fs1)) (fs1\<lparr>fs_rand := ns\<rparr>)" by blast
    have "temp_sink fs2 tmp = \<lparr>written = [], room = fs_room fs tmp\<rparr>"
      using g fs_confD(5,6) [of fs1 fs] by (auto simp: temp_sink_def c(5) put_node_def grown_def)
    moreover have "temp_store tmp s fs2 = temp_store tmp s (fs1\<lparr>fs_rand := ns\<rparr>)"
      by (simp add: c(5) temp_store_def put_node_def update_Some_unfold)
    ultimately show thesis using late [OF run(1,2) g c(1,2,3,4)] run(4-6) by simp
  qed (use make_parents_grown make_parents_wf in \<open>fastforce intro: early\<close>)+
qed

text \<open>
  \<open>kept jk D fs fs' k\<close>: the node at \<open>k\<close> is as it was, or is a directory that was missing at or above \<open>D\<close>, or is
  a temporary file that could not be removed.
\<close>

definition kept :: "job_kind \<Rightarrow> fkey \<Rightarrow> fsys \<Rightarrow> fsys \<Rightarrow> fkey \<Rightarrow> bool" where
  "kept jk D fs fs' k \<longleftrightarrow>
     node_at fs' k = node_at fs k \<or>
     node_at fs k = None \<and> node_at fs' k = Some DirNode \<and> prefix k D \<or>
     node_at fs k = None \<and> temp_name jk k \<and> fs_fault fs (CallRemove k) \<noteq> None"

lemma grown_kept: "grown D fs fs' \<Longrightarrow> kept jk D fs fs' k"
  by (auto simp: grown_def kept_def)

lemma crypt_file_ok:
  assumes "crypt_file jk inPath out fs = (fs', None)" and "\<not> temp_name jk (fs_key fs out)"
  shows "\<exists>src tmp s. os_Open fs inPath = Inr src \<and>
    jk_run jk inPath src \<lparr>written = [], room = fs_room fs tmp\<rparr> = (s, None) \<and>
    node_at fs' (fs_key fs out) = Some (FileNode (written s) (fs_clock fs)) \<and> node_at fs (fs_key fs out) \<noteq> Some DirNode"
    and "k \<noteq> fs_key fs out \<Longrightarrow> kept jk (fs_key fs (Dir out)) fs fs' k"
    and "fs_conf fs' = fs_conf fs"
proof -
  from assms(1) obtain src fs1 tmp n ms ns s q fs3 where
    l: "os_Open fs inPath = Inr src" "grown (fs_key fs (Dir out)) fs fs1"
      "tmp = fs_key fs1 (Dir out) @ [jk_pat jk @ dec_digits n]" "node_at fs1 tmp = None"
      "jk_run jk inPath src \<lparr>written = [], room = fs_room fs tmp\<rparr> = (s, q)"
      "move_temp out tmp q (temp_store tmp s (fs1\<lparr>fs_rand := ns\<rparr>)) = (fs3, None)"
      "fs' = fst (os_Remove tmp fs3)"
    by (rule crypt_file_cases) auto
  let ?fs2 = "temp_store tmp s (fs1\<lparr>fs_rand := ns\<rparr>)" and ?o = "fs_key fs out"
  have tn: "tmp \<noteq> []" "temp_name jk tmp" using l(3) by (auto simp: temp_name_def)
  have c: "fs_conf fs1 = fs_conf fs" using l(2) by (simp add: grown_def)
  have k: "fs_key (fs1\<lparr>fs_rand := ns\<rparr>) out = ?o" "fs_key ?fs2 out = ?o" "fs_clock fs1 = fs_clock fs"
    using fs_confD(6) [of "fs1\<lparr>fs_rand := ns\<rparr>" fs out] fs_confD(6) [of ?fs2 fs out] fs_confD(2) [OF c] c by simp_all
  from move_temp_ok [OF l(6) tn(1)] k tn(1) have q: "q = None"
    and f3: "node_at ?fs2 ?o \<noteq> Some DirNode" "?o \<noteq> []" "fs3 = put_node ?o (FileNode (written s) (fs_clock fs)) (del_node tmp ?fs2)"
    by auto
  have neq: "?o \<noteq> tmp" using assms(2) tn(2) by auto
  have fs': "fs' = fs3"
    using f3(2,3) tn(1) neq by (auto simp: l(7) os_Remove_def split: option.split)
  have "node_at fs' ?o = Some (FileNode (written s) (fs_clock fs))" using fs' f3(2,3) by simp
  moreover have "node_at fs ?o \<noteq> Some DirNode"
    using f3(1) neq tn(1) grown_file [OF l(2), of ?o] by auto
  ultimately show "\<exists>src tmp s. os_Open fs inPath = Inr src \<and>
    jk_run jk inPath src \<lparr>written = [], room = fs_room fs tmp\<rparr> = (s, None) \<and>
    node_at fs' ?o = Some (FileNode (written s) (fs_clock fs)) \<and> node_at fs ?o \<noteq> Some DirNode"
    using l(1,5) q by blast
  show "fs_conf fs' = fs_conf fs" using fs' f3(3) c by simp
  show "kept jk (fs_key fs (Dir out)) fs fs' k" if "k \<noteq> ?o"
  proof (cases "k = tmp")
    case True
    have "node_at fs' k = None" using True fs' f3(2,3) tn(1) neq by auto
    moreover have "node_at fs k = None" using grown_None [OF l(2,4)] True by simp
    ultimately show ?thesis by (simp add: kept_def)
  next
    case False
    with that have "node_at fs' k = node_at fs1 k" using fs' f3(2,3) tn(1) by auto
    with grown_kept [OF l(2), of jk k] show ?thesis by (simp add: kept_def)
  qed
qed

lemma crypt_file_error:
  assumes "crypt_file jk inPath out fs = (fs', Some e)"
  shows "kept jk (fs_key fs (Dir out)) fs fs' k" and "fs_conf fs' = fs_conf fs"
proof -
  from assms have "kept jk (fs_key fs (Dir out)) fs fs' k \<and> fs_conf fs' = fs_conf fs"
  proof (cases rule: crypt_file_cases)
    case (early e)
    with grown_kept show ?thesis by (auto simp: grown_def)
  next
    case (late src fs1 tmp n ms ns s q fs3)
    have tn: "tmp \<noteq> []" "temp_name jk tmp" using late(5) by (auto simp: temp_name_def)
    from late(9) have f3: "fs3 = temp_store tmp s (fs1\<lparr>fs_rand := ns\<rparr>)" by (rule move_temp_error)
    have c: "fs_conf fs1 = fs_conf fs" using late(3) by (simp add: grown_def)
    have fault: "fs_fault fs3 = fs_fault fs" using f3 c fs_confD(3) [of fs3 fs] by simp
    have n3: "node_at fs3 tmp = Some (FileNode (written s) (fs_clock fs1))"
      using f3 tn(1) by (simp add: temp_store_def)
    show ?thesis
    proof (cases "k = tmp")
      case True
      have "node_at fs k = None" using grown_None [OF late(3,6)] True by simp
      moreover have "node_at fs' tmp = None" if "fs_fault fs (CallRemove tmp) = None"
        using that late(10) fault n3 tn(1) by (simp add: os_Remove_def)
      ultimately show ?thesis using True tn(2) late(10) c f3 Remove_frame [of tmp fs3] tn(1)
        by (auto simp: kept_def) (metis prod.collapse)+
    next
      case False
      from Remove_frame [of tmp fs3 fs' "snd (os_Remove tmp fs3)"] late(10) tn(1)
      have r: "fs_conf fs' = fs_conf fs3" "\<forall>k'. k' \<noteq> tmp \<longrightarrow> node_at fs' k' = node_at fs3 k'" by simp_all
      from r(2) False f3 tn(1) have "node_at fs' k = node_at fs1 k" by simp
      with grown_kept [OF late(3), of jk k] r(1) f3 c show ?thesis by (simp add: kept_def)
    qed
  qed
  then show "kept jk (fs_key fs (Dir out)) fs fs' k" and "fs_conf fs' = fs_conf fs" by simp_all
qed

text \<open>The protocol keeps the file system well-formed.\<close>

definition jk_ok :: "job_kind \<Rightarrow> bool" where
  "jk_ok jk \<longleftrightarrow> CHR ''/'' \<notin> set (jk_pat jk) \<and> 2 < length (jk_pat jk)"

lemma jk_ok_kinds [simp]: "jk_ok (decrypt_kind lzr opts)" "jk_ok (encrypt_kind lzw crand build)"
  by (simp_all add: jk_ok_def decrypt_kind_def encrypt_kind_def)

lemma fs_wf_rand [simp]: "fs_wf (fs\<lparr>fs_rand := ns\<rparr>) = fs_wf fs"
  by (simp add: fs_wf_def)

lemma CreateTemp_wf:
  assumes "os_CreateTemp dir (jk_pat jk) fs = Inr (k, fs')" and "fs_wf fs" and "jk_ok jk"
  shows "fs_wf fs'"
proof -
  from CreateTemp_InrD [OF assms(1)] obtain n ns where c: "k = fs_key fs dir @ [jk_pat jk @ dec_digits n]"
    "node_at fs k = None" "node_at fs (fs_key fs dir) = Some DirNode"
    "fs' = put_node k (FileNode [] (fs_clock fs)) (fs\<lparr>fs_rand := ns\<rparr>)" by blast
  have "fs_wf (put_node k (FileNode [] (fs_clock fs)) (fs\<lparr>fs_rand := ns\<rparr>))"
    using c(1-3) assms(2,3) by (intro fs_wf_put) (simp_all add: jk_ok_def plain_temp)
  with c(4) show ?thesis by simp
qed

lemma temp_store_wf:
  assumes "node_at fs k = Some (FileNode c t)" and "fs_wf fs"
  shows "fs_wf (temp_store k s fs)"
proof -
  have k: "k \<noteq> []" using assms(1) by (cases "k = []") simp_all
  then have "k = butlast k @ [last k]" by simp
  with fs_wf_child [OF assms(2), of "butlast k" "last k"] assms(1)
  have "node_at fs (butlast k) = Some DirNode" "plain (last k)" by simp_all
  with k assms show ?thesis by (simp add: temp_store_def fs_wf_put)
qed

lemma Rename_wf: "os_Rename k p fs = (fs', r) \<Longrightarrow> k \<noteq> [] \<Longrightarrow> fs_wf fs \<Longrightarrow> fs_wf fs'"
proof (cases r)
  case None
  assume a: "os_Rename k p fs = (fs', r)" "k \<noteq> []" "fs_wf fs"
  from Rename_ok [of k p fs fs'] a None obtain c t where r: "node_at fs k = Some (FileNode c t)"
    "node_at fs (fs_key fs p) \<noteq> Some DirNode" "fs_key fs p \<noteq> []" "node_at fs (butlast (fs_key fs p)) = Some DirNode"
    "fs' = put_node (fs_key fs p) (FileNode c t) (del_node k fs)" by blast
  have "plain (last (fs_key fs p))" using fs_key_plain [OF a(3), of p] r(3) by (simp add: list_all_iff)
  moreover have "fs_wf (del_node k fs)" using a(3) r(1) by (simp add: fs_wf_del_file)
  moreover have "butlast (fs_key fs p) \<noteq> k" using r(1,4) by auto
  ultimately show ?thesis unfolding r(5) using r a(2) by (intro fs_wf_put) auto
qed (auto dest: Rename_error)

lemma move_temp_wf: "move_temp out tmp r fs = (fs', r') \<Longrightarrow> tmp \<noteq> [] \<Longrightarrow> fs_wf fs \<Longrightarrow> fs_wf fs'"
  by (auto simp: move_temp_def Rename_wf split: option.splits)

lemma crypt_file_wf:
  assumes "crypt_file jk inPath out fs = (fs', r)" and "fs_wf fs" and "jk_ok jk"
  shows "fs_wf fs'"
  using assms(1)
proof (cases rule: crypt_file_cases)
  case (early e)
  with assms(2) show ?thesis by simp
next
  case (late src fs1 tmp n ms ns s q fs3)
  have tn: "tmp \<noteq> []" using late(5) by simp
  have "fs_wf fs1" using make_parents_wf [OF late(2) assms(2)] .
  then have "fs_wf (temp_store tmp s (fs1\<lparr>fs_rand := ns\<rparr>))"
    using late(5,6,7) assms(3) by (simp add: temp_store_def fs_wf_put jk_ok_def plain_temp)
  from move_temp_wf [OF late(9) tn this] show ?thesis
    using late(10) Remove_wf [of tmp fs3 fs' "snd (os_Remove tmp fs3)"] by simp
qed

section \<open>What the two kinds of jobs compute\<close>

text \<open>
  \<open>genuine\<close>: \<open>x\<close> is what the stream \<open>src\<close> holds for somebody with the secret: the metadata \<open>Inspect\<close> reports has
  supported modes, the secret recovers the session key from it, and the ciphertext of all data dicts is
  an encryption of the payload of \<open>x\<close>. \<open>encrypted\<close>: \<open>c\<close> is a stream made of the bytes of \<open>src\<close>.
\<close>

definition genuine :: "'d lz_reader \<Rightarrow> DecryptOptions \<Rightarrow> reader \<Rightarrow> bytes \<Rightarrow> bool" where
  "genuine lzr opts src x \<longleftrightarrow>
     (\<exists>r' snap. consumeMagic src = Inr r' \<and> Inspect src = Inr snap \<and> decrypted lzr opts (stream_ciphertext r') snap x)"

definition encrypted :: "'e lz_writer \<Rightarrow> reader \<Rightarrow> EncryptOptions \<Rightarrow> reader \<Rightarrow> bytes \<Rightarrow> bool" where
  "encrypted lzw crand opts src c \<longleftrightarrow> rend src = ErrEOF \<and>
     (ePassword opts \<noteq> [] \<or> ePublicKey opts \<noteq> None) \<and> (opt_major opts = 1 \<or> opt_major opts = 3) \<and>
     (\<exists>m sk cs. prepared crand opts m sk \<and> chunking cs \<and>
        concat cs = ciphertext sk (payload lzw opts (copy_reads (rest src))) \<and>
        c = csenc_stream m cs (rest src))"

lemma copy_reads_concat: "concat (copy_reads b) = b" "[] \<notin> set (copy_reads b)"
proof -
  have "concat (copy_reads b) = b \<and> [] \<notin> set (copy_reads b)"
  proof (induction b rule: copy_reads.induct)
    case (1 b)
    then show ?case by (cases "b = []"; subst (1 2) copy_reads.simps) simp_all
  qed
  then show "concat (copy_reads b) = b" "[] \<notin> set (copy_reads b)" by simp_all
qed

lemma copy_reads_filter: "filter (\<lambda>c. c \<noteq> []) (copy_reads b) = copy_reads b"
  using copy_reads_concat(2) [of b] by (auto simp: filter_id_conv)

lemma decrypt_result:
  assumes "result_of (decrypt_kind lzr opts) p src x" shows "genuine lzr opts src x"
proof -
  from assms obtain rm s where "jk_run (decrypt_kind lzr opts) p src \<lparr>written = [], room = rm\<rparr> = (s, None)"
    and xs: "x = written s" by (auto simp: result_of_def)
  then obtain st where D: "Decrypt lzr src \<lparr>written = [], room = rm\<rparr> opts = (st, None)" and "s = dec_out st"
    by (cases "Decrypt lzr src \<lparr>written = [], room = rm\<rparr> opts") (simp add: decrypt_kind_def)
  with xs have x: "x = written (dec_out st)" by simp
  from D obtain r' where r': "consumeMagic src = Inr r'"
    "decrypt_loop lzr opts (init_decrypt \<lparr>written = [], room = rm\<rparr>) r' = (st, None)"
    by (auto simp: Decrypt_def split: sum.splits)
  from decrypt_loop_ok [OF init_loop_inv r'(2)] obtain snap y where s: "d_snaps st = [snap]"
    "decrypted lzr opts (stream_ciphertext r') snap y" "written (dec_out st) = y" by auto
  from decrypt_loop_inspect [OF r'(2), of snap] s(1) r'(1) have "Inspect src = Inr snap"
    by (simp add: Inspect_def init_decrypt_def)
  with s r'(1) x show ?thesis by (auto simp: genuine_def)
qed

lemma encrypt_result:
  assumes "result_of (encrypt_kind lzw crand build) p src c"
  shows "encrypted lzw (crand p) (default_filename p (build p)) src c"
proof -
  from assms obtain rm s where E: "Encrypt lzw (crand p) (copy_reads (rest src)) (rend src) \<lparr>written = [], room = rm\<rparr>
      (default_filename p (build p)) = (s, None)" and c: "c = written s"
    by (auto simp: result_of_def encrypt_kind_def)
  from Encrypt_stream [OF E] c show ?thesis
    by (simp add: encrypted_def copy_reads_filter copy_reads_concat) blast
qed

section \<open>The interface of a job\<close>

text \<open>
  What the batch relies on: a proper pattern for the temporary names and a meaning of the results. The
  lemmas hold for both directions through the interpretations \<open>decj\<close> and \<open>encj\<close> below.
\<close>

locale crypt_job =
  fixes jk :: job_kind and spec :: "path \<Rightarrow> reader \<Rightarrow> bytes \<Rightarrow> bool"
  assumes pattern: "jk_ok jk"
    and result: "result_of jk p src c \<Longrightarrow> spec p src c"
begin

lemma file_done:
  assumes "crypt_file jk i out fs = (fs', None)" and "\<not> temp_name jk (fs_key fs out)"
  shows "\<exists>src c. os_Open fs i = Inr src \<and> spec i src c \<and> node_at fs' (fs_key fs out) = Some (FileNode c (fs_clock fs))"
  using crypt_file_ok(1) [OF assms] result unfolding result_of_def by blast

lemma file_frame:
  assumes "crypt_file jk i out fs = (fs', r)" and "\<not> temp_name jk (fs_key fs out)"
    and "r \<noteq> None \<or> k \<noteq> fs_key fs out"
  shows "kept jk (fs_key fs (Dir out)) fs fs' k"
  using assms crypt_file_ok(2) crypt_file_error(1) by (cases r) blast+

lemma file_wf: "crypt_file jk i out fs = (fs', r) \<Longrightarrow> fs_wf fs \<Longrightarrow> fs_wf fs'"
  using crypt_file_wf pattern by blast

end

interpretation decj: crypt_job "decrypt_kind lzr opts" "\<lambda>p. genuine lzr opts" for lzr opts
  by unfold_locales (simp_all add: decrypt_result)

interpretation encj: crypt_job "encrypt_kind lzw crand build"
    "\<lambda>p. encrypted lzw (crand p) (default_filename p (build p))" for lzw crand build
  by unfold_locales (simp_all add: encrypt_result)

end
