(* ===== verification/Jobs.thy ===== *)
theory Jobs
  imports Files
begin

text \<open>
  One job of a batch: \<open>runOne\<close> of \<open>batch.go\<close> and \<open>runEncryptOne\<close> of \<open>main.go\<close>, which differ only in the file
  operation they call (the \<open>job_kind\<close>), as a whole and as the single steps that a concurrent run
  interleaves. \<open>job_unit\<close> is the type \<open>unit\<close> (\<open>encryptUnit\<close>) of the code. The clock readings for durations are
  left out.
\<close>

record job_unit =
  inPath :: path
  outPath :: path
  usize :: int64

datatype BatchEventKind = EventDiscovered | EventSucceeded | EventSkipped | EventFailed

record BatchEvent =
  evKind :: BatchEventKind
  evInput :: path
  evOutput :: path
  evInSize :: int64
  evOutSize :: int64
  evErr :: "error option"

definition event_of :: "job_unit \<Rightarrow> BatchEventKind \<Rightarrow> BatchEvent" where
  "event_of u k =
     \<lparr>evKind = k, evInput = inPath u, evOutput = outPath u, evInSize = usize u, evOutSize = 0, evErr = None\<rparr>"

record job_conf =
  jc_kind :: job_kind
  jc_skip :: bool
  jc_preserve :: bool

section \<open>The whole job\<close>

text \<open>\<open>SkipExisting\<close>: the output is there and is not a directory.\<close>

definition skips :: "job_conf \<Rightarrow> job_unit \<Rightarrow> fsys \<Rightarrow> bool" where
  "skips jc u fs \<longleftrightarrow>
     jc_skip jc \<and> (case os_Stat fs (outPath u) of Inl e \<Rightarrow> False | Inr st \<Rightarrow> \<not> fi_isdir st)"

text \<open>After the file operation: the output's size and, with \<open>PreserveTime\<close>, its mtime; a failing stat of the source is logged.\<close>

definition after_success :: "job_conf \<Rightarrow> job_unit \<Rightarrow> fsys \<Rightarrow> fsys \<times> BatchEvent \<times> error list" where
  "after_success jc u fs =
     (let size = (case os_Stat fs (outPath u) of Inl e \<Rightarrow> 0 | Inr st \<Rightarrow> fi_size st);
          (fs', logs) =
            (if jc_preserve jc
             then (case os_Stat fs (inPath u) of
                     Inr src \<Rightarrow> (fst (os_Chtimes (outPath u) (fi_mtime src) fs), [])
                   | Inl e \<Rightarrow> (fs, [e]))
             else (fs, []))
      in (fs', (event_of u EventSucceeded)\<lparr>evOutSize := size\<rparr>, logs))"

definition runOne :: "job_conf \<Rightarrow> job_unit \<Rightarrow> fsys \<Rightarrow> fsys \<times> BatchEvent \<times> error list" where
  "runOne jc u fs =
     (if skips jc u fs then (fs, event_of u EventSkipped, [])
      else
        (case crypt_file (jc_kind jc) (inPath u) (outPath u) fs of
           (fs1, Some e) \<Rightarrow> (fs1, (event_of u EventFailed)\<lparr>evErr := Some e\<rparr>, [])
         | (fs1, None) \<Rightarrow> after_success jc u fs1))"

section \<open>The job as single steps\<close>

datatype job =
    JCheck
  | JFile phase
  | JDone BatchEvent "error list"

fun job_step :: "job_conf \<Rightarrow> job_unit \<Rightarrow> job \<times> fsys \<Rightarrow> job \<times> fsys" where
  "job_step jc u (JCheck, fs) =
     (if skips jc u fs then (JDone (event_of u EventSkipped) [], fs) else (JFile FStart, fs))"
| "job_step jc u (JFile (FEnd (Some e)), fs) = (JDone ((event_of u EventFailed)\<lparr>evErr := Some e\<rparr>) [], fs)"
| "job_step jc u (JFile (FEnd None), fs) =
     (case after_success jc u fs of (fs', ev, logs) \<Rightarrow> (JDone ev logs, fs'))"
| "job_step jc u (JFile ph, fs) =
     (case file_step (jc_kind jc) (inPath u) (outPath u) (ph, fs) of (ph', fs') \<Rightarrow> (JFile ph', fs'))"
| "job_step jc u (JDone ev logs, fs) = (JDone ev logs, fs)"

text \<open>How many steps are left at most.\<close>

fun phase_rank :: "phase \<Rightarrow> nat" where
  "phase_rank FStart = 6"
| "phase_rank (FOpened src) = 5"
| "phase_rank (FDirs src) = 4"
| "phase_rank (FTemp tmp src) = 3"
| "phase_rank (FWritten tmp r) = 2"
| "phase_rank (FMoved tmp r) = 1"
| "phase_rank (FEnd r) = 0"

fun job_rank :: "job \<Rightarrow> nat" where
  "job_rank JCheck = 8"
| "job_rank (JFile ph) = Suc (phase_rank ph)"
| "job_rank (JDone ev logs) = 0"

lemma file_step_rank:
  "0 < phase_rank ph \<Longrightarrow> phase_rank (fst (file_step jk i out (ph, fs))) < phase_rank ph"
  by (cases ph) (auto split: sum.split prod.split option.split)

lemma job_step_rank: "0 < job_rank j \<Longrightarrow> job_rank (fst (job_step jc u (j, fs))) < job_rank j"
proof (cases j)
  case (JFile ph)
  show ?thesis
  proof (cases ph)
    case (FEnd r)
    with JFile show ?thesis by (cases r) (auto split: prod.split)
  qed (use JFile file_step_rank [of ph "jc_kind jc" "inPath u" "outPath u" fs] in \<open>auto split: prod.split\<close>)
qed simp_all

lemma job_step_done: "(job_step jc u ^^ n) (JDone ev logs, fs) = (JDone ev logs, fs)"
  by (induction n) simp_all

lemma job_step_file:
  assumes "file_step (jc_kind jc) (inPath u) (outPath u) (ph, fs) = (ph', fs')" and "0 < phase_rank ph"
  shows "job_step jc u (JFile ph, fs) = (JFile ph', fs')"
  using assms by (cases ph) auto

text \<open>A single job run to its end is \<open>runOne\<close>.\<close>

lemma job_step_fix: "job_rank (fst c) = 0 \<Longrightarrow> (job_step jc u ^^ n) c = c"
  by (cases c; cases "fst c") (simp_all add: job_step_done)

lemma job_steps_file:
  assumes "(file_step (jc_kind jc) (inPath u) (outPath u) ^^ n) (ph, fs) = (FEnd r, fs')" and "phase_rank ph \<le> n"
  shows "\<exists>m \<le> n. (job_step jc u ^^ m) (JFile ph, fs) = (JFile (FEnd r), fs')"
  using assms
proof (induction n arbitrary: ph fs)
  case 0
  then show ?case by (intro exI [of _ 0]) simp
next
  case (Suc n)
  show ?case
  proof (cases "phase_rank ph")
    case 0
    then obtain r0 where "ph = FEnd r0" by (cases ph) simp_all
    with Suc.prems have "FEnd r0 = FEnd r" "fs = fs'" by (simp_all del: funpow.simps)
    with \<open>ph = FEnd r0\<close> show ?thesis by (intro exI [of _ 0]) simp
  next
    case (Suc k)
    obtain ph1 fs1 where s: "file_step (jc_kind jc) (inPath u) (outPath u) (ph, fs) = (ph1, fs1)"
      by (cases "file_step (jc_kind jc) (inPath u) (outPath u) (ph, fs)")
    from file_step_rank [of ph "jc_kind jc" "inPath u" "outPath u" fs] Suc Suc.prems(2) s
    have "phase_rank ph1 \<le> n" by simp
    moreover from Suc.prems(1) s have "(file_step (jc_kind jc) (inPath u) (outPath u) ^^ n) (ph1, fs1) = (FEnd r, fs')"
      by (simp add: funpow_Suc_right del: funpow.simps)
    ultimately obtain m where "m \<le> n" "(job_step jc u ^^ m) (JFile ph1, fs1) = (JFile (FEnd r), fs')"
      using Suc.IH by blast
    moreover have "job_step jc u (JFile ph, fs) = (JFile ph1, fs1)" using job_step_file [OF s] Suc by simp
    ultimately show ?thesis by (intro exI [of _ "Suc m"]) (simp add: funpow_Suc_right del: funpow.simps)
  qed
qed

lemma job_steps:
  "\<exists>n \<le> 8. (job_step jc u ^^ n) (JCheck, fs) =
     (case runOne jc u fs of (fs', ev, logs) \<Rightarrow> (JDone ev logs, fs'))"
proof (cases "skips jc u fs")
  case True
  then show ?thesis by (intro exI [of _ 1]) (simp add: runOne_def)
next
  case False
  obtain fs1 r where c: "crypt_file (jc_kind jc) (inPath u) (outPath u) fs = (fs1, r)"
    by (cases "crypt_file (jc_kind jc) (inPath u) (outPath u) fs")
  with file_steps [of "jc_kind jc" "inPath u" "outPath u" fs] obtain m where
    m: "m \<le> 6" "(job_step jc u ^^ m) (JFile FStart, fs) = (JFile (FEnd r), fs1)"
    using job_steps_file [where n = 6 and ph = FStart] by fastforce
  have "job_step jc u (JFile (FEnd r), fs1) = (case runOne jc u fs of (fs', ev, logs) \<Rightarrow> (JDone ev logs, fs'))"
    using False c by (cases r) (simp_all add: runOne_def)
  then have "(job_step jc u ^^ Suc m) (JFile FStart, fs) = (case runOne jc u fs of (fs', ev, logs) \<Rightarrow> (JDone ev logs, fs'))"
    using m(2) by simp
  then have "(job_step jc u ^^ Suc (Suc m)) (JCheck, fs) = (case runOne jc u fs of (fs', ev, logs) \<Rightarrow> (JDone ev logs, fs'))"
    using False by (simp add: funpow_Suc_right del: funpow.simps)
  with m(1) show ?thesis by (intro exI [of _ "Suc (Suc m)"]) simp
qed

end
