(* ===== verification/Batch.thy ===== *)
theory Batch
  imports Jobs
begin

text \<open>
  \<open>batch.go\<close>: the configuration checks, the discovery of the units, and the concurrent run. The run is a
  step relation: the main goroutine launches the next unit when a slot of the semaphore is free, a running
  job makes one of its steps, or a goroutine whose job is over goes on with what is left to it: it adds to the
  counters, appends to the errors, calls \<open>OnEvent\<close>, and gives back its slot. Steps of different goroutines
  interleave in any order.
\<close>

section \<open>Configuration and report\<close>

record BatchConfig =
  bInputs :: "path list"
  bOutputDir :: path
  bPassword :: "bytes option"
  bPrivateKey :: "rsa_private option"
  bRecursive :: bool
  bConcurrency :: int
  bSkipExisting :: bool
  bPreserveTime :: bool
  bFilter :: "(path \<Rightarrow> FileInfo \<Rightarrow> bool) option"

record BatchError =
  beInput :: path
  beErr :: error

record BatchReport =
  rpDiscovered :: int64
  rpSucceeded :: int64
  rpSkipped :: int64
  rpFailed :: int64
  rpBytesIn :: int64
  rpBytesOut :: int64
  rpErrors :: "BatchError list"

definition empty_report :: BatchReport where
  "empty_report =
     \<lparr>rpDiscovered = 0, rpSucceeded = 0, rpSkipped = 0, rpFailed = 0, rpBytesIn = 0, rpBytesOut = 0, rpErrors = []\<rparr>"

definition config_error :: "BatchConfig \<Rightarrow> error option" where
  "config_error cfg =
     (if bOutputDir cfg = [] then Some ErrOutputDirRequired
      else if bPassword cfg = None \<and> bPrivateKey cfg = None then Some ErrBatchSecret
      else None)"

definition worker_count :: "nat \<Rightarrow> int \<Rightarrow> nat" where
  "worker_count maxprocs jobs = (if jobs \<le> 0 then maxprocs else nat jobs)"

section \<open>Discovery\<close>

record plan =
  pl_units :: "job_unit list"
  pl_errs :: "BatchError list"
  pl_seen :: "path list"

definition empty_plan :: plan where
  "empty_plan = \<lparr>pl_units = [], pl_errs = [], pl_seen = []\<rparr>"

definition plan_error :: "path \<Rightarrow> error \<Rightarrow> plan \<Rightarrow> plan" where
  "plan_error p e pl = pl\<lparr>pl_errs := pl_errs pl @ [\<lparr>beInput = p, beErr = e\<rparr>]\<rparr>"

definition push :: "path \<Rightarrow> path \<Rightarrow> int64 \<Rightarrow> plan \<Rightarrow> plan" where
  "push p out sz pl =
     (if p \<in> set (pl_seen pl) then pl
      else pl\<lparr>pl_seen := p # pl_seen pl,
              pl_units := pl_units pl @ [\<lparr>inPath = p, outPath = out, usize = sz\<rparr>]\<rparr>)"

definition defaultCsencFilter :: "fsys \<Rightarrow> path \<Rightarrow> FileInfo \<Rightarrow> bool" where
  "defaultCsencFilter fs p info = (case IsCsencFile fs p of Inl e \<Rightarrow> False | Inr ok \<Rightarrow> ok)"

definition filter_of :: "fsys \<Rightarrow> BatchConfig \<Rightarrow> path \<Rightarrow> FileInfo \<Rightarrow> bool" where
  "filter_of fs cfg = (case bFilter cfg of None \<Rightarrow> defaultCsencFilter fs | Some f \<Rightarrow> f)"

text \<open>The path the walk of \<open>root\<close> gives to the entry at \<open>ns\<close>.\<close>

definition walk_path :: "path \<Rightarrow> string list \<Rightarrow> path" where
  "walk_path root ns = (case key_of root of (r, cs) \<Rightarrow> path_of (r, cs @ ns))"

definition discover_visit :: "fsys \<Rightarrow> BatchConfig \<Rightarrow> path \<Rightarrow> plan \<Rightarrow> visit \<Rightarrow> plan" where
  "discover_visit fs cfg root pl v =
     (case v of (ns, isdir, walkErr) \<Rightarrow>
        let p = walk_path root ns in
        case walkErr of
          Some e \<Rightarrow> plan_error p e pl
        | None \<Rightarrow>
            if isdir then pl
            else
              (case os_Info fs (fs_key fs root @ ns) of
                 Inl e \<Rightarrow> plan_error p e pl
               | Inr fi \<Rightarrow>
                   if \<not> filter_of fs cfg p fi then pl
                   else
                     (case Rel root p of
                        Inl e \<Rightarrow> plan_error p e pl
                      | Inr rel \<Rightarrow> push p (Join [bOutputDir cfg, Base root, rel]) (fi_size fi) pl)))"

definition discover_input :: "fsys \<Rightarrow> BatchConfig \<Rightarrow> plan \<Rightarrow> path \<Rightarrow> plan" where
  "discover_input fs cfg pl inp =
     (case os_Stat fs inp of
        Inl e \<Rightarrow> plan_error inp e pl
      | Inr info \<Rightarrow>
          if fi_isdir info
          then if \<not> bRecursive cfg then plan_error inp ErrIsDirectory pl
               else foldl (discover_visit fs cfg (Clean inp)) pl (walk_dir fs (fs_key fs (Clean inp)))
          else if \<not> filter_of fs cfg inp info then pl
          else push inp (Join [bOutputDir cfg, Base inp]) (fi_size info) pl)"

definition discover :: "fsys \<Rightarrow> BatchConfig \<Rightarrow> plan" where
  "discover fs cfg = foldl (discover_input fs cfg) empty_plan (bInputs cfg)"

section \<open>The run\<close>

text \<open>
  The accounting of a finished job: the counters (atomic additions, read only when the run is over), then, under
  the lock, the error of a failed one.
\<close>

definition count_event :: "BatchEvent \<Rightarrow> BatchReport \<Rightarrow> BatchReport" where
  "count_event ev rep =
     (case evKind ev of
        EventSucceeded \<Rightarrow>
          rep\<lparr>rpSucceeded := rpSucceeded rep + 1, rpBytesIn := rpBytesIn rep + evInSize ev,
              rpBytesOut := rpBytesOut rep + evOutSize ev\<rparr>
      | EventSkipped \<Rightarrow> rep\<lparr>rpSkipped := rpSkipped rep + 1\<rparr>
      | EventFailed \<Rightarrow> rep\<lparr>rpFailed := rpFailed rep + 1\<rparr>
      | EventDiscovered \<Rightarrow> rep)"

definition error_of :: "BatchEvent \<Rightarrow> BatchError" where
  "error_of ev = \<lparr>beInput = evInput ev, beErr = the (evErr ev)\<rparr>"

definition record_error :: "BatchEvent \<Rightarrow> BatchReport \<Rightarrow> BatchReport" where
  "record_error ev rep =
     (if evKind ev = EventFailed then rep\<lparr>rpErrors := rpErrors rep @ [error_of ev]\<rparr> else rep)"

text \<open>Where a goroutine stands behind \<open>runOne\<close>; its slot is free only when it is gone.\<close>

datatype closing =
    Counted BatchEvent
  | Recorded BatchEvent
  | Announced

record batch =
  bt_queue :: "job_unit list"
  bt_running :: "(job_unit \<times> job) list"
  bt_closing :: "closing list"
  bt_fs :: fsys
  bt_rep :: BatchReport
  bt_events :: "BatchEvent list"
  bt_logs :: "error list"

text \<open>After the discovery: its errors are counted and every unit is announced.\<close>

definition start_batch :: "job_unit list \<Rightarrow> BatchError list \<Rightarrow> fsys \<Rightarrow> batch" where
  "start_batch us errs fs =
     \<lparr>bt_queue = us, bt_running = [], bt_closing = [], bt_fs = fs,
      bt_rep = empty_report\<lparr>rpErrors := errs, rpFailed := word_of_nat (length errs),
                            rpDiscovered := word_of_nat (length us)\<rparr>,
      bt_events = map (\<lambda>u. event_of u EventDiscovered) us, bt_logs = []\<rparr>"

inductive batch_step :: "job_conf \<Rightarrow> nat \<Rightarrow> batch \<Rightarrow> batch \<Rightarrow> bool" for jc workers where
  launch: "bt_queue b = u # q \<Longrightarrow> length (bt_running b) + length (bt_closing b) < workers \<Longrightarrow>
     batch_step jc workers b (b\<lparr>bt_queue := q, bt_running := bt_running b @ [(u, JCheck)]\<rparr>)"
| work: "bt_running b = xs @ (u, j) # ys \<Longrightarrow> 0 < job_rank j \<Longrightarrow>
     job_step jc u (j, bt_fs b) = (j', fs') \<Longrightarrow>
     batch_step jc workers b (b\<lparr>bt_running := xs @ (u, j') # ys, bt_fs := fs'\<rparr>)"
| count: "bt_running b = xs @ (u, JDone ev logs) # ys \<Longrightarrow>
     batch_step jc workers b
       (b\<lparr>bt_running := xs @ ys, bt_closing := bt_closing b @ [Counted ev],
          bt_rep := count_event ev (bt_rep b), bt_logs := bt_logs b @ logs\<rparr>)"
| enter: "bt_closing b = cs @ Counted ev # ds \<Longrightarrow>
     batch_step jc workers b (b\<lparr>bt_closing := cs @ Recorded ev # ds, bt_rep := record_error ev (bt_rep b)\<rparr>)"
| announce: "bt_closing b = cs @ Recorded ev # ds \<Longrightarrow>
     batch_step jc workers b (b\<lparr>bt_closing := cs @ Announced # ds, bt_events := bt_events b @ [ev]\<rparr>)"
| release: "bt_closing b = cs @ Announced # ds \<Longrightarrow>
     batch_step jc workers b (b\<lparr>bt_closing := cs @ ds\<rparr>)"

inductive batch_reach :: "job_conf \<Rightarrow> nat \<Rightarrow> batch \<Rightarrow> batch \<Rightarrow> bool" for jc workers b0 where
  here: "batch_reach jc workers b0 b0"
| more: "batch_reach jc workers b0 b \<Longrightarrow> batch_step jc workers b b' \<Longrightarrow> batch_reach jc workers b0 b'"

text \<open>\<open>wg.Wait()\<close> returns.\<close>

definition finished :: "batch \<Rightarrow> bool" where
  "finished b \<longleftrightarrow> bt_queue b = [] \<and> bt_running b = [] \<and> bt_closing b = []"

text \<open>
  \<open>Batch\<close>: the report of a configuration error, or the state in which a run that was started with the
  discovered units ends.
\<close>

definition decrypt_conf :: "'d lz_reader \<Rightarrow> BatchConfig \<Rightarrow> job_conf" where
  "decrypt_conf lzr cfg =
     \<lparr>jc_kind = decrypt_kind lzr \<lparr>oPassword = bPassword cfg, oPrivateKey = bPrivateKey cfg\<rparr>,
      jc_skip = bSkipExisting cfg, jc_preserve = bPreserveTime cfg\<rparr>"

definition batch_start :: "BatchConfig \<Rightarrow> fsys \<Rightarrow> batch" where
  "batch_start cfg fs = start_batch (pl_units (discover fs cfg)) (pl_errs (discover fs cfg)) fs"

definition Batch :: "'d lz_reader \<Rightarrow> nat \<Rightarrow> BatchConfig \<Rightarrow> fsys \<Rightarrow> BatchReport \<Rightarrow> fsys \<Rightarrow> bool" where
  "Batch lzr maxprocs cfg fs rep fs' \<longleftrightarrow>
     (case config_error cfg of
        Some e \<Rightarrow> rep = empty_report\<lparr>rpErrors := [\<lparr>beInput = [], beErr = e\<rparr>], rpFailed := 1\<rparr> \<and> fs' = fs
      | None \<Rightarrow>
          (\<exists>b. batch_reach (decrypt_conf lzr cfg) (worker_count maxprocs (bConcurrency cfg)) (batch_start cfg fs) b \<and>
             finished b \<and> rep = bt_rep b \<and> fs' = bt_fs b))"

end
