(* ===== verification/BatchCorrect.thy ===== *)
theory BatchCorrect
  imports Batch "HOL-Library.Multiset"
begin

text \<open>
  Concurrent runs: the slots of the semaphore, the accounting, termination, and (\<open>run_inv\<close>) what any
  interleaving leaves in the file system.
\<close>

section \<open>Reachable states\<close>

lemma batch_reach_inv:
  "batch_reach jc w b0 b \<Longrightarrow> P b0 \<Longrightarrow> (\<And>b b'. P b \<Longrightarrow> batch_step jc w b b' \<Longrightarrow> P b') \<Longrightarrow> P b"
  by (induction rule: batch_reach.induct) blast+

lemma batch_reach_trans: "batch_reach jc w b1 b2 \<Longrightarrow> batch_reach jc w b0 b1 \<Longrightarrow> batch_reach jc w b0 b2"
  by (induction rule: batch_reach.induct) (auto intro: batch_reach.more)

lemma workers_bound:
  assumes "batch_reach jc w b0 b" and "length (bt_running b0) + length (bt_closing b0) \<le> w"
  shows "length (bt_running b) + length (bt_closing b) \<le> w"
  using assms by (rule batch_reach_inv) (auto elim: batch_step.cases)

section \<open>Accounting\<close>

definition unit_of :: "BatchEvent \<Rightarrow> job_unit" where
  "unit_of ev = \<lparr>inPath = evInput ev, outPath = evOutput ev, usize = evInSize ev\<rparr>"

definition terminal :: "BatchEvent \<Rightarrow> bool" where
  "terminal ev \<longleftrightarrow> evKind ev \<noteq> EventDiscovered \<and> (evKind ev = EventFailed \<longleftrightarrow> evErr ev \<noteq> None)"

lemma unit_of_event [simp]:
  "unit_of (event_of u k) = u" "unit_of ((event_of u k)\<lparr>evErr := e\<rparr>) = u"
  "unit_of ((event_of u k)\<lparr>evOutSize := n\<rparr>) = u"
  by (simp_all add: unit_of_def event_of_def)

definition done_ok :: "job_unit \<Rightarrow> job \<Rightarrow> bool" where
  "done_ok u j = (case j of JDone ev logs \<Rightarrow> unit_of ev = u \<and> terminal ev | _ \<Rightarrow> True)"

lemma after_success_event: "after_success jc u fs = (fs', ev, logs) \<Longrightarrow>
    \<exists>n. ev = (event_of u EventSucceeded)\<lparr>evOutSize := n\<rparr>"
  by (auto simp: after_success_def Let_def split: if_splits sum.splits prod.splits)

lemma job_step_done_ok:
  assumes "job_step jc u (j, fs) = (j', fs')" and "done_ok u j"
  shows "done_ok u j'"
proof (cases j)
  case (JFile ph)
  show ?thesis
  proof (cases "\<exists>r. ph = FEnd r")
    case True
    then obtain r where "ph = FEnd r" by blast
    with JFile assms show ?thesis
      by (cases r) (auto simp: done_ok_def terminal_def event_of_def unit_of_def split: prod.splits dest!: after_success_event)
  next
    case False
    with JFile assms show ?thesis by (cases ph) (auto simp: done_ok_def split: prod.splits)
  qed
qed (use assms in \<open>auto simp: done_ok_def terminal_def event_of_def unit_of_def split: if_splits\<close>)

definition start_report :: "job_unit list \<Rightarrow> BatchError list \<Rightarrow> BatchReport" where
  "start_report us errs = bt_rep (start_batch us errs undefined)"

text \<open>What the goroutines behind \<open>runOne\<close> have still to announce, and to record.\<close>

fun unannounced :: "closing \<Rightarrow> BatchEvent list" where
  "unannounced (Counted ev) = [ev]"
| "unannounced (Recorded ev) = [ev]"
| "unannounced Announced = []"

fun unrecorded :: "closing \<Rightarrow> BatchEvent list" where
  "unrecorded (Counted ev) = [ev]"
| "unrecorded c = []"

abbreviation "failed ev \<equiv> evKind ev = EventFailed"

text \<open>
  The books of a run: \<open>cs\<close> are the events counted, \<open>fs\<close> those whose error is recorded, \<open>evs\<close> those announced, each in
  its own order.
\<close>

definition books :: "job_unit list \<Rightarrow> BatchError list \<Rightarrow> batch \<Rightarrow> BatchEvent list \<Rightarrow> BatchEvent list \<Rightarrow> BatchEvent list \<Rightarrow> bool"
where
  "books us errs b cs fs evs \<longleftrightarrow>
     bt_events b = map (\<lambda>u. event_of u EventDiscovered) us @ evs \<and>
     bt_rep b = (foldl (\<lambda>rep ev. count_event ev rep) (start_report us errs) cs)\<lparr>rpErrors := errs @ map error_of fs\<rparr> \<and>
     mset us = mset (bt_queue b) + mset (map fst (bt_running b)) + mset (map unit_of cs) \<and>
     mset cs = mset evs + mset (concat (map unannounced (bt_closing b))) \<and>
     mset (filter failed cs) = mset fs + mset (filter failed (concat (map unrecorded (bt_closing b)))) \<and>
     (\<forall>(u, j) \<in> set (bt_running b). done_ok u j) \<and> (\<forall>ev \<in> set cs. terminal ev)"

definition accounted :: "job_unit list \<Rightarrow> BatchError list \<Rightarrow> batch \<Rightarrow> bool" where
  "accounted us errs b \<longleftrightarrow> (\<exists>cs fs evs. books us errs b cs fs evs)"

lemma accounted_start: "accounted us errs (start_batch us errs fs)"
  unfolding accounted_def by (intro exI [of _ "[]"]) (simp add: books_def start_batch_def start_report_def)

lemma count_event_errors: "count_event ev (rep\<lparr>rpErrors := es\<rparr>) = (count_event ev rep)\<lparr>rpErrors := es\<rparr>"
  by (cases "evKind ev") (simp_all add: count_event_def)

lemma books_count:
  assumes "books us errs b cs fs evs" and "bt_running b = xs @ (u, JDone ev logs) # ys"
  shows "books us errs (b\<lparr>bt_running := xs @ ys, bt_closing := bt_closing b @ [Counted ev],
    bt_rep := count_event ev (bt_rep b), bt_logs := bt_logs b @ logs\<rparr>) (cs @ [ev]) fs evs"
proof -
  from assms have "unit_of ev = u" "terminal ev" by (auto simp: books_def done_ok_def)
  with assms show ?thesis by (auto simp: books_def count_event_errors)
qed

lemma books_record:
  assumes "books us errs b cs fs evs" and "bt_closing b = ks @ Counted ev # ls"
  shows "books us errs (b\<lparr>bt_closing := ks @ Recorded ev # ls, bt_rep := record_error ev (bt_rep b)\<rparr>) cs
    (if failed ev then fs @ [ev] else fs) evs"
  using assms by (cases "failed ev") (auto simp: books_def record_error_def)

lemma accounted_step:
  assumes "accounted us errs b" and "batch_step jc w b b'"
  shows "accounted us errs b'"
proof -
  from assms(1) obtain cs fs evs where k: "books us errs b cs fs evs" unfolding accounted_def by blast
  from assms(2) have "\<exists>cs fs evs. books us errs b' cs fs evs"
  proof (cases rule: batch_step.cases)
    case (launch u q)
    with k have "books us errs b' cs fs evs" by (auto simp: books_def done_ok_def)
    then show ?thesis by blast
  next
    case (work xs u j ys j' fs')
    with k have "books us errs b' cs fs evs" by (auto simp: books_def dest: job_step_done_ok)
    then show ?thesis by blast
  next
    case (count xs u ev logs ys)
    with books_count [OF k] show ?thesis by blast
  next
    case (enter ks ev ls)
    with books_record [OF k] show ?thesis by blast
  next
    case (announce ks ev ls)
    with k have "books us errs b' cs fs (evs @ [ev])" by (auto simp: books_def)
    then show ?thesis by blast
  next
    case (release ks ls)
    with k have "books us errs b' cs fs evs" by (auto simp: books_def)
    then show ?thesis by blast
  qed
  then show ?thesis unfolding accounted_def .
qed

lemma accounted_reach: "batch_reach jc w (start_batch us errs fs) b \<Longrightarrow> accounted us errs b"
  by (erule batch_reach_inv) (auto intro: accounted_start accounted_step)

text \<open>The counters of the report, as the number of events of each kind.\<close>

definition kinds :: "BatchEventKind \<Rightarrow> BatchEvent list \<Rightarrow> nat" where
  "kinds k evs = length (filter (\<lambda>ev. evKind ev = k) evs)"

lemma kinds_mset: "mset xs = mset ys \<Longrightarrow> kinds k xs = kinds k ys"
  unfolding kinds_def by (metis mset_filter size_mset)

lemma count_events:
  "let rep' = foldl (\<lambda>rep ev. count_event ev rep) rep evs in
     rpDiscovered rep' = rpDiscovered rep \<and>
     rpSucceeded rep' = rpSucceeded rep + word_of_nat (kinds EventSucceeded evs) \<and>
     rpSkipped rep' = rpSkipped rep + word_of_nat (kinds EventSkipped evs) \<and>
     rpFailed rep' = rpFailed rep + word_of_nat (kinds EventFailed evs)"
proof (induction evs arbitrary: rep)
  case (Cons ev evs)
  from Cons [of "count_event ev rep"] show ?case
    by (cases "evKind ev") (simp_all add: Let_def count_event_def kinds_def)
qed (simp add: kinds_def)

lemma kinds_total: "\<forall>ev \<in> set evs. terminal ev \<Longrightarrow>
    length evs = kinds EventSucceeded evs + kinds EventSkipped evs + kinds EventFailed evs"
proof (induction evs)
  case (Cons ev evs)
  then show ?case by (cases "evKind ev") (auto simp: kinds_def terminal_def)
qed (simp add: kinds_def)

text \<open>What the books say, in numbers.\<close>

lemma books_totals:
  assumes "books us errs b cs fs evs"
  shows "rpDiscovered (bt_rep b) = word_of_nat (length us)"
    and "rpSucceeded (bt_rep b) = word_of_nat (kinds EventSucceeded cs)"
    and "rpSkipped (bt_rep b) = word_of_nat (kinds EventSkipped cs)"
    and "rpFailed (bt_rep b) = word_of_nat (length errs + kinds EventFailed cs)"
    and "rpErrors (bt_rep b) = errs @ map error_of fs"
    and "length us = length (bt_queue b) + length (bt_running b) + length cs"
    and "length cs = kinds EventSucceeded cs + kinds EventSkipped cs + kinds EventFailed cs"
    and "\<forall>ev \<in> set evs. terminal ev" and "set evs \<subseteq> set cs"
    and "mset (filter failed evs) \<subseteq># mset fs"
    and "finished b \<Longrightarrow> mset cs = mset evs \<and> mset (map unit_of evs) = mset us \<and> mset fs = mset (filter failed evs)"
proof -
  note a = assms [unfolded books_def]
  from a have r: "bt_rep b = (foldl (\<lambda>rep ev. count_event ev rep) (start_report us errs) cs)\<lparr>rpErrors := errs @ map error_of fs\<rparr>"
    and m: "mset us = mset (bt_queue b) + mset (map fst (bt_running b)) + mset (map unit_of cs)"
    and c: "mset cs = mset evs + mset (concat (map unannounced (bt_closing b)))"
    and f: "mset (filter failed cs) = mset fs + mset (filter failed (concat (map unrecorded (bt_closing b))))"
    and t: "\<forall>ev \<in> set cs. terminal ev" by blast+
  note n = count_events [where evs = cs and rep = "start_report us errs", unfolded Let_def]
  show "rpDiscovered (bt_rep b) = word_of_nat (length us)" "rpSucceeded (bt_rep b) = word_of_nat (kinds EventSucceeded cs)"
    "rpSkipped (bt_rep b) = word_of_nat (kinds EventSkipped cs)"
    "rpFailed (bt_rep b) = word_of_nat (length errs + kinds EventFailed cs)" "rpErrors (bt_rep b) = errs @ map error_of fs"
    unfolding r using n by (simp_all add: start_report_def start_batch_def empty_report_def)
  show "length us = length (bt_queue b) + length (bt_running b) + length cs"
    using arg_cong [OF m, where f = size] by simp
  show "length cs = kinds EventSucceeded cs + kinds EventSkipped cs + kinds EventFailed cs" using kinds_total [OF t] .
  from c have "set evs \<subseteq> set cs" by (metis mset_subset_eq_add_left set_mset_mono set_mset_mset)
  with t show "\<forall>ev \<in> set evs. terminal ev" "set evs \<subseteq> set cs" by blast+
  have "mset (filter failed (concat (map unrecorded ks))) \<subseteq># mset (filter failed (concat (map unannounced ks)))" for ks
  proof (induction ks)
    case (Cons k ks)
    then show ?case by (cases k) (auto intro: subset_mset.order_trans)
  qed simp
  then obtain d where "mset (filter failed (concat (map unannounced (bt_closing b)))) =
      mset (filter failed (concat (map unrecorded (bt_closing b)))) + d" by (metis mset_subset_eq_exists_conv)
  moreover from c f have "mset (filter failed evs) + mset (filter failed (concat (map unannounced (bt_closing b)))) =
      mset fs + mset (filter failed (concat (map unrecorded (bt_closing b))))"
    by (metis filter_union_mset mset_filter)
  ultimately have "mset fs = mset (filter failed evs) + d" by simp
  then show "mset (filter failed evs) \<subseteq># mset fs" by simp
  show "mset cs = mset evs \<and> mset (map unit_of evs) = mset us \<and> mset fs = mset (filter failed evs)" if "finished b"
  proof -
    from that c have cs: "mset cs = mset evs" by (simp add: finished_def)
    then have "mset (map unit_of cs) = mset (map unit_of evs)" "mset (filter failed cs) = mset (filter failed evs)"
      by (metis mset_map, metis mset_filter)
    with that m f cs show ?thesis by (simp add: finished_def)
  qed
qed

section \<open>Termination\<close>

fun closing_rank :: "closing \<Rightarrow> nat" where
  "closing_rank (Counted ev) = 3"
| "closing_rank (Recorded ev) = 2"
| "closing_rank Announced = 1"

definition work_left :: "batch \<Rightarrow> nat" where
  "work_left b = 13 * length (bt_queue b) + sum_list (map (\<lambda>(u, j). job_rank j + 4) (bt_running b)) +
     sum_list (map closing_rank (bt_closing b))"

lemma batch_step_work: "batch_step jc w b b' \<Longrightarrow> work_left b' < work_left b"
proof (induction rule: batch_step.induct)
  case (work b xs u j ys j' fs')
  with job_step_rank [of j jc u "bt_fs b"] show ?case by (simp add: work_left_def)
qed (simp_all add: work_left_def)

lemma batch_progress:
  assumes "0 < w" and "\<not> finished b"
  shows "\<exists>b'. batch_step jc w b b'"
proof (cases "bt_closing b")
  case (Cons c cs)
  then show ?thesis
    using batch_step.enter [of b "[]" _ cs jc w] batch_step.announce [of b "[]" _ cs jc w]
      batch_step.release [of b "[]" cs jc w]
    by (cases c) auto
next
  case closing: Nil
  show ?thesis
  proof (cases "bt_running b")
    case Nil
    with closing assms(2) obtain u q where "bt_queue b = u # q" by (cases "bt_queue b") (auto simp: finished_def)
    with Nil closing assms(1) batch_step.launch [of b u q w jc] show ?thesis by auto
  next
    case (Cons r rs)
    obtain u j where r: "r = (u, j)" by (cases r)
    show ?thesis
    proof (cases "0 < job_rank j")
      case True
      obtain j' fs' where s: "job_step jc u (j, bt_fs b) = (j', fs')" by (cases "job_step jc u (j, bt_fs b)")
      from batch_step.work [of b "[]" u j rs, OF _ True s] Cons r show ?thesis by auto
    next
      case False
      then obtain ev logs where "j = JDone ev logs" by (cases j) auto
      with Cons r batch_step.count [of b "[]" u ev logs rs] show ?thesis by auto
    qed
  qed
qed

lemma batch_finishes: "0 < w \<Longrightarrow> \<exists>b'. batch_reach jc w b b' \<and> finished b'"
proof (induction b rule: measure_induct_rule [of work_left])
  case (less b)
  show ?case
  proof (cases "finished b")
    case True
    then show ?thesis using batch_reach.here by blast
  next
    case False
    with batch_progress [OF less.prems] obtain b1 where s: "batch_step jc w b b1" by blast
    from less.IH [OF batch_step_work [OF s] less.prems] obtain b' where "batch_reach jc w b1 b'" "finished b'" by blast
    with batch_reach_trans [of jc w b1 b' b] batch_reach.more [OF batch_reach.here s] show ?thesis by blast
  qed
qed

text \<open>A run as the list of its states.\<close>

fun batch_run :: "job_conf \<Rightarrow> nat \<Rightarrow> batch \<Rightarrow> batch list \<Rightarrow> bool" where
  "batch_run jc w b [] = True"
| "batch_run jc w b (b' # bs) = (batch_step jc w b b' \<and> batch_run jc w b' bs)"

lemma batch_run_length: "batch_run jc w b bs \<Longrightarrow> length bs \<le> work_left b"
proof (induction bs arbitrary: b)
  case (Cons b' bs)
  then show ?case using batch_step_work [of jc w b b'] by fastforce
qed simp

end
