(* ===== verification/FileSuccess.thy ===== *)
theory FileSuccess
  imports Files
begin

text \<open>
  When the file operations succeed: on a file system without faults, with room for the temporary name and
  for the directories of the output. \<open>Decrypt\<close> of the file \<open>EncryptFile\<close> made then restores the input.
\<close>

definition calm :: "fsys \<Rightarrow> bool" where
  "calm fs \<longleftrightarrow> fs_fault fs = (\<lambda>_. None) \<and> fs_rfault fs = (\<lambda>_. None) \<and> fs_room fs = (\<lambda>_. None)"

text \<open>The output is named, is not a directory, and only directories (or nothing) are above it.\<close>

definition out_ok :: "fsys \<Rightarrow> path \<Rightarrow> bool" where
  "out_ok fs out \<longleftrightarrow> plain (Base out) \<and> out = upto_slash out @ Base out \<and> node_at fs (fs_key fs out) \<noteq> Some DirNode \<and>
     (\<forall>k \<in> set (prefixes (fs_key fs (Dir out))). node_at fs k = None \<or> node_at fs k = Some DirNode) \<and>
     (Dir out = [] \<or> Dir out = ''.'' \<longrightarrow> node_at fs (fs_key fs (Dir out)) = Some DirNode)"

definition name_free :: "job_kind \<Rightarrow> path \<Rightarrow> fsys \<Rightarrow> bool" where
  "name_free jk out fs \<longleftrightarrow>
     (case fs_rand fs of
        [] \<Rightarrow> False
      | n # ns \<Rightarrow> node_at fs (fs_key fs (Dir out) @ [jk_pat jk @ dec_digits n]) = None)"

lemma split_slash_end: "split_slash (s @ ''/'') = split_slash s @ [[]]"
proof (induction s)
  case (Cons c s)
  then show ?case by (cases "split_slash s") auto
qed simp

lemma split_slash_join2: "split_slash (s @ CHR ''/'' # x) = split_slash s @ split_slash x"
proof (induction s)
  case (Cons c s)
  then show ?case by (cases "split_slash s") auto
qed simp

lemma upto_slash_end: "upto_slash p = [] \<or> last (upto_slash p) = CHR ''/''"
  using hd_dropWhile [of "\<lambda>c. c \<noteq> CHR ''/''" "rev p"]
  by (auto simp: upto_slash_def last_rev)

lemma fs_key_out:
  assumes "plain x" and "p = upto_slash p @ x"
  shows "fs_key fs p = fs_key fs (Dir p) @ [x]"
proof -
  let ?push = "foldl (push_elem True)"
  have x: "CHR ''/'' \<notin> set x" "x \<noteq> []" using assms(1) by (auto simp: plain_def elem_ok_def)
  have px: "push_elem True st x = x # st" for st using assms(1) by (auto simp: push_elem_def plain_def elem_ok_def)
  show ?thesis
  proof (cases "upto_slash p = []")
    case True
    then have p: "p = x" using assms(2) by simp
    have "rooted p = False" using p x by (cases x) (auto simp: rooted_def)
    then have "fs_key fs p = rev (x # rev (fs_cwd fs))"
      by (simp add: fs_key_def p split_slash_elem x(1) px)
    moreover have "fs_key fs (Dir p) = fs_cwd fs"
      by (simp add: Dir_def True) (simp add: fs_key_def rooted_def push_elem_def)
    ultimately show ?thesis by simp
  next
    case False
    then obtain d where d: "upto_slash p = d @ ''/''" using upto_slash_end [of p] by (metis append_butlast_last_id)
    have "rooted (a @ b) = rooted a" if "a \<noteq> []" for a b using that by (cases a) (simp_all add: rooted_def)
    from this [OF False, of x] assms(2) d have r: "rooted (d @ ''/'') = rooted p" by simp
    have "p = d @ CHR ''/'' # x" using assms(2) d by simp
    then have "split_slash p = split_slash d @ [x]" by (simp only: split_slash_join2 split_slash_elem [OF x(1)])
    then have "fs_key fs p = rev (x # ?push (if rooted p then [] else rev (fs_cwd fs)) (split_slash d))"
      by (simp add: fs_key_def px)
    moreover have "fs_key fs (Dir p) = rev (?push (if rooted p then [] else rev (fs_cwd fs)) (split_slash d))"
      by (simp add: Dir_def d) (simp add: fs_key_def r split_slash_end push_elem_def)
    ultimately show ?thesis by simp
  qed
qed

lemma mkdir_from_succeeds:
  assumes "calm fs" and "\<And>ys. prefix ys xs \<Longrightarrow> node_at fs (k @ ys) = None \<or> node_at fs (k @ ys) = Some DirNode"
  shows "\<exists>fs'. mkdir_from k xs fs = (fs', None)"
  using assms
proof (induction xs arbitrary: k fs)
  case (Cons x xs)
  from Cons.prems(2) [of "[x]"] have n: "node_at fs (k @ [x]) = None \<or> node_at fs (k @ [x]) = Some DirNode" by simp
  let ?fs = "put_node (k @ [x]) DirNode fs"
  have step: "\<exists>fs'. mkdir_from (k @ [x]) xs g = (fs', None)"
    if "calm g" "\<And>q. node_at g q = node_at fs q \<or> node_at g q = Some DirNode" for g
  proof (rule Cons.IH [OF that(1)])
    fix ys
    assume "prefix ys xs"
    with Cons.prems(2) [of "x # ys"] that(2) [of "k @ x # ys"]
    show "node_at g ((k @ [x]) @ ys) = None \<or> node_at g ((k @ [x]) @ ys) = Some DirNode" by auto
  qed
  show ?case
  proof (cases "node_at fs (k @ [x])")
    case None
    have "calm ?fs" using Cons.prems(1) by (simp add: calm_def put_node_def)
    with step [of ?fs] Cons.prems(1) None show ?thesis by (simp add: calm_def)
  next
    case (Some m)
    with n step [of fs] Cons.prems(1) show ?thesis by simp
  qed
qed simp

lemma make_parents_succeeds:
  assumes "calm fs" and "out_ok fs out"
  shows "\<exists>fs'. make_parents out fs = (fs', None)"
  using mkdir_from_succeeds [OF assms(1), of "fs_key fs (Dir out)" "[]"] assms(2)
  by (auto simp: make_parents_def Let_def os_MkdirAll_def out_ok_def in_set_prefixes)

lemma crypt_file_succeeds:
  assumes "calm fs" and "os_Open fs i = Inr src" and "jk_run jk i src new_sink = (s, None)"
    and "out_ok fs out" and "name_free jk out fs" and "\<not> temp_name jk (fs_key fs out)"
    and "fs_wf fs"
  shows "\<exists>fs'. crypt_file jk i out fs = (fs', None) \<and> fs_rand fs' = tl (fs_rand fs) \<and>
    node_at fs' (fs_key fs out) = Some (FileNode (written s) (fs_clock fs))"
proof -
  let ?d = "fs_key fs (Dir out)" and ?o = "fs_key fs out"
  from make_parents_succeeds [OF assms(1,4)] obtain fs1 where m: "make_parents out fs = (fs1, None)" by blast
  have g: "grown ?d fs fs1" using make_parents_grown [OF m] .
  then have c1: "fs_conf fs1 = fs_conf fs" "fs_rand fs1 = fs_rand fs" by (simp_all add: grown_def)
  note cf = fs_confD [OF c1(1)]
  from assms(5) obtain n ns where n: "fs_rand fs = n # ns" "node_at fs (?d @ [jk_pat jk @ dec_digits n]) = None"
    by (auto simp: name_free_def split: list.splits)
  let ?t = "?d @ [jk_pat jk @ dec_digits n]"
  from assms(4) have o: "?o = ?d @ [Base out]" "node_at fs ?o \<noteq> Some DirNode"
    unfolding out_ok_def using fs_key_out [of "Base out" out fs] by blast+
  have tn: "temp_name jk ?t" by (auto simp: temp_name_def)
  have neq: "?o \<noteq> ?t" using assms(6) tn by auto
  have dir: "node_at fs1 ?d = Some DirNode"
    using m assms(4) MkdirAll_dir [of "Dir out" fs fs1]
    by (auto simp: make_parents_def Let_def out_ok_def split: if_splits)
  have longer: "node_at fs1 (?d @ [y]) = node_at fs (?d @ [y])" for y
    using g prefix_length_le [of "?d @ [y]" ?d] by (fastforce simp: grown_def)
  let ?fs2 = "put_node ?t (FileNode [] (fs_clock fs)) (fs1\<lparr>fs_rand := ns\<rparr>)"
  let ?fs3 = "temp_store ?t s ?fs2"
  let ?fs4 = "put_node ?o (FileNode (written s) (fs_clock fs)) (del_node ?t ?fs3)"
  have conf: "fs_conf ?fs2 = fs_conf fs" "fs_conf ?fs3 = fs_conf fs" "fs_conf ?fs4 = fs_conf fs" using c1(1) by simp_all
  have tmp: "os_CreateTemp (Dir out) (jk_pat jk) fs1 = Inr (?t, ?fs2)"
  proof -
    have "draw 10000 (\<lambda>n. node_at fs1 (?d @ [jk_pat jk @ dec_digits n]) = None) (n # ns) = Some (n, ns)"
      using longer n(2) by (simp add: numeral_eq_Suc)
    then show ?thesis using dir cf assms(1) n(1) c1(2) by (simp add: os_CreateTemp_def Let_def calm_def)
  qed
  have sink: "temp_sink ?fs2 ?t = new_sink"
    using fs_confD(5) [OF conf(1)] assms(1) by (simp add: temp_sink_def calm_def new_sink_def)
  have mv: "move_temp out ?t None ?fs3 = (?fs4, None)"
  proof -
    have "out \<noteq> []" using assms(4) by (auto simp: out_ok_def upto_slash_def Base_def plain_def elem_ok_def)
    moreover have "node_at ?fs3 ?t = Some (FileNode (written s) (fs_clock fs))"
      using fs_confD(2) [OF conf(1)] by (simp add: temp_store_def)
    moreover have "node_at ?fs3 ?o = node_at fs ?o" using neq longer [of "Base out"] o(1) by simp
    moreover have "node_at ?fs3 (butlast ?o) = Some DirNode" using o(1) dir by simp
    ultimately show ?thesis
      using fs_confD(3,6) [OF conf(2)] assms(1) o(2)
      by (simp add: move_temp_def os_Close_def os_Rename_def Let_def calm_def)
  qed
  have rm: "os_Remove ?t ?fs4 = (?fs4, Some ENOENT)"
    using fs_confD(3) [OF conf(3)] assms(1) neq o(1) by (simp add: os_Remove_def calm_def)
  have "crypt_file jk i out fs = (?fs4, None)"
    by (simp only: crypt_file_def assms(2) m tmp sink assms(3) mv rm Let_def sum.case prod.case option.case fst_conv)
  moreover have "node_at ?fs4 ?o = Some (FileNode (written s) (fs_clock fs))" "fs_rand ?fs4 = tl (fs_rand fs)"
    using o(1) n(1) by simp_all
  ultimately show ?thesis by blast
qed

lemma calm_conf: "fs_conf fs' = fs_conf fs \<Longrightarrow> calm fs \<Longrightarrow> calm fs'"
  using fs_confD(3-5) [of fs' fs] by (simp add: calm_def)

lemma calm_Open:
  "calm fs \<Longrightarrow> p \<noteq> [] \<Longrightarrow> node_at fs (fs_key fs p) = Some (FileNode c t) \<Longrightarrow> os_Open fs p = Inr (reader_of c)"
  by (simp add: os_Open_def calm_def)

lemma EncryptFile_made:
  assumes "EncryptFile lzw crand i out opts fs = (fs', None)" and "calm fs" and "i \<noteq> []"
    and "node_at fs (fs_key fs i) = Some (FileNode c t)"
    and "\<not> temp_name (encrypt_kind lzw crand (\<lambda>_. opts)) (fs_key fs out)"
  shows "\<exists>s. Encrypt lzw (crand i) (copy_reads c) ErrEOF new_sink (default_filename i opts) = (s, None) \<and>
    node_at fs' (fs_key fs out) = Some (FileNode (written s) (fs_clock fs)) \<and> fs_conf fs' = fs_conf fs"
proof -
  from assms(2-4) have src: "os_Open fs i = Inr (reader_of c)" by (rule calm_Open)
  note r = assms(1) [unfolded EncryptFile_def]
  from assms(2) have "\<lparr>written = [], room = fs_room fs k\<rparr> = new_sink" for k
    by (simp add: calm_def new_sink_def)
  with crypt_file_ok(1) [OF r assms(5)] src crypt_file_ok(3) [OF r assms(5)]
  show ?thesis by (auto simp: encrypt_kind_def)
qed

text \<open>A stream made of the bytes of \<open>src\<close> gives them back.\<close>

lemma encrypted_decrypts:
  assumes "encrypted lzw crand opts src c" and "secret_fits opts (oPassword opt) (oPrivateKey opt)"
    and "codec_ok lzw lzr opts" and "\<not> full_chunks lzw opts (copy_reads (rest src))" and "room out = None"
  shows "\<exists>st. Decrypt lzr (reader_of c) out opt = (st, None) \<and> written (dec_out st) = written out @ rest src"
proof -
  from assms(1) obtain m sk cs where e: "ePassword opts \<noteq> [] \<or> ePublicKey opts \<noteq> None"
    "opt_major opts = 1 \<or> opt_major opts = 3" "prepared crand opts m sk" "chunking cs"
    "concat cs = ciphertext sk (payload lzw opts (copy_reads (rest src)))" "c = csenc_stream m cs (rest src)"
    unfolding encrypted_def by blast
  from Encrypt_succeeds [OF e(1,2) _ e(3), of new_sink lzw "copy_reads (rest src)"] obtain s where
    s: "Encrypt lzw crand (copy_reads (rest src)) ErrEOF new_sink opts = (s, None)" by auto
  from Encrypt_stream(1) [OF s] obtain m' sk' cs' where s': "prepared crand opts m' sk'" "chunking cs'"
    "concat cs' = ciphertext sk' (payload lzw opts (copy_reads (rest src)))"
    "written s = csenc_stream m' cs' (rest src)" by (auto simp: copy_reads_filter copy_reads_concat)
  from e(3) s'(1) have "m' = m" "sk' = sk" by (simp_all add: prepared_def)
  with e(4-6) s'(2-4) chunking_unique have c: "written s = c" by metis
  have w: "written s = (leading_stream m' @ data_stream cs') @ trailer (concat (copy_reads (rest src)))"
    by (simp add: s'(4) csenc_stream_def trailer_def copy_reads_concat)
  have "length (hex_encode (md5 (concat (copy_reads (rest src))))) \<le> 65535" by (simp add: md5.length_hex_H)
  from Decrypt_with_digest [OF s assms(2,3,5) w this] assms(4) show ?thesis
    by (auto simp: c [symmetric] w trailer_def copy_reads_concat)
qed

lemma not_temp_name: "length (last k) < length (jk_pat jk) \<Longrightarrow> \<not> temp_name jk k"
  by (auto simp: temp_name_def)

lemma jk_pat_kinds [simp]:
  "jk_pat (decrypt_kind lzr opts) = ''.csenc-''" "jk_pat (encrypt_kind lzw crand build) = ''.csenc-enc-''"
  by (simp_all add: decrypt_kind_def encrypt_kind_def)

section \<open>Inspecting an encrypted file\<close>

lemma default_filename_options:
  "opt_major (default_filename i opts) = opt_major opts" "opt_minor (default_filename i opts) = opt_minor opts"
  "compressOn (default_filename i opts) = compressOn opts" "ePassword (default_filename i opts) = ePassword opts"
  "ePublicKey (default_filename i opts) = ePublicKey opts"
  "eFilename (default_filename i opts) = (if eFilename opts = [] then Base i else eFilename opts)"
  by (simp_all add: default_filename_def opt_major_def opt_minor_def compressOn_def)

lemma magic_prefix_is_csenc: "IsCsencContent (reader_of (magic_header @ x)) = Inr True"
  by (simp add: IsCsencContent_def read_full_def length_magic_header magic_header_def FileMagic_def bytes_of_string_def)

lemma Inspect_stream:
  assumes "prepared crand opts m sk" and "chunking cs" and "cs \<noteq> []"
  shows "Inspect (reader_of (csenc_stream m cs d)) = Inr (metadata_of m)"
proof -
  from assms(3) obtain c cs' where cs: "cs = c # cs'" by (cases cs) auto
  let ?t = "data_stream cs' @ enc_value (VDict (final_members (hex_encode (md5 d))))"
  let ?d = "enc_value (VDict (data_members c)) @ ?t" and ?r = "\<lambda>b. \<lparr>rest = b, rend = ErrEOF\<rparr>"
  have "leading_ok m" "chunk_ok c" using assms(1,2) by (auto simp: prepared_def chunking_def cs)
  then have n: "Next (?r (enc_value (VDict (leading_members m)) @ ?d)) = Inr (Some (VDict (leading_members m), ?r ?d))"
    "Next (?r ?d) = Inr (Some (VDict (data_members c), ?r ?t))"
    using Next_enc_value [of "VDict (leading_members m)" "?r (enc_value (VDict (leading_members m)) @ ?d)" ?d]
      Next_enc_value [of "VDict (data_members c)" "?r ?d" ?t] wf_members(1) chunk_ok_wf
    by (simp_all del: wf_value.simps enc_value.simps)
  have "inspect_loop newMetadata (?r (enc_value (VDict (leading_members m)) @ ?d)) = inspect_loop (metadata_of m) (?r ?d)"
    by (subst inspect_loop.simps) (simp add: n(1) absorb_leading_members del: enc_value.simps)
  also have "\<dots> = Inr (metadata_of m)"
    by (subst inspect_loop.simps) (simp add: n(2) del: enc_value.simps)
  finally show ?thesis
    by (simp add: Inspect_def reader_of_def csenc_stream_def leading_stream_def cs consumeMagic_header del: enc_value.simps)
qed

lemma prepared_metadata:
  assumes "prepared crand opts m sk"
  shows "mFilename (metadata_of m) = eFilename opts" and "mMajor (metadata_of m) = opt_major opts"
    and "mMinor (metadata_of m) = opt_minor opts" and "mCompress (metadata_of m) = boolAsInt (compressOn opts)"
    and "mEncKey1 (metadata_of m) = None \<longleftrightarrow> ePassword opts = []"
    and "mEncKey2 (metadata_of m) = None \<longleftrightarrow> ePublicKey opts = None"
proof -
  from assms have ph: "prepareHeader opts (opt_rand crand opts) = Inr (m, sk)" by (simp add: prepared_def)
  note D = prepareHeader_InrD [OF ph]
  show "mFilename (metadata_of m) = eFilename opts" "mMajor (metadata_of m) = opt_major opts"
    "mMinor (metadata_of m) = opt_minor opts" "mCompress (metadata_of m) = boolAsInt (compressOn opts)"
    using D(2-5) by (simp_all add: metadata_of_def)
  have "lencKey1 m = [] \<longleftrightarrow> ePassword opts = []"
    using D(8) unwrapPassword_wrap(2) [OF _ D(8), of "replicate 10 0"] by (auto simp: wrapPassword_def)
  then show "mEncKey1 (metadata_of m) = None \<longleftrightarrow> ePassword opts = []" by (simp add: metadata_of_def none_if_nil_def)
  have "lencKey2 m = [] \<longleftrightarrow> ePublicKey opts = None"
  proof (cases "ePublicKey opts")
    case (Some pk)
    from D(9) obtain r r' where "wrapPublicKey (ePublicKey opts) (wire_key (opt_major opts) sk) r = Inr (lencKey2 m, r')"
      by blast
    with Some have "EncryptOAEP r pk (wire_key (opt_major opts) sk) = Inr (lencKey2 m, r')"
      by (auto simp: wrapPublicKey_def split: sum.splits)
    from EncryptOAEP_length [OF this] Some show ?thesis by simp
  qed (use D(9) in \<open>auto simp: wrapPublicKey_def\<close>)
  then show "mEncKey2 (metadata_of m) = None \<longleftrightarrow> ePublicKey opts = None" by (simp add: metadata_of_def none_if_nil_def)
qed

lemma InspectFile_made:
  assumes "EncryptFile lzw crand i enc opts fs = (fs1, None)"
    and "calm fs" and "i \<noteq> []" and "enc \<noteq> []" and "node_at fs (fs_key fs i) = Some (FileNode c t)"
    and "\<not> temp_name (encrypt_kind lzw crand (\<lambda>_. opts)) (fs_key fs enc)"
  shows "IsCsencFile fs1 enc = Inr True \<and>
    (\<exists>m. InspectFile fs1 enc = Inr m \<and> mFilename m = (if eFilename opts = [] then Base i else eFilename opts) \<and>
       mMajor m = opt_major opts \<and> mMinor m = opt_minor opts \<and> mDigest m = ''md5'' \<and> mEncrypt m = 1 \<and>
       mCompress m = (if compressOn opts then 1 else 0) \<and>
       (mEncKey1 m \<noteq> None \<longleftrightarrow> ePassword opts \<noteq> []) \<and> (mEncKey2 m \<noteq> None \<longleftrightarrow> ePublicKey opts \<noteq> None))"
proof -
  from EncryptFile_made [OF assms(1-3,5,6)] obtain s where
    s: "Encrypt lzw (crand i) (copy_reads c) ErrEOF new_sink (default_filename i opts) = (s, None)"
    "node_at fs1 (fs_key fs enc) = Some (FileNode (written s) (fs_clock fs))" "fs_conf fs1 = fs_conf fs" by blast
  have src: "os_Open fs1 enc = Inr (reader_of (written s))"
    using calm_Open [OF calm_conf [OF s(3) assms(2)] assms(4)] s(2) fs_confD(6) [OF s(3)] by simp
  from Encrypt_stream(1) [OF s(1)] obtain m sk cs where
    m: "prepared (crand i) (default_filename i opts) m sk" "chunking cs"
      "concat cs = ciphertext sk (payload lzw (default_filename i opts) (copy_reads c))"
      "written s = csenc_stream m cs c" by (auto simp: copy_reads_filter copy_reads_concat)
  have "cs \<noteq> []" using m(3) length_ciphertext [of sk "payload lzw (default_filename i opts) (copy_reads c)"] by auto
  from Inspect_stream [OF m(1,2) this, of c] have "InspectFile fs1 enc = Inr (metadata_of m)"
    by (simp add: InspectFile_def src m(4))
  moreover have "IsCsencFile fs1 enc = Inr True"
    by (simp add: IsCsencFile_def src m(4) csenc_stream_def leading_stream_def magic_prefix_is_csenc)
  moreover have "mDigest (metadata_of m) = ''md5''" "mEncrypt (metadata_of m) = 1"
    using m(1) prepareHeader_InrD(6) by (auto simp: prepared_def metadata_of_def)
  moreover note prepared_metadata [OF m(1)]
  ultimately show ?thesis
    by (simp add: default_filename_options boolAsInt_def del: not_None_eq)
qed

section \<open>Decrypting what was encrypted\<close>

lemma DecryptFile_made:
  assumes "EncryptFile lzw crand i enc opts fs = (fs1, None)"
    and "calm fs" and "fs_wf fs" and "i \<noteq> []" and "enc \<noteq> []"
    and "node_at fs (fs_key fs i) = Some (FileNode c t)"
    and "\<not> temp_name (encrypt_kind lzw crand (\<lambda>_. opts)) (fs_key fs enc)"
    and "secret_fits (default_filename i opts) (oPassword opt) (oPrivateKey opt)"
    and "codec_ok lzw lzr opts" and "\<not> full_chunks lzw opts (copy_reads c)"
    and "out_ok fs1 out" and "name_free (decrypt_kind lzr opt) out fs1"
    and "\<not> temp_name (decrypt_kind lzr opt) (fs_key fs1 out)"
  shows "\<exists>fs2 t'. DecryptFile lzr enc out opt fs1 = (fs2, None) \<and>
    node_at fs2 (fs_key fs1 out) = Some (FileNode c t')"
proof -
  let ?opts = "default_filename i opts"
  from EncryptFile_made [OF assms(1,2,4,6,7)] obtain s where
    s: "Encrypt lzw (crand i) (copy_reads c) ErrEOF new_sink ?opts = (s, None)"
    "node_at fs1 (fs_key fs enc) = Some (FileNode (written s) (fs_clock fs))" and c1: "fs_conf fs1 = fs_conf fs" by blast
  have calm1: "calm fs1" using calm_conf [OF c1 assms(2)] .
  have wf1: "fs_wf fs1" using encj.file_wf [OF assms(1) [unfolded EncryptFile_def] assms(3)] .
  have src: "os_Open fs1 enc = Inr (reader_of (written s))"
    using calm_Open [OF calm1 assms(5)] s(2) fs_confD(6) [OF c1] by simp
  have same: "compressOn ?opts = compressOn opts" by (simp add: default_filename_def compressOn_def)
  have cod: "codec_ok lzw lzr ?opts" "\<not> full_chunks lzw ?opts (copy_reads c)"
    using assms(9,10) same by (simp_all add: codec_ok_def full_chunks_def)
  from Encrypt_stream(1) [OF s(1)] obtain m cs where
    w: "written s = (leading_stream m @ data_stream cs) @ trailer (concat (copy_reads c))"
    by (auto simp: csenc_stream_def trailer_def)
  have "length (hex_encode (md5 (concat (copy_reads c)))) \<le> 65535" by (simp add: md5.length_hex_H)
  from Decrypt_with_digest [OF s(1) assms(8) cod(1) _ w this, of new_sink] cod(2)
  obtain st where st: "Decrypt lzr (reader_of (written s)) new_sink opt = (st, None)"
    "written (dec_out st) = c"
    by (auto simp: w trailer_def copy_reads_concat)
  have "jk_run (decrypt_kind lzr opt) enc (reader_of (written s)) new_sink = (dec_out st, None)"
    using st(1) by (simp add: decrypt_kind_def)
  from crypt_file_succeeds [OF calm1 src this assms(11-13) wf1] st(2)
  show ?thesis by (auto simp: DecryptFile_def)
qed

section \<open>A sample file system\<close>

definition sample_fs :: "bytes \<Rightarrow> fsys" where
  "sample_fs c =
     \<lparr>fs_nodes = [([''in''], FileNode c 7)], fs_cwd = [], fs_clock = 9, fs_rand = [1, 2, 3, 4],
      fs_fault = (\<lambda>_. None), fs_part = (\<lambda>_ _. False), fs_rfault = (\<lambda>_. None), fs_room = (\<lambda>_. None)\<rparr>"

lemma sample_calm: "calm (sample_fs c)"
  by (simp add: calm_def sample_fs_def)

lemma sample_cwd [simp]: "fs_cwd (sample_fs c) = []" "fs_rand (sample_fs c) = [1, 2, 3, 4]"
  by (simp_all add: sample_fs_def)

lemma sample_nodes: "node_at (sample_fs c) k = (if k = [] then Some DirNode else if k = [''in''] then Some (FileNode c 7) else None)"
  by (simp add: node_at_def sample_fs_def)

lemma sample_wf: "fs_wf (sample_fs c)"
  by (auto simp: fs_wf_def sample_nodes) (simp_all add: sample_fs_def plain_def elem_ok_def)

lemma sample_keys:
  "fs_cwd fs = [] \<Longrightarrow> fs_key fs ''in'' = [''in'']" "fs_cwd fs = [] \<Longrightarrow> fs_key fs ''e'' = [''e'']"
  "fs_cwd fs = [] \<Longrightarrow> fs_key fs ''d/o'' = [''d'', ''o'']" "fs_cwd fs = [] \<Longrightarrow> fs_key fs ''d'' = [''d'']"
  "fs_cwd fs = [] \<Longrightarrow> fs_key fs ''.'' = []"
  by (simp_all add: fs_key_def rooted_def push_elem_def)

lemma sample_paths: "Dir ''e'' = ''.''" "Dir ''d/o'' = ''d''" "Base ''e'' = ''e''" "Base ''d/o'' = ''o''"
  "upto_slash ''e'' = []" "upto_slash ''d/o'' = ''d/''"
  by code_simp+

lemma sample_encrypts:
  assumes "Encrypt lzw (crand ''in'') (copy_reads c) ErrEOF new_sink (default_filename ''in'' opts) = (enc, None)"
  shows "\<exists>fs1. EncryptFile lzw crand ''in'' ''e'' opts (sample_fs c) = (fs1, None) \<and> fs_rand fs1 = [2, 3, 4]"
proof -
  let ?ek = "encrypt_kind lzw crand (\<lambda>_. opts)"
  from assms have run: "jk_run ?ek ''in'' (reader_of c) new_sink = (enc, None)" by (simp add: encrypt_kind_def)
  have src: "os_Open (sample_fs c) ''in'' = Inr (reader_of c)"
    using calm_Open [OF sample_calm, of "''in''" c c 7] by (simp add: sample_nodes sample_keys)
  have "out_ok (sample_fs c) ''e''"
    by (simp add: out_ok_def sample_paths sample_keys sample_nodes plain_def elem_ok_def)
  moreover have "name_free ?ek ''e'' (sample_fs c)" by (simp add: name_free_def sample_paths sample_keys sample_nodes)
  moreover have "\<not> temp_name ?ek (fs_key (sample_fs c) ''e'')" by (rule not_temp_name) (simp add: sample_keys)
  ultimately show ?thesis
    using crypt_file_succeeds [OF sample_calm src run _ _ _ sample_wf] by (auto simp: EncryptFile_def sample_fs_def)
qed

lemma sample_encrypted:
  assumes "EncryptFile lzw crand ''in'' ''e'' opts (sample_fs c) = (fs1, None)" and "fs_rand fs1 = [2, 3, 4]"
  shows "\<not> temp_name (encrypt_kind lzw crand (\<lambda>_. opts)) (fs_key (sample_fs c) ''e'')" and "fs_cwd fs1 = []"
    and "out_ok fs1 ''d/o''" and "name_free (decrypt_kind lzr opt) ''d/o'' fs1" and "\<not> temp_name (decrypt_kind lzr opt) (fs_key fs1 ''d/o'')"
proof -
  show nt: "\<not> temp_name (encrypt_kind lzw crand (\<lambda>_. opts)) (fs_key (sample_fs c) ''e'')"
    by (rule not_temp_name) (simp add: sample_keys)
  note r = assms(1) [unfolded EncryptFile_def]
  from fs_confD(1) [OF crypt_file_ok(3) [OF r nt]] show cwd1: "fs_cwd fs1 = []" by simp
  have n: "node_at fs1 k = node_at (sample_fs c) k" if "k \<noteq> [''e'']" "k \<noteq> []" for k
    using crypt_file_ok(2) [OF r nt, of k] that
    by (auto simp: kept_def sample_paths sample_keys) (simp add: sample_fs_def)
  show "out_ok fs1 ''d/o''"
    using n [of "[''d'']"] n [of "[''d'', ''o'']"]
    by (simp add: out_ok_def sample_paths sample_keys cwd1 sample_nodes plain_def elem_ok_def)
  show "name_free (decrypt_kind lzr opt) ''d/o'' fs1"
    using n [of "[''d'', ''.csenc-'' @ dec_digits 2]"]
    by (simp add: name_free_def assms(2) sample_paths sample_keys cwd1 sample_nodes)
  show "\<not> temp_name (decrypt_kind lzr opt) (fs_key fs1 ''d/o'')"
    by (rule not_temp_name) (simp add: sample_keys cwd1)
qed

lemma sample_enc_file:
  "\<exists>fs1. EncryptFile frame_writer (\<lambda>_. reader_of []) ''in'' ''e'' (sample_opts False) (sample_fs c) = (fs1, None) \<and>
     fs_rand fs1 = [2, 3, 4]"
proof -
  have "default_filename ''in'' (sample_opts False) = sample_opts False"
    by (simp add: default_filename_def sample_opts_def)
  with sample_Encrypt [of _ _ False] show ?thesis by (metis sample_encrypts)
qed

lemma sample_stream:
  "\<exists>c st. IsCsencContent (reader_of c) = Inr True \<and> Decrypt frame_reader (reader_of c) new_sink sample_secret = (st, None)"
proof -
  obtain enc where E: "Encrypt frame_writer (reader_of []) [[65]] ErrEOF new_sink (sample_opts False) = (enc, None)"
    using sample_Encrypt by blast
  from Encrypt_stream(1) [OF E] obtain m cs where
    w: "written enc = (leading_stream m @ data_stream cs) @ trailer (concat [[65]])"
    by (auto simp: csenc_stream_def trailer_def)
  have "IsCsencContent (reader_of (written enc)) = Inr True"
    by (simp add: w leading_stream_def magic_prefix_is_csenc)
  moreover have "length (hex_encode (md5 (concat [[65]]))) \<le> 65535" by (simp add: md5.length_hex_H)
  from Decrypt_with_digest [OF E sample_fits sample_codec _ w this, of new_sink] obtain st where
    "Decrypt frame_reader (reader_of (written enc)) new_sink sample_secret = (st, None)"
    by (auto simp: w trailer_def full_chunks_def)
  ultimately show ?thesis by blast
qed

section \<open>Properties\<close>

text \<open>
  C19: The file round trip, with success. \<open>EncryptFile\<close> has encrypted a file; then \<open>DecryptFile\<close> with the fitting
  secret, on the file system it left, succeeds wherever the output can be created, and the output then
  holds exactly the bytes of the input.
\<close>

theorem decrypt_file_inverts_encrypt_file:
  assumes "EncryptFile lzw crand i enc opts fs = (fs1, None)"
    and "calm fs" and "fs_wf fs" and "i \<noteq> []" and "enc \<noteq> []"
    and "node_at fs (fs_key fs i) = Some (FileNode c t)"
    and "\<not> temp_name (encrypt_kind lzw crand (\<lambda>_. opts)) (fs_key fs enc)"
    and "secret_fits (default_filename i opts) (oPassword opt) (oPrivateKey opt)"
    and "codec_ok lzw lzr opts" and "\<not> full_chunks lzw opts (copy_reads c)"
    and "out_ok fs1 out" and "name_free (decrypt_kind lzr opt) out fs1"
    and "\<not> temp_name (decrypt_kind lzr opt) (fs_key fs1 out)"
  shows "\<exists>fs2 t'. DecryptFile lzr enc out opt fs1 = (fs2, None) \<and>
    node_at fs2 (fs_key fs1 out) = Some (FileNode c t')"
  using assms by (rule DecryptFile_made)

theorem decrypt_file_inverts_encrypt_file_witness:
  "\<exists>fs1 fs2 t. EncryptFile frame_writer (\<lambda>_. reader_of []) ''in'' ''e'' (sample_opts False) (sample_fs [65, 66]) = (fs1, None) \<and>
     DecryptFile frame_reader ''e'' ''d/o'' sample_secret fs1 = (fs2, None) \<and>
     node_at fs2 [''d'', ''o''] = Some (FileNode [65, 66] t)"
proof -
  let ?fs = "sample_fs [65, 66]"
  obtain fs1 where e: "EncryptFile frame_writer (\<lambda>_. reader_of []) ''in'' ''e'' (sample_opts False) ?fs = (fs1, None)"
    and rand: "fs_rand fs1 = [2, 3, 4]" using sample_enc_file by blast
  have d: "default_filename ''in'' (sample_opts False) = sample_opts False"
    by (simp add: default_filename_def sample_opts_def)
  note a = sample_encrypted [OF e rand]
  have "\<not> full_chunks frame_writer (sample_opts False) (copy_reads [65, 66])" by (simp add: full_chunks_def)
  moreover have "node_at ?fs (fs_key ?fs ''in'') = Some (FileNode [65, 66] 7)" by (simp add: sample_keys sample_nodes)
  moreover have "fs_key fs1 ''d/o'' = [''d'', ''o'']" by (simp add: sample_keys a(2))
  ultimately show ?thesis
    using decrypt_file_inverts_encrypt_file [OF e sample_calm sample_wf _ _ _ a(1), of "[65, 66]" 7 sample_secret frame_reader "''d/o''"]
      a(3) a(4,5) [of frame_reader sample_secret] sample_fits [of False] sample_codec [of False] e
    by (simp add: d)
qed

text \<open>
  C20: \<open>DecryptFile\<close> is all or nothing. When it returns nil, the output holds the complete plaintext of the
  input; when it returns an error, the output is as it was. Either way, no other node has changed, except
  that missing directories above the output may have been made and that a temporary file whose removal
  failed is left.
\<close>

theorem decrypt_file_all_or_nothing:
  assumes "DecryptFile lzr i out opts fs = (fs', r)" and "\<not> temp_name (decrypt_kind lzr opts) (fs_key fs out)"
  shows "(r = None \<longrightarrow> (\<exists>src c t. os_Open fs i = Inr src \<and> genuine lzr opts src c \<and>
      node_at fs' (fs_key fs out) = Some (FileNode c t))) \<and>
    (r \<noteq> None \<or> k \<noteq> fs_key fs out \<longrightarrow>
      node_at fs' k = node_at fs k \<or>
      node_at fs k = None \<and> node_at fs' k = Some DirNode \<and> prefix k (fs_key fs (Dir out)) \<or>
      node_at fs k = None \<and> temp_name (decrypt_kind lzr opts) k \<and> fs_fault fs (CallRemove k) \<noteq> None)"
  using decj.file_done [of lzr opts i out fs fs'] decj.file_frame [of lzr opts i out fs fs' r k] assms
  by (cases r) (auto simp: DecryptFile_def kept_def)

theorem decrypt_file_all_or_nothing_witness:
  "\<exists>fs' e. DecryptFile frame_reader ''in'' ''e'' sample_secret (sample_fs [1]) = (fs', Some e) \<and>
     node_at fs' [''e''] = None \<and> node_at fs' [''in''] = Some (FileNode [1] 7)"
proof -
  obtain fs' r where D: "DecryptFile frame_reader ''in'' ''e'' sample_secret (sample_fs [1]) = (fs', r)"
    by (cases "DecryptFile frame_reader ''in'' ''e'' sample_secret (sample_fs [1])")
  have nt: "\<not> temp_name (decrypt_kind frame_reader sample_secret) (fs_key (sample_fs [1]) ''e'')"
    by (rule not_temp_name) (simp add: sample_keys)
  note a = decrypt_file_all_or_nothing [OF D nt]
  have src: "os_Open (sample_fs [1]) ''in'' = Inr (reader_of [1])"
    using calm_Open [OF sample_calm, of "''in''" "[1]" "[1]" 7] by (simp add: sample_nodes sample_keys)
  have bad: "\<not> genuine frame_reader sample_secret (reader_of [1]) c" for c
    by (auto simp: genuine_def dest!: consumeMagic_InrD dest: arg_cong [where f = length] simp: length_magic_header)
  from a [of "[]"] src bad have "r \<noteq> None" by auto
  moreover from this a [of "[''e'']"] a [of "[''in'']"] have "node_at fs' [''e''] = None" "node_at fs' [''in''] = Some (FileNode [1] 7)"
    by (auto simp: sample_nodes sample_paths sample_keys) (simp_all add: sample_fs_def)
  ultimately show ?thesis using D by auto
qed

text \<open>
  C21: An encrypted file inspected. After \<open>EncryptFile\<close> has returned nil, the output passes for an encrypted file and
  \<open>InspectFile\<close> reports of it, without any secret, the version, the digest and the compression of the options, the
  name they give or else the base name of the input, and which of the two secrets opens it.
\<close>

theorem inspect_reads_encrypted_file:
  assumes "EncryptFile lzw crand i enc opts fs = (fs1, None)"
    and "calm fs" and "i \<noteq> []" and "enc \<noteq> []" and "node_at fs (fs_key fs i) = Some (FileNode c t)"
    and "\<not> temp_name (encrypt_kind lzw crand (\<lambda>_. opts)) (fs_key fs enc)"
  shows "IsCsencFile fs1 enc = Inr True \<and>
    (\<exists>m. InspectFile fs1 enc = Inr m \<and> mFilename m = (if eFilename opts = [] then Base i else eFilename opts) \<and>
       mMajor m = opt_major opts \<and> mMinor m = opt_minor opts \<and> mDigest m = ''md5'' \<and> mEncrypt m = 1 \<and>
       mCompress m = (if compressOn opts then 1 else 0) \<and>
       (mEncKey1 m \<noteq> None \<longleftrightarrow> ePassword opts \<noteq> []) \<and> (mEncKey2 m \<noteq> None \<longleftrightarrow> ePublicKey opts \<noteq> None))"
  using assms by (rule InspectFile_made)

theorem inspect_reads_encrypted_file_witness:
  "\<exists>fs1 m. EncryptFile frame_writer (\<lambda>_. reader_of []) ''in'' ''e'' (sample_opts False) (sample_fs [65]) = (fs1, None) \<and>
     InspectFile fs1 ''e'' = Inr m \<and> mFilename m = ''a.txt'' \<and> mMajor m = 3 \<and> mCompress m = 0 \<and> mEncKey1 m \<noteq> None"
proof -
  let ?ek = "encrypt_kind frame_writer (\<lambda>_. reader_of []) (\<lambda>_. sample_opts False)"
  obtain fs1 where e: "EncryptFile frame_writer (\<lambda>_. reader_of []) ''in'' ''e'' (sample_opts False) (sample_fs [65]) = (fs1, None)"
    using sample_enc_file by blast
  have "\<not> temp_name ?ek (fs_key (sample_fs [65]) ''e'')" by (rule not_temp_name) (simp add: sample_keys)
  moreover have "node_at (sample_fs [65]) (fs_key (sample_fs [65]) ''in'') = Some (FileNode [65] 7)"
    by (simp add: sample_keys sample_nodes)
  ultimately show ?thesis
    using inspect_reads_encrypted_file [OF e sample_calm, of "[65]" 7] e
    by (auto simp: sample_opts_def opt_major_def compressOn_def)
qed

end
