(* ===== verification/Discovery.thy ===== *)
theory Discovery
  imports Batch FileSuccess
begin

text \<open>
  What the discovery finds and where it sends it: the paths of the units, their outputs under \<open>OutputDir\<close>,
  and when two units do not collide.
\<close>

section \<open>Base and Join\<close>

lemma fs_key_Join:
  assumes "p \<noteq> []" and "xs \<noteq> []" and "[] \<notin> set xs"
  shows "fs_key fs (Join (p # xs)) = rev (foldl (push_elem True) (rev (fs_key fs p)) (concat (map split_slash xs)))"
proof -
  obtain x ys where xs: "xs = x # ys" using assms(2) by (cases xs) auto
  have "Join (p # xs) = Clean (join_slash (p # xs))" using assms(1) by simp
  then have "fs_key fs (Join (p # xs)) = fs_key fs (join_slash (p # xs))" by simp
  also have "rooted (join_slash (p # xs)) = rooted p"
    using assms(1) xs by (cases p) (simp_all add: rooted_def)
  then have "fs_key fs (join_slash (p # xs)) =
      rev (foldl (push_elem True) (if rooted p then [] else rev (fs_cwd fs)) (split_slash (join_slash (p # xs))))"
    by (simp add: fs_key_def)
  also have "split_slash (join_slash (p # xs)) = split_slash p @ concat (map split_slash xs)"
    using split_join_append [of "p # xs"] by simp
  finally show ?thesis by (simp add: fs_key_def)
qed

lemma push_plain: "plain x \<Longrightarrow> push_elem r st x = x # st"
  by (auto simp: push_elem_def plain_def elem_ok_def)

lemma last_split_join:
  "cs \<noteq> [] \<Longrightarrow> CHR ''/'' \<notin> set (last cs) \<Longrightarrow> last (split_slash (join_slash cs)) = last cs"
  by (induction cs rule: join_slash.induct) (simp_all add: split_slash_elem split_slash_join2)

lemma strip_slashes_id: "p \<noteq> [] \<Longrightarrow> last p \<noteq> CHR ''/'' \<Longrightarrow> strip_slashes p = p"
  by (cases p rule: rev_cases) (simp_all add: strip_slashes_def)

lemma last_join: "cs \<noteq> [] \<Longrightarrow> last cs \<noteq> [] \<Longrightarrow> join_slash cs \<noteq> [] \<and> last (join_slash cs) = last (last cs)"
  by (induction cs rule: join_slash.induct) auto

text \<open>The base name of a cleaned path.\<close>

lemma Base_path_of:
  assumes "key_ok (r, cs)" and "cs \<noteq> []"
  shows "Base (path_of (r, cs)) = last cs"
proof -
  from key_ok_no_slash [OF assms(1)] assms(2) have l: "last cs \<noteq> []" "CHR ''/'' \<notin> set (last cs)"
    by (simp_all add: list_all_iff)
  then have nl: "last (last cs) \<noteq> CHR ''/''" by (metis last_in_set)
  note j = last_join [OF assms(2) l(1)]
  show ?thesis
  proof (cases r)
    case True
    have "path_of (r, cs) = CHR ''/'' # join_slash cs" using True by (simp add: path_of_def)
    moreover have "strip_slashes (CHR ''/'' # join_slash cs) = CHR ''/'' # join_slash cs"
      using j nl by (intro strip_slashes_id) auto
    ultimately show ?thesis using last_split_join [OF assms(2) l(2)] l(1) by (simp add: Base_def)
  next
    case False
    then have "path_of (r, cs) = join_slash cs" using assms(2) by (cases cs) (simp_all add: path_of_def)
    with j nl l(1) last_split_join [OF assms(2) l(2)] show ?thesis
      by (simp add: Base_def strip_slashes_id)
  qed
qed

lemma Base_empty_key: "Base (path_of (True, [])) = ''/''" "Base (path_of (False, [])) = ''.''"
  by (simp_all add: path_of_def Base_def strip_slashes_def)

text \<open>Where the mirror of a directory lies: below its base name; for a root or the working directory directly
  in \<open>OutputDir\<close>; and for a path that ends in \<open>..\<close> beside it.\<close>

definition mirror :: "fsys \<Rightarrow> path \<Rightarrow> path \<Rightarrow> fkey" where
  "mirror fs outDir root =
     (case snd (key_of root) of
        [] \<Rightarrow> fs_key fs outDir
      | cs \<Rightarrow> if last cs = ''..'' then butlast (fs_key fs outDir) else fs_key fs outDir @ [last cs])"

lemma mirror_path:
  assumes "outDir \<noteq> []" and "list_all plain ns" and "ns \<noteq> []" and "fs_wf fs"
  shows "fs_key fs (Join [outDir, Base (Clean root), join_slash ns]) = mirror fs outDir root @ ns"
proof -
  obtain r cs where k: "key_of root = (r, cs)" by (cases "key_of root")
  from key_of_ok [of root] k have ok: "key_ok (r, cs)" by simp
  have ns: "list_all (\<lambda>x. CHR ''/'' \<notin> set x) ns" "join_slash ns \<noteq> []"
    using assms(2,3) last_join [of ns] by (auto simp: list_all_iff plain_def elem_ok_def)
  have C: "Clean root = path_of (r, cs)" by (simp add: Clean_def k)
  have b: "Base (Clean root) \<noteq> []"
    using ok Base_path_of [OF ok] Base_empty_key key_ok_no_slash [OF ok]
    by (cases "cs = []"; cases r) (auto simp: C list_all_iff)
  have J: "fs_key fs (Join [outDir, Base (Clean root), join_slash ns]) =
      rev (foldl (push_elem True) (rev (fs_key fs outDir)) (split_slash (Base (Clean root)))) @ ns"
    using fs_key_Join [of outDir "[Base (Clean root), join_slash ns]" fs] assms(1-3) b ns
    by (simp add: split_join foldl_push_plain)
  have "rev (foldl (push_elem True) (rev (fs_key fs outDir)) (split_slash (Base (Clean root)))) = mirror fs outDir root"
  proof (cases "cs = []")
    case True
    then show ?thesis using Base_empty_key
      by (cases r) (simp_all add: C mirror_def k push_elem_def)
  next
    case False
    from ok obtain n xs where "cs = replicate n ''..'' @ xs" "list_all plain xs" by (auto simp: key_ok_iff)
    with last_in_set [OF False] have "last cs = ''..'' \<or> plain (last cs)" by (auto simp: list_all_iff)
    moreover have "split_slash (last cs) = [last cs]"
      using key_ok_no_slash [OF ok] False by (simp add: list_all_iff split_slash_elem)
    moreover have "list_all plain (rev (fs_key fs outDir))" using fs_key_plain [OF assms(4)] by simp
    then have "push_elem True (rev (fs_key fs outDir)) ''..'' = rev (butlast (fs_key fs outDir))"
    proof -
      have "list_all plain st \<Longrightarrow> push_elem True st ''..'' = tl st" for st
        by (cases st) (auto simp: push_elem_def plain_def)
      then show ?thesis using \<open>list_all plain (rev (fs_key fs outDir))\<close> butlast_rev [of "rev (fs_key fs outDir)"] by simp
    qed
    ultimately show ?thesis
      using False ok by (cases cs) (auto simp: C mirror_def k Base_path_of push_plain plain_def)
  qed
  with J show ?thesis by simp
qed

declare Join.simps [simp del]

section \<open>The units\<close>

text \<open>
  A discovered unit is a file of the file system: one of the inputs itself, sent to its base name under
  \<open>OutputDir\<close>, or a file below an input directory, sent to its place in the mirror of that directory.
\<close>

definition unit_ok :: "fsys \<Rightarrow> BatchConfig \<Rightarrow> job_unit \<Rightarrow> bool" where
  "unit_ok fs cfg u \<longleftrightarrow>
     (\<exists>c t. node_at fs (fs_key fs (inPath u)) = Some (FileNode c t) \<and> usize u = word_of_nat (length c)) \<and>
     (\<exists>inp \<in> set (bInputs cfg).
        inPath u = inp \<and> outPath u = Join [bOutputDir cfg, Base inp] \<or>
        bRecursive cfg \<and> (\<exists>ns. ns \<noteq> [] \<and> list_all plain ns \<and> inPath u = walk_path inp ns \<and>
          outPath u = Join [bOutputDir cfg, Base (Clean inp), join_slash ns]))"

definition plan_ok :: "fsys \<Rightarrow> BatchConfig \<Rightarrow> plan \<Rightarrow> bool" where
  "plan_ok fs cfg pl \<longleftrightarrow>
     distinct (map inPath (pl_units pl)) \<and> set (pl_seen pl) = inPath ` set (pl_units pl) \<and>
     (\<forall>u \<in> set (pl_units pl). unit_ok fs cfg u)"

lemma plan_ok_error: "plan_ok fs cfg pl \<Longrightarrow> plan_ok fs cfg (plan_error p e pl)"
  by (simp add: plan_ok_def plan_error_def)

lemma plan_ok_push:
  "plan_ok fs cfg pl \<Longrightarrow> unit_ok fs cfg \<lparr>inPath = p, outPath = out, usize = sz\<rparr> \<Longrightarrow> plan_ok fs cfg (push p out sz pl)"
  by (auto simp: plan_ok_def push_def)

lemma os_Stat_InrD:
  "os_Stat fs p = Inr fi \<Longrightarrow>
     if fi_isdir fi then node_at fs (fs_key fs p) = Some DirNode
     else \<exists>c t. node_at fs (fs_key fs p) = Some (FileNode c t) \<and> fi_size fi = word_of_nat (length c)"
  by (auto simp: os_Stat_def Let_def split: if_splits option.splits node.splits)

lemma fs_key_walk: "list_all plain ns \<Longrightarrow> fs_key fs (walk_path root ns) = fs_key fs root @ ns"
  by (cases "key_of root") (simp add: walk_path_def fs_key_below)

lemma walk_path_Clean [simp]: "walk_path (Clean p) ns = walk_path p ns"
  by (simp add: walk_path_def)

lemma Rel_walk: "list_all plain ns \<Longrightarrow> ns \<noteq> [] \<Longrightarrow> Rel root (walk_path root ns) = Inr (join_slash ns)"
  by (cases "key_of root") (simp add: walk_path_def Rel_below)

lemma walk_dir_file:
  assumes "fs_wf fs" and "node_at fs K = Some DirNode" and "(ns, False, None) \<in> set (walk_dir fs K)"
  shows "ns \<noteq> [] \<and> list_all plain ns \<and> (\<exists>c t. node_at fs (K @ ns) = Some (FileNode c t))"
proof -
  from assms(2,3) have "(ns, False, None) \<in> set (walk_names fs K [])"
    by (auto simp: walk_dir_def split: option.splits)
  then have "ns \<in> set (walk_files (walk_names fs K []))" by (force simp: walk_files_def)
  with walk_names_files [OF assms(1), of K "[]"] assms(2) show ?thesis by fastforce
qed

lemma os_Info_file:
  "node_at fs k = Some (FileNode c t) \<Longrightarrow> os_Info fs k = Inr fi \<Longrightarrow> fi_size fi = word_of_nat (length c)"
  by (auto simp: os_Info_def split: option.splits)

lemma discover_visit_ok:
  assumes "fs_wf fs" and "node_at fs (fs_key fs inp) = Some DirNode" and "bRecursive cfg" and "inp \<in> set (bInputs cfg)"
    and "v \<in> set (walk_dir fs (fs_key fs inp))" and "plan_ok fs cfg pl"
  shows "plan_ok fs cfg (discover_visit fs cfg (Clean inp) pl v)"
proof -
  obtain ns d e where v: "v = (ns, d, e)" by (cases v)
  show ?thesis
  proof (cases "d \<or> e \<noteq> None")
    case True
    with v assms(6) show ?thesis by (auto simp: discover_visit_def plan_ok_error Let_def split: option.splits)
  next
    case False
    with v assms(5) have "(ns, False, None) \<in> set (walk_dir fs (fs_key fs inp))" by auto
    from walk_dir_file [OF assms(1,2) this] obtain c t where n: "ns \<noteq> []" "list_all plain ns"
      "node_at fs (fs_key fs inp @ ns) = Some (FileNode c t)" by blast
    have "unit_ok fs cfg \<lparr>inPath = walk_path inp ns, outPath = Join [bOutputDir cfg, Base (Clean inp), join_slash ns],
        usize = word_of_nat (length c)\<rparr>"
      using n assms(3,4) by (auto simp: unit_ok_def fs_key_walk)
    from plan_ok_push [OF assms(6) this] False v n assms(6) show ?thesis
      using Rel_walk [OF n(2,1), of "Clean inp"] os_Info_file [OF n(3)]
      by (auto simp: discover_visit_def Let_def plan_ok_error split: sum.splits)
  qed
qed

lemma discover_input_ok:
  assumes "fs_wf fs" and "inp \<in> set (bInputs cfg)" and "plan_ok fs cfg pl"
  shows "plan_ok fs cfg (discover_input fs cfg pl inp)"
proof (cases "os_Stat fs inp")
  case (Inl e)
  with assms(3) show ?thesis by (simp add: discover_input_def plan_ok_error)
next
  case (Inr fi)
  note st = os_Stat_InrD [OF Inr]
  show ?thesis
  proof (cases "fi_isdir fi")
    case True
    have "plan_ok fs cfg (foldl (discover_visit fs cfg (Clean inp)) pl vs)"
      if "set vs \<subseteq> set (walk_dir fs (fs_key fs inp))" "bRecursive cfg" for vs
      using that assms(3)
    proof (induction vs arbitrary: pl)
      case (Cons v vs)
      with discover_visit_ok [OF assms(1) _ _ assms(2), of v pl] st True show ?case by simp
    qed simp
    with True Inr assms(3) show ?thesis by (auto simp: discover_input_def plan_ok_error)
  next
    case False
    with st obtain c t where "node_at fs (fs_key fs inp) = Some (FileNode c t)" "fi_size fi = word_of_nat (length c)" by auto
    with assms(2) have "unit_ok fs cfg \<lparr>inPath = inp, outPath = Join [bOutputDir cfg, Base inp], usize = fi_size fi\<rparr>"
      by (auto simp: unit_ok_def)
    with plan_ok_push [OF assms(3)] False Inr assms(3) show ?thesis
      by (auto simp: discover_input_def)
  qed
qed

lemma discover_ok:
  assumes "fs_wf fs" shows "plan_ok fs cfg (discover fs cfg)"
proof -
  have "plan_ok fs cfg pl \<Longrightarrow> set xs \<subseteq> set (bInputs cfg) \<Longrightarrow> plan_ok fs cfg (foldl (discover_input fs cfg) pl xs)" for pl xs
    by (induction xs arbitrary: pl) (simp_all add: discover_input_ok [OF assms])
  moreover have "plan_ok fs cfg empty_plan" by (simp add: plan_ok_def empty_plan_def)
  ultimately show ?thesis by (simp add: discover_def)
qed

section \<open>Nothing is missed\<close>

lemma seen_mono_visit: "p \<in> set (pl_seen pl) \<Longrightarrow> p \<in> set (pl_seen (discover_visit fs cfg root pl v))"
  by (auto simp: discover_visit_def plan_error_def push_def Let_def split: prod.split option.split sum.split)

lemma seen_mono_visits: "p \<in> set (pl_seen pl) \<Longrightarrow> p \<in> set (pl_seen (foldl (discover_visit fs cfg root) pl vs))"
  by (induction vs arbitrary: pl) (simp_all add: seen_mono_visit)

lemma seen_mono_input: "p \<in> set (pl_seen pl) \<Longrightarrow> p \<in> set (pl_seen (discover_input fs cfg pl inp))"
  by (auto simp: discover_input_def plan_error_def push_def seen_mono_visits split: sum.split)

lemma seen_mono_inputs: "p \<in> set (pl_seen pl) \<Longrightarrow> p \<in> set (pl_seen (foldl (discover_input fs cfg) pl xs))"
  by (induction xs arbitrary: pl) (simp_all add: seen_mono_input)

lemma discover_seen:
  assumes "inp \<in> set (bInputs cfg)" and "\<And>pl. p \<in> set (pl_seen (discover_input fs cfg pl inp))"
  shows "p \<in> set (pl_seen (discover fs cfg))"
proof -
  from assms(1) obtain xs ys where "bInputs cfg = xs @ inp # ys" by (auto dest: split_list)
  then show ?thesis using assms(2) by (simp add: discover_def seen_mono_inputs)
qed

lemma discover_visit_seen:
  assumes "list_all plain ns" and "ns \<noteq> []" and "os_Info fs (fs_key fs inp @ ns) = Inr fi"
    and "filter_of fs cfg (walk_path inp ns) fi"
  shows "walk_path inp ns \<in> set (pl_seen (discover_visit fs cfg (Clean inp) pl (ns, False, None)))"
  using assms Rel_walk [OF assms(1,2), of "Clean inp"] by (simp add: discover_visit_def push_def Let_def)

lemma walk_dir_complete:
  assumes "fs_wf fs" and "calm fs" and "node_at fs K = Some DirNode" and "node_at fs (K @ ns) = Some (FileNode c t)"
  shows "(ns, False, None) \<in> set (walk_dir fs K) \<and> list_all plain ns \<and> ns \<noteq> []"
proof -
  have "ns \<in> set (walk_files (walk_names fs K []))"
    using walk_names_complete [OF assms(1), of K "[]" ns c t] assms(2,4) by (simp add: calm_def)
  then have "(ns, False, None) \<in> set (walk_names fs K [])" by (auto simp: walk_files_def)
  then have w: "(ns, False, None) \<in> set (walk_dir fs K)" using assms(2,3) by (simp add: walk_dir_def calm_def)
  with walk_dir_file [OF assms(1,3)] show ?thesis by blast
qed

section \<open>Where the outputs lie\<close>

lemma Base_cases: "Base p = ''/'' \<or> (Base p \<noteq> [] \<and> CHR ''/'' \<notin> set (Base p))"
proof (cases "p = []")
  case False
  let ?xs = "split_slash (strip_slashes p)"
  have "CHR ''/'' \<notin> set (last ?xs)"
    using split_slash_elems [of "strip_slashes p"] by (simp add: list_all_iff)
  with False show ?thesis by (simp add: Base_def Let_def)
qed (simp add: Base_def)

lemma file_out_key:
  assumes "outDir \<noteq> []" and "Base inp \<noteq> ''..''"
  shows "fs_key fs (Join [outDir, Base inp]) = fs_key fs outDir \<or>
    fs_key fs (Join [outDir, Base inp]) = fs_key fs outDir @ [Base inp]"
proof -
  have "Base inp \<noteq> []" using Base_cases [of inp] by auto
  then have k: "fs_key fs (Join [outDir, Base inp]) =
      rev (foldl (push_elem True) (rev (fs_key fs outDir)) (split_slash (Base inp)))"
    using fs_key_Join [of outDir "[Base inp]" fs] assms(1) by simp
  show ?thesis using Base_cases [of inp]
  proof
    assume "Base inp = ''/''"
    with k show ?thesis by (simp add: push_elem_def)
  next
    assume "Base inp \<noteq> [] \<and> CHR ''/'' \<notin> set (Base inp)"
    with k assms(2) show ?thesis by (simp add: split_slash_elem push_elem_def)
  qed
qed

lemma mirror_under:
  assumes "Base (Clean inp) \<noteq> ''..''"
  shows "prefix (fs_key fs outDir) (mirror fs outDir inp)"
proof -
  obtain r cs where k: "key_of inp = (r, cs)" by (cases "key_of inp")
  with key_of_ok [of inp] have ok: "key_ok (r, cs)" by simp
  have "cs \<noteq> [] \<Longrightarrow> last cs \<noteq> ''..''" using assms Base_path_of [OF ok] by (simp add: Clean_def k)
  then show ?thesis by (cases cs) (auto simp: mirror_def k)
qed

lemma unit_ok_under:
  assumes "unit_ok fs cfg u" and "fs_wf fs" and "bOutputDir cfg \<noteq> []"
    and "\<forall>inp \<in> set (bInputs cfg). Base inp \<noteq> ''..'' \<and> Base (Clean inp) \<noteq> ''..''"
  shows "prefix (fs_key fs (bOutputDir cfg)) (fs_key fs (outPath u))"
proof -
  from assms(1) obtain inp where inp: "inp \<in> set (bInputs cfg)" and "outPath u = Join [bOutputDir cfg, Base inp] \<or>
      (\<exists>ns. ns \<noteq> [] \<and> list_all plain ns \<and> outPath u = Join [bOutputDir cfg, Base (Clean inp), join_slash ns])"
    by (auto simp: unit_ok_def)
  then show ?thesis
  proof (elim disjE exE conjE)
    assume "outPath u = Join [bOutputDir cfg, Base inp]"
    with file_out_key [OF assms(3), of inp fs] assms(4) inp show ?thesis by auto
  next
    fix ns
    assume "ns \<noteq> []" "list_all plain ns" "outPath u = Join [bOutputDir cfg, Base (Clean inp), join_slash ns]"
    with mirror_path [OF assms(3) _ _ assms(2), of ns inp] mirror_under [of inp fs "bOutputDir cfg"] assms(4) inp
    show ?thesis by (auto intro: prefix_order.trans)
  qed
qed

section \<open>A sample tree\<close>

definition sample_tree :: fsys where
  "sample_tree =
     \<lparr>fs_nodes = [([''d''], DirNode), ([''d'', ''a''], FileNode magic_header 1), ([''d'', ''n''], FileNode [1, 2] 2),
                  ([''d'', ''s''], DirNode), ([''d'', ''s'', ''a''], FileNode magic_header 3)],
      fs_cwd = [''d''], fs_clock = 9, fs_rand = [1, 2, 3, 4],
      fs_fault = (\<lambda>_. None), fs_part = (\<lambda>_ _. False), fs_rfault = (\<lambda>_. None), fs_room = (\<lambda>_. None)\<rparr>"

definition sample_config :: "path list \<Rightarrow> BatchConfig" where
  "sample_config inputs =
     \<lparr>bInputs = inputs, bOutputDir = ''out'', bPassword = oPassword sample_secret, bPrivateKey = None,
      bRecursive = True, bConcurrency = 2, bSkipExisting = False, bPreserveTime = False, bFilter = None\<rparr>"

lemma sample_tree_calm: "calm sample_tree"
  by (simp add: calm_def sample_tree_def)

lemma sample_tree_nodes:
  "node_at sample_tree k =
     (if k = [] \<or> k = [''d''] \<or> k = [''d'', ''s''] then Some DirNode
      else if k = [''d'', ''a''] then Some (FileNode magic_header 1)
      else if k = [''d'', ''n''] then Some (FileNode [1, 2] 2)
      else if k = [''d'', ''s'', ''a''] then Some (FileNode magic_header 3) else None)"
  by (simp add: node_at_def sample_tree_def)

lemma append_one_conv:
  "k @ [x] = [a] \<longleftrightarrow> k = [] \<and> x = a" "k @ [x] = [a, b] \<longleftrightarrow> k = [a] \<and> x = b"
  "k @ [x] = [a, b, c] \<longleftrightarrow> k = [a, b] \<and> x = c"
  by (cases k rule: list.exhaust; cases "tl k" rule: list.exhaust; auto)+

lemma sample_tree_wf: "fs_wf sample_tree"
  by (auto simp: fs_wf_def sample_tree_nodes append_one_conv split: if_splits)
    (simp_all add: sample_tree_def plain_def elem_ok_def)

lemma sample_tree_keys:
  "fs_key sample_tree ''..'' = []" "fs_key sample_tree ''.'' = [''d'']" "fs_key sample_tree ''s'' = [''d'', ''s'']"
  "fs_key sample_tree ''a'' = [''d'', ''a'']" "fs_key sample_tree ''s/a'' = [''d'', ''s'', ''a'']"
  "fs_key sample_tree ''out'' = [''d'', ''out'']" "fs_key sample_tree ''../d/a'' = [''d'', ''a'']"
  by (simp_all add: fs_key_def rooted_def push_elem_def sample_tree_def)

lemma magic_is_csenc: "IsCsencContent (reader_of magic_header) = Inr True"
  by (simp add: IsCsencContent_def read_full_def length_magic_header magic_header_def FileMagic_def bytes_of_string_def)

lemma sample_filter:
  assumes "p \<noteq> []" and "node_at sample_tree (fs_key sample_tree p) = Some (FileNode magic_header t)"
  shows "filter_of sample_tree (sample_config inputs) p fi"
  using calm_Open [OF sample_tree_calm assms]
  by (simp add: filter_of_def sample_config_def defaultCsencFilter_def IsCsencFile_def magic_is_csenc)

lemma discover_finds:
  assumes "fs_wf fs" and "calm fs" and "inp \<in> set (bInputs cfg)" and "inp \<noteq> []" and "bRecursive cfg"
    and "node_at fs (fs_key fs inp) = Some DirNode" and "node_at fs (fs_key fs inp @ ns) = Some (FileNode c t)"
    and "os_Info fs (fs_key fs inp @ ns) = Inr fi" and "filter_of fs cfg (walk_path inp ns) fi"
  shows "\<exists>u \<in> set (pl_units (discover fs cfg)). inPath u = walk_path inp ns"
proof -
  from walk_dir_complete [OF assms(1,2,6,7)] have w: "(ns, False, None) \<in> set (walk_dir fs (fs_key fs inp))"
    and n: "list_all plain ns" "ns \<noteq> []" by simp_all
  from w obtain vs ws where vw: "walk_dir fs (fs_key fs inp) = vs @ (ns, False, None) # ws" by (auto dest: split_list)
  have "os_Stat fs inp = Inr \<lparr>fi_isdir = True, fi_size = 0, fi_mtime = 0\<rparr>"
    using assms(2,4,6) by (simp add: os_Stat_def calm_def)
  then have "discover_input fs cfg pl inp = foldl (discover_visit fs cfg (Clean inp)) pl (walk_dir fs (fs_key fs inp))" for pl
    using assms(5) by (simp add: discover_input_def)
  then have "walk_path inp ns \<in> set (pl_seen (discover_input fs cfg pl inp))" for pl
    by (simp add: vw seen_mono_visits discover_visit_seen [OF n assms(8,9)])
  with discover_seen [OF assms(3)] have "walk_path inp ns \<in> set (pl_seen (discover fs cfg))" by blast
  then show ?thesis using discover_ok [OF assms(1), of cfg] by (auto simp: plan_ok_def)
qed

lemma sample_walk: "walk_path ''.'' [''a''] = ''a''" "walk_path ''..'' [''d'', ''a''] = ''../d/a''"
  by (simp_all add: walk_path_def key_of_def path_of_def rooted_def push_elem_def)

lemma sample_found:
  assumes "inp = ''.'' \<and> ns = [''a''] \<or> inp = ''..'' \<and> ns = [''d'', ''a'']" and "inp \<in> set inputs"
  shows "\<exists>fi. inp \<noteq> [] \<and> node_at sample_tree (fs_key sample_tree inp) = Some DirNode \<and>
    node_at sample_tree (fs_key sample_tree inp @ ns) = Some (FileNode magic_header 1) \<and>
    os_Info sample_tree (fs_key sample_tree inp @ ns) = Inr fi \<and>
    filter_of sample_tree (sample_config inputs) (walk_path inp ns) fi"
proof -
  have k: "inp \<noteq> []" "node_at sample_tree (fs_key sample_tree inp) = Some DirNode"
    "fs_key sample_tree inp @ ns = [''d'', ''a'']" "walk_path inp ns \<noteq> []"
    "fs_key sample_tree (walk_path inp ns) = [''d'', ''a'']"
    using assms(1) by (elim disjE; simp add: sample_tree_keys sample_tree_nodes sample_walk)+
  have "os_Info sample_tree [''d'', ''a''] = Inr \<lparr>fi_isdir = False, fi_size = word_of_nat (length magic_header), fi_mtime = 1\<rparr>"
    using sample_tree_calm by (simp add: os_Info_def sample_tree_nodes calm_def)
  moreover have "filter_of sample_tree (sample_config inputs) (walk_path inp ns) fi" for fi
    using k(4,5) by (intro sample_filter [of _ 1]) (simp_all add: sample_tree_nodes)
  ultimately show ?thesis using k by (simp add: sample_tree_nodes)
qed

lemma sample_units:
  assumes "inp = ''.'' \<and> ns = [''a''] \<or> inp = ''..'' \<and> ns = [''d'', ''a'']"
  shows "\<exists>u \<in> set (pl_units (discover sample_tree (sample_config [inp]))). inPath u = walk_path inp ns"
proof -
  have "inp \<in> set [inp]" by simp
  from sample_found [OF assms this] obtain fi where f: "inp \<noteq> []" "node_at sample_tree (fs_key sample_tree inp) = Some DirNode"
    "node_at sample_tree (fs_key sample_tree inp @ ns) = Some (FileNode magic_header 1)"
    "os_Info sample_tree (fs_key sample_tree inp @ ns) = Inr fi"
    "filter_of sample_tree (sample_config [inp]) (walk_path inp ns) fi" by blast
  have "inp \<in> set (bInputs (sample_config [inp]))" "bRecursive (sample_config [inp])" by (simp_all add: sample_config_def)
  from discover_finds [OF sample_tree_wf sample_tree_calm this(1) f(1) this(2) f(2-5)] show ?thesis .
qed

section \<open>Properties\<close>

text \<open>
  C36: What \<open>discover\<close> plans. The paths of the units are different from each other, and every unit is a file
  of the file system with its size: either one of the inputs, sent to its base name under \<open>OutputDir\<close>, or,
  with \<open>Recursive\<close>, a file below an input directory, sent to the same place in the mirror of the directory.
\<close>

theorem discovered_units_mirror_inputs:
  assumes "fs_wf fs"
  shows "distinct (map inPath (pl_units (discover fs cfg))) \<and>
    (\<forall>u \<in> set (pl_units (discover fs cfg)).
      (\<exists>c t. node_at fs (fs_key fs (inPath u)) = Some (FileNode c t) \<and> usize u = word_of_nat (length c)) \<and>
      (\<exists>inp \<in> set (bInputs cfg).
         inPath u = inp \<and> outPath u = Join [bOutputDir cfg, Base inp] \<or>
         bRecursive cfg \<and> (\<exists>ns. ns \<noteq> [] \<and> list_all plain ns \<and> inPath u = walk_path inp ns \<and>
           outPath u = Join [bOutputDir cfg, Base (Clean inp), join_slash ns])))"
  using discover_ok [OF assms, of cfg] unfolding plan_ok_def unit_ok_def by blast

theorem discovered_units_mirror_inputs_witness:
  "distinct (map inPath (pl_units (discover sample_tree (sample_config [''s'', ''s/a'', ''.'']))))"
  using discovered_units_mirror_inputs [OF sample_tree_wf] by blast

text \<open>
  C37: Nothing is missed. Where nothing fails, every file below an input directory that the filter accepts is
  a unit of the plan.
\<close>

theorem discover_complete:
  assumes "fs_wf fs" and "calm fs" and "inp \<in> set (bInputs cfg)" and "inp \<noteq> []" and "bRecursive cfg"
    and "node_at fs (fs_key fs inp) = Some DirNode" and "node_at fs (fs_key fs inp @ ns) = Some (FileNode c t)"
    and "os_Info fs (fs_key fs inp @ ns) = Inr fi" and "filter_of fs cfg (walk_path inp ns) fi"
  shows "\<exists>u \<in> set (pl_units (discover fs cfg)). inPath u = walk_path inp ns"
  using assms by (rule discover_finds)

theorem discover_complete_witness:
  "\<exists>u \<in> set (pl_units (discover sample_tree (sample_config [''.'']))). inPath u = ''a''"
proof -
  obtain fi where f: "''.'' \<noteq> []" "node_at sample_tree (fs_key sample_tree ''.'') = Some DirNode"
    "node_at sample_tree (fs_key sample_tree ''.'' @ [''a'']) = Some (FileNode magic_header 1)"
    "os_Info sample_tree (fs_key sample_tree ''.'' @ [''a'']) = Inr fi"
    "filter_of sample_tree (sample_config [''.'']) (walk_path ''.'' [''a'']) fi"
    using sample_found [of "''.''" "[''a'']" "[''.'']"] by auto
  have "''.'' \<in> set (bInputs (sample_config [''.'']))" "bRecursive (sample_config [''.''])" by (simp_all add: sample_config_def)
  from discover_complete [OF sample_tree_wf sample_tree_calm this(1) f(1) this(2) f(2-5)] show ?thesis
    by (simp add: sample_walk)
qed

text \<open>
  C38: Outputs stay under \<open>OutputDir\<close>, provided no input is a path whose base name is \<open>..\<close>.
\<close>

theorem outputs_under_output_dir:
  assumes "fs_wf fs" and "bOutputDir cfg \<noteq> []" and "u \<in> set (pl_units (discover fs cfg))"
    and "\<forall>inp \<in> set (bInputs cfg). Base inp \<noteq> ''..'' \<and> Base (Clean inp) \<noteq> ''..''"
  shows "prefix (fs_key fs (bOutputDir cfg)) (fs_key fs (outPath u))"
  using discover_ok [OF assms(1), of cfg] assms(3) unit_ok_under [OF _ assms(1,2,4)] by (auto simp: plan_ok_def)

theorem outputs_under_output_dir_witness:
  "\<exists>u \<in> set (pl_units (discover sample_tree (sample_config [''.'']))). inPath u = ''a'' \<and>
     prefix [''d'', ''out''] (fs_key sample_tree (outPath u))"
proof -
  obtain u where u: "u \<in> set (pl_units (discover sample_tree (sample_config [''.''])))" "inPath u = ''a''"
    using sample_units [of "''.''" "[''a'']"] by (auto simp: sample_walk)
  have "Base ''.'' = ''.''" "Base (Clean ''.'') = ''.''"
    by (simp_all add: Base_def strip_slashes_def Clean_def key_of_def path_of_def rooted_def push_elem_def)
  with outputs_under_output_dir [OF sample_tree_wf _ u(1)] u show ?thesis
    by (auto simp: sample_config_def sample_tree_keys)
qed

text \<open>
  C39: Outputs leave \<open>OutputDir\<close>. When an input directory is written as a path that ends in \<open>..\<close>, its base
  name takes back the last element of \<open>OutputDir\<close>: the mirror lands beside \<open>OutputDir\<close>, not in it.
\<close>

theorem parent_input_escapes:
  assumes "fs_wf fs" and "bOutputDir cfg \<noteq> []" and "bInputs cfg = [inp]"
    and "Base (Clean inp) = ''..''" and "node_at fs (fs_key fs inp) = Some DirNode"
    and "u \<in> set (pl_units (discover fs cfg))"
  shows "\<exists>ns. list_all plain ns \<and> inPath u = walk_path inp ns \<and> fs_key fs (outPath u) = butlast (fs_key fs (bOutputDir cfg)) @ ns"
proof -
  from discover_ok [OF assms(1), of cfg] assms(6) have "unit_ok fs cfg u" by (simp add: plan_ok_def)
  with assms(3,5) obtain ns where n: "ns \<noteq> []" "list_all plain ns" "inPath u = walk_path inp ns"
    "outPath u = Join [bOutputDir cfg, Base (Clean inp), join_slash ns]" by (auto simp: unit_ok_def)
  obtain r cs where k: "key_of inp = (r, cs)" by (cases "key_of inp")
  with key_of_ok [of inp] have ok: "key_ok (r, cs)" by simp
  have "cs \<noteq> []" using assms(4) Base_empty_key by (cases r) (auto simp: Clean_def k)
  with assms(4) Base_path_of [OF ok] have "mirror fs (bOutputDir cfg) inp = butlast (fs_key fs (bOutputDir cfg))"
    by (cases cs) (simp_all add: mirror_def k Clean_def)
  with n mirror_path [OF assms(2) n(2,1) assms(1), of inp] show ?thesis by metis
qed

theorem parent_input_escapes_witness:
  "\<exists>u \<in> set (pl_units (discover sample_tree (sample_config [''..'']))). inPath u = ''../d/a'' \<and>
     fs_key sample_tree ''out'' = [''d'', ''out''] \<and> \<not> prefix [''d'', ''out''] (fs_key sample_tree (outPath u))"
proof -
  obtain u where u: "u \<in> set (pl_units (discover sample_tree (sample_config [''..''])))" "inPath u = ''../d/a''"
    using sample_units [of "''..''" "[''d'', ''a'']"] by (auto simp: sample_walk)
  have b: "Base (Clean ''..'') = ''..''"
    by (simp add: Base_def strip_slashes_def Clean_def key_of_def path_of_def rooted_def push_elem_def)
  have c: "bOutputDir (sample_config [''..'']) = ''out''" "bInputs (sample_config [''..'']) = [''..'']"
    by (simp_all add: sample_config_def)
  from parent_input_escapes [OF sample_tree_wf _ c(2) b _ u(1)] c(1) obtain ns where
    n: "inPath u = walk_path ''..'' ns" "fs_key sample_tree (outPath u) = [''d''] @ ns" "list_all plain ns"
    by (auto simp: sample_tree_keys sample_tree_nodes)
  have "walk_path ''..'' ns = ''../d/a''" using n(1) u(2) by metis
  with fs_key_walk [OF n(3), of sample_tree "''..''"] have "ns = [''d'', ''a'']"
    by (simp add: sample_tree_keys)
  with u n show ?thesis by (auto simp: sample_tree_keys)
qed

text \<open>
  Two inputs, one output. Two input files with the same base name become two units with the same
  output path: discovery keeps them apart by their input paths only.
\<close>

theorem same_base_same_output:
  assumes "bInputs cfg = [p, q]" and "p \<noteq> q" and "Base p = Base q"
    and "os_Stat fs p = Inr i" and "os_Stat fs q = Inr j" and "\<not> fi_isdir i" and "\<not> fi_isdir j"
    and "filter_of fs cfg p i" and "filter_of fs cfg q j"
  shows "map inPath (pl_units (discover fs cfg)) = [p, q] \<and>
    map outPath (pl_units (discover fs cfg)) = [Join [bOutputDir cfg, Base p], Join [bOutputDir cfg, Base p]]"
  using assms by (simp add: discover_def discover_input_def push_def empty_plan_def)

lemma same_base_sample:
  "map outPath (pl_units (discover sample_tree (sample_config [''a'', ''s/a'']))) = [''out/a'', ''out/a'']"
proof -
  have b: "Base ''a'' = ''a''" "Base ''s/a'' = ''a''" by (simp_all add: Base_def strip_slashes_def)
  have st: "\<exists>i. os_Stat sample_tree ''a'' = Inr i \<and> \<not> fi_isdir i" "\<exists>i. os_Stat sample_tree ''s/a'' = Inr i \<and> \<not> fi_isdir i"
    using sample_tree_calm by (simp_all add: os_Stat_def calm_def sample_tree_keys sample_tree_nodes)
  have f: "filter_of sample_tree (sample_config xs) ''a'' fi" "filter_of sample_tree (sample_config xs) ''s/a'' fi" for xs fi
    using sample_filter [of "''a''" 1] sample_filter [of "''s/a''" 3] by (simp_all add: sample_tree_keys sample_tree_nodes)
  have j: "Join [''out'', ''a''] = ''out/a''"
    by (simp add: Join.simps Clean_def key_of_def path_of_def rooted_def push_elem_def)
  have c: "bInputs (sample_config xs) = xs" "bOutputDir (sample_config xs) = ''out''" for xs by (simp_all add: sample_config_def)
  from st obtain i i' where "os_Stat sample_tree ''a'' = Inr i" "\<not> fi_isdir i"
    "os_Stat sample_tree ''s/a'' = Inr i'" "\<not> fi_isdir i'" by blast
  from same_base_same_output [OF c(1) _ _ this(1,3,2,4) f] b c(2) j show ?thesis by simp
qed

end
