(* ===== verification/BatchFiles.thy ===== *)
theory BatchFiles
  imports BatchCorrect Discovery
begin

text \<open>
  What a concurrent run leaves in the file system, for any interleaving. The invariant \<open>run_inv\<close> ties the
  state of every running job to the nodes: the temporary files of different jobs are different, a written
  one holds a complete result, an output that was renamed into place holds a complete result for that
  path, and no other file has changed. The interface to what the jobs compute is the locale \<open>crypt_job\<close>.
\<close>

section \<open>The effect of one step on the nodes\<close>

fun tmps :: "job \<Rightarrow> fkey list" where
  "tmps (JFile (FTemp tmp src)) = [tmp]"
| "tmps (JFile (FWritten tmp r)) = [tmp]"
| "tmps (JFile (FMoved tmp r)) = [tmp]"
| "tmps j = []"

lemma Chtimes_node:
  assumes "os_Chtimes p t fs = (fs', r)"
  shows "fs_conf fs' = fs_conf fs" "fs_rand fs' = fs_rand fs" "k \<noteq> fs_key fs p \<Longrightarrow> node_at fs' k = node_at fs k"
    "node_at fs (fs_key fs p) = Some (FileNode c t0) \<Longrightarrow> \<exists>t'. node_at fs' (fs_key fs p) = Some (FileNode c t')"
    "node_at fs' (fs_key fs p) = Some (FileNode c t1) \<Longrightarrow> \<exists>t'. node_at fs (fs_key fs p) = Some (FileNode c t')"
proof -
  have k: "fs_key fs p \<noteq> []" if "node_at fs (fs_key fs p) = Some (FileNode c t)" for c t
    using that by (cases "fs_key fs p = []") simp_all
  show "fs_conf fs' = fs_conf fs" "fs_rand fs' = fs_rand fs" "k \<noteq> fs_key fs p \<Longrightarrow> node_at fs' k = node_at fs k"
    "node_at fs (fs_key fs p) = Some (FileNode c t0) \<Longrightarrow> \<exists>t'. node_at fs' (fs_key fs p) = Some (FileNode c t')"
    "node_at fs' (fs_key fs p) = Some (FileNode c t1) \<Longrightarrow> \<exists>t'. node_at fs (fs_key fs p) = Some (FileNode c t')"
    using assms k by (auto simp: os_Chtimes_def Let_def split: option.splits node.splits if_splits)
qed

text \<open>\<open>step_effect u j fs j' fs'\<close>: what a step of the job of \<open>u\<close> may do to the nodes.\<close>

definition step_effect :: "job_kind \<Rightarrow> job_unit \<Rightarrow> job \<Rightarrow> fsys \<Rightarrow> job \<Rightarrow> fsys \<Rightarrow> bool" where
  "step_effect jk u j fs j' fs' \<longleftrightarrow>
     fs_conf fs' = fs_conf fs \<and>
     (\<forall>k c t. node_at fs k = Some (FileNode c t) \<longrightarrow> k \<notin> set (tmps j) \<longrightarrow> k \<noteq> fs_key fs (outPath u) \<longrightarrow>
        node_at fs' k = Some (FileNode c t)) \<and>
     (\<forall>k c t. node_at fs' k = Some (FileNode c t) \<longrightarrow> \<not> temp_name jk k \<longrightarrow> k \<noteq> fs_key fs (outPath u) \<longrightarrow>
        node_at fs k = Some (FileNode c t)) \<and>
     (\<forall>c t. node_at fs (fs_key fs (outPath u)) = Some (FileNode c t) \<longrightarrow>
        (\<exists>c' t'. node_at fs' (fs_key fs (outPath u)) = Some (FileNode c' t'))) \<and>
     (\<forall>c t. node_at fs' (fs_key fs (outPath u)) = Some (FileNode c t) \<longrightarrow>
        (\<exists>t'. node_at fs (fs_key fs (outPath u)) = Some (FileNode c t')) \<or>
        (\<exists>tmp t'. j = JFile (FWritten tmp None) \<and> node_at fs tmp = Some (FileNode c t')))"

lemma step_effectD:
  assumes "step_effect jk u j fs j' fs'"
  shows "fs_conf fs' = fs_conf fs"
    and "node_at fs k = Some (FileNode c t) \<Longrightarrow> k \<notin> set (tmps j) \<Longrightarrow> k \<noteq> fs_key fs (outPath u) \<Longrightarrow>
      node_at fs' k = Some (FileNode c t)"
    and "node_at fs' k = Some (FileNode c t) \<Longrightarrow> \<not> temp_name jk k \<Longrightarrow> k \<noteq> fs_key fs (outPath u) \<Longrightarrow>
      node_at fs k = Some (FileNode c t)"
    and "node_at fs (fs_key fs (outPath u)) = Some (FileNode c t) \<Longrightarrow>
      \<exists>c' t'. node_at fs' (fs_key fs (outPath u)) = Some (FileNode c' t')"
    and "node_at fs' (fs_key fs (outPath u)) = Some (FileNode c t) \<Longrightarrow>
      (\<exists>t'. node_at fs (fs_key fs (outPath u)) = Some (FileNode c t')) \<or>
      (\<exists>tmp t'. j = JFile (FWritten tmp None) \<and> node_at fs tmp = Some (FileNode c t'))"
proof -
  note a = assms [unfolded step_effect_def]
  from a show "fs_conf fs' = fs_conf fs" by simp
  from a [THEN conjunct2, THEN conjunct1]
  show "node_at fs k = Some (FileNode c t) \<Longrightarrow> k \<notin> set (tmps j) \<Longrightarrow> k \<noteq> fs_key fs (outPath u) \<Longrightarrow>
      node_at fs' k = Some (FileNode c t)" by simp
  from a [THEN conjunct2, THEN conjunct2, THEN conjunct1]
  show "node_at fs' k = Some (FileNode c t) \<Longrightarrow> \<not> temp_name jk k \<Longrightarrow> k \<noteq> fs_key fs (outPath u) \<Longrightarrow>
      node_at fs k = Some (FileNode c t)" by simp
  from a [THEN conjunct2, THEN conjunct2, THEN conjunct2, THEN conjunct1]
  show "node_at fs (fs_key fs (outPath u)) = Some (FileNode c t) \<Longrightarrow>
      \<exists>c' t'. node_at fs' (fs_key fs (outPath u)) = Some (FileNode c' t')" by simp
  from a [THEN conjunct2, THEN conjunct2, THEN conjunct2, THEN conjunct2]
  show "node_at fs' (fs_key fs (outPath u)) = Some (FileNode c t) \<Longrightarrow>
      (\<exists>t'. node_at fs (fs_key fs (outPath u)) = Some (FileNode c t')) \<or>
      (\<exists>tmp t'. j = JFile (FWritten tmp None) \<and> node_at fs tmp = Some (FileNode c t'))" by simp
qed

lemma step_effect_grown:
  assumes "grown D fs fs'" shows "step_effect jk u j fs j' fs'"
proof -
  have "node_at fs' k = Some (FileNode c t) \<longleftrightarrow> node_at fs k = Some (FileNode c t)" for k c t
  proof -
    from assms have "node_at fs' k = node_at fs k \<or> node_at fs k = None \<and> node_at fs' k = Some DirNode"
      unfolding grown_def by blast
    then show ?thesis by auto
  qed
  then show ?thesis using assms by (auto simp: step_effect_def grown_def)
qed

lemma step_effect_temp:
  assumes "temp_name jk tmp" and "tmp \<in> set (tmps j) \<or> node_at fs tmp = None"
    and "\<not> temp_name jk (fs_key fs (outPath u))"
    and "fs_conf fs' = fs_conf fs" and "\<And>k. k \<noteq> tmp \<Longrightarrow> node_at fs' k = node_at fs k"
  shows "step_effect jk u j fs j' fs'"
proof -
  have "fs_key fs (outPath u) \<noteq> tmp" using assms(1,3) by auto
  moreover have "k \<noteq> tmp" if "\<not> temp_name jk k" for k using assms(1) that by auto
  moreover have "k \<noteq> tmp" if "node_at fs k = Some n" "k \<notin> set (tmps j)" for k n using assms(2) that by auto
  ultimately show ?thesis unfolding step_effect_def using assms(4,5) by (intro conjI allI impI) metis+
qed

lemma step_effect_move:
  assumes "move_temp (outPath u) tmp r fs = (fs', r')" and "tmp \<noteq> []" and "temp_name jk tmp"
    and "\<not> temp_name jk (fs_key fs (outPath u))"
  shows "step_effect jk u (JFile (FWritten tmp r)) fs (JFile (FMoved tmp r')) fs'"
proof (cases r')
  case (Some e)
  with move_temp_error assms(1) have "fs' = fs" by auto
  then show ?thesis by (auto intro: step_effect_grown [OF grown_refl])
next
  case None
  from move_temp_ok [OF assms(1)[unfolded None] assms(2)] obtain c t where r: "r = None"
    and n: "node_at fs tmp = Some (FileNode c t)" "node_at fs (fs_key fs (outPath u)) \<noteq> Some DirNode"
    "fs_key fs (outPath u) \<noteq> []" "fs' = put_node (fs_key fs (outPath u)) (FileNode c t) (del_node tmp fs)" by blast
  have neq: "fs_key fs (outPath u) \<noteq> tmp" using assms(3,4) by auto
  have at: "node_at fs' k = (if k = fs_key fs (outPath u) then Some (FileNode c t) else if k = tmp then None else node_at fs k)" for k
    using n(3,4) assms(2) by simp
  show ?thesis unfolding step_effect_def at using n assms(2,3) neq r by auto
qed

lemma after_success_effect:
  assumes "after_success jc u fs = (fs', ev, logs)"
  shows "step_effect jk u j fs j' fs'" "fs_rand fs' = fs_rand fs"
proof -
  have "fs' = fs \<or> (\<exists>t. fs' = fst (os_Chtimes (outPath u) t fs))"
    using assms by (auto simp: after_success_def Let_def split: if_splits sum.splits prod.splits)
  then have "fs' = fs \<or> (\<exists>t r. os_Chtimes (outPath u) t fs = (fs', r))"
    by (metis prod.collapse)
  moreover have "step_effect jk u j fs j' fs'" if "os_Chtimes (outPath u) t fs = (fs', r)" for t r
    unfolding step_effect_def using Chtimes_node [OF that] by (intro conjI allI impI) metis+
  moreover have "step_effect jk u j fs j' fs" by (rule step_effect_grown [OF grown_refl])
  ultimately show "step_effect jk u j fs j' fs'" "fs_rand fs' = fs_rand fs"
    using Chtimes_node(2) by blast+
qed

text \<open>Every step of a job has such an effect, and a new temporary name uses up its number.\<close>

definition tmp_num :: "job_kind \<Rightarrow> fkey \<Rightarrow> nat \<Rightarrow> bool" where
  "tmp_num jk tmp n \<longleftrightarrow> (\<exists>d. tmp = d @ [jk_pat jk @ dec_digits n])"

lemma tmp_num_unique: "tmp_num jk tmp m \<Longrightarrow> tmp_num jk tmp n \<Longrightarrow> m = n"
  by (auto simp: tmp_num_def dec_digits_inj)

lemma tmp_num_temp: "tmp_num jk tmp n \<Longrightarrow> temp_name jk tmp \<and> tmp \<noteq> []"
  by (auto simp: tmp_num_def temp_name_def)

definition names_used :: "job_kind \<Rightarrow> job \<Rightarrow> fsys \<Rightarrow> job \<Rightarrow> fsys \<Rightarrow> bool" where
  "names_used jk j fs j' fs' \<longleftrightarrow>
     fs_rand fs' = fs_rand fs \<and> set (tmps j') \<subseteq> set (tmps j) \<or>
     (\<exists>ms n ns tmp. fs_rand fs = ms @ n # ns \<and> fs_rand fs' = ns \<and> tmps j' = [tmp] \<and> tmps j = [] \<and> tmp_num jk tmp n)"

lemma names_kept: "fs_rand fs' = fs_rand fs \<Longrightarrow> set (tmps j') \<subseteq> set (tmps j) \<Longrightarrow> names_used jk j fs j' fs'"
  by (simp add: names_used_def)

text \<open>One lemma per system call that changes a file.\<close>

lemma create_effect:
  assumes "os_CreateTemp (Dir (outPath u)) (jk_pat jk) fs = Inr (tmp, fs')"
    and "\<not> temp_name jk (fs_key fs (outPath u))"
  shows "step_effect jk u (JFile (FDirs src)) fs (JFile (FTemp tmp src)) fs' \<and>
    names_used jk (JFile (FDirs src)) fs (JFile (FTemp tmp src)) fs'"
proof -
  from CreateTemp_InrD [OF assms(1)] obtain n ms ns where c: "fs_rand fs = ms @ n # ns"
    "tmp = fs_key fs (Dir (outPath u)) @ [jk_pat jk @ dec_digits n]" "node_at fs tmp = None"
    "fs' = put_node tmp (FileNode [] (fs_clock fs)) (fs\<lparr>fs_rand := ns\<rparr>)" by blast
  have tn: "tmp_num jk tmp n" using c(2) by (auto simp: tmp_num_def)
  have "step_effect jk u (JFile (FDirs src)) fs (JFile (FTemp tmp src)) fs'"
    using tmp_num_temp [OF tn] c(3) assms(2) by (intro step_effect_temp [of _ tmp]) (auto simp: c(4))
  moreover have "fs_rand fs' = ns" by (simp add: c(4))
  ultimately show ?thesis using c(1) tn by (auto simp: names_used_def)
qed

lemma store_effect:
  assumes "temp_name jk tmp" and "tmp \<noteq> []" and "\<not> temp_name jk (fs_key fs (outPath u))"
  shows "step_effect jk u (JFile (FTemp tmp src)) fs j' (temp_store tmp s fs)"
  using assms by (intro step_effect_temp [of _ tmp]) auto

lemma remove_effect:
  assumes "temp_name jk tmp" and "tmp \<noteq> []" and "\<not> temp_name jk (fs_key fs (outPath u))"
  shows "step_effect jk u (JFile (FMoved tmp r)) fs j' (fst (os_Remove tmp fs)) \<and>
    fs_rand (fst (os_Remove tmp fs)) = fs_rand fs"
proof
  from Remove_frame [of tmp fs "fst (os_Remove tmp fs)" "snd (os_Remove tmp fs)"] assms(2)
  show "step_effect jk u (JFile (FMoved tmp r)) fs j' (fst (os_Remove tmp fs))"
    using assms by (intro step_effect_temp [of _ tmp]) auto
  show "fs_rand (fst (os_Remove tmp fs)) = fs_rand fs"
    by (auto simp: os_Remove_def split: option.split node.split)
qed

lemma move_rand: "move_temp out tmp r fs = (fs', r') \<Longrightarrow> tmp \<noteq> [] \<Longrightarrow> fs_rand fs' = fs_rand fs"
  using move_temp_ok(2) [of out tmp r fs fs'] move_temp_error [of out tmp r fs fs'] by (cases r') auto

lemma file_step_effect:
  assumes s: "file_step jk (inPath u) (outPath u) (ph, fs) = (ph', fs')"
    and t: "\<forall>tmp \<in> set (tmps (JFile ph)). temp_name jk tmp \<and> tmp \<noteq> []"
    and nt: "\<not> temp_name jk (fs_key fs (outPath u))"
  shows "step_effect jk u (JFile ph) fs (JFile ph') fs' \<and> names_used jk (JFile ph) fs (JFile ph') fs'"
proof (cases ph)
  case FStart
  with s show ?thesis by (auto intro: step_effect_grown [OF grown_refl] names_kept split: sum.splits)
next
  case (FOpened src)
  obtain fs1 r where m: "make_parents (outPath u) fs = (fs1, r)" by (cases "make_parents (outPath u) fs")
  note g = make_parents_grown [OF m]
  from g have "fs_rand fs1 = fs_rand fs" by (simp add: grown_def)
  with FOpened s m show ?thesis using step_effect_grown [OF g] by (cases r) (auto simp: names_kept)
next
  case (FDirs src)
  with s create_effect [of u jk fs _ _ src] nt show ?thesis
    by (auto intro: step_effect_grown [OF grown_refl] names_kept split: sum.splits)
next
  case (FTemp tmp src)
  with s t store_effect [of jk tmp fs u src] nt show ?thesis by (auto intro: names_kept split: prod.splits)
next
  case (FWritten tmp r)
  obtain fs3 r' where m: "move_temp (outPath u) tmp r fs = (fs3, r')" by (cases "move_temp (outPath u) tmp r fs")
  with FWritten s t step_effect_move [OF m] move_rand [OF m] nt show ?thesis by (auto intro: names_kept)
next
  case (FMoved tmp r)
  with s t remove_effect [of jk tmp fs u r] nt show ?thesis by (auto intro: names_kept)
next
  case (FEnd r)
  with s show ?thesis by (auto intro: step_effect_grown [OF grown_refl] names_kept)
qed

lemma job_step_effect:
  assumes s: "job_step jc u (j, fs) = (j', fs')"
    and t: "\<forall>tmp \<in> set (tmps j). \<exists>n. tmp_num (jc_kind jc) tmp n"
    and nt: "\<not> temp_name (jc_kind jc) (fs_key fs (outPath u))"
  shows "step_effect (jc_kind jc) u j fs j' fs' \<and> names_used (jc_kind jc) j fs j' fs'"
proof (cases "\<exists>ph. j = JFile ph \<and> 0 < phase_rank ph")
  case True
  then obtain ph where ph: "j = JFile ph" "0 < phase_rank ph" by blast
  obtain ph' fs1 where f: "file_step (jc_kind jc) (inPath u) (outPath u) (ph, fs) = (ph', fs1)"
    by (cases "file_step (jc_kind jc) (inPath u) (outPath u) (ph, fs)")
  have "\<forall>tmp \<in> set (tmps (JFile ph)). temp_name (jc_kind jc) tmp \<and> tmp \<noteq> []"
    using t tmp_num_temp unfolding ph(1) by blast
  from file_step_effect [OF f this nt] job_step_file [OF f ph(2)] s ph(1) show ?thesis by simp
next
  case False
  consider "\<exists>r. j = JFile (FEnd r)" | "j = JCheck" | "\<exists>ev logs. j = JDone ev logs"
    using False by (cases j; cases "case j of JFile ph \<Rightarrow> ph | _ \<Rightarrow> FStart") auto
  then show ?thesis
  proof cases
    case 1
    then obtain r where r: "j = JFile (FEnd r)" by blast
    show ?thesis
    proof (cases r)
      case None
      obtain fs1 ev logs where a: "after_success jc u fs = (fs1, ev, logs)" by (cases "after_success jc u fs") auto
      with r None s after_success_effect [OF a] show ?thesis by (auto intro: names_kept)
    qed (use r s in \<open>auto intro: step_effect_grown [OF grown_refl] names_kept\<close>)
  qed (use s in \<open>auto intro: step_effect_grown [OF grown_refl] names_kept split: if_splits\<close>)
qed

section \<open>The invariant of a run\<close>

text \<open>\<open>yields\<close>: a complete result of the job of \<open>u\<close>; \<open>made_at\<close>: such a result is in place at an output path.\<close>

definition yields :: "fsys \<Rightarrow> job_kind \<Rightarrow> job_unit \<Rightarrow> bytes \<Rightarrow> bool" where
  "yields fs0 jk u c \<longleftrightarrow> (\<exists>src. os_Open fs0 (inPath u) = Inr src \<and> result_of jk (inPath u) src c)"

definition made :: "fsys \<Rightarrow> job_kind \<Rightarrow> job_unit list \<Rightarrow> fkey \<Rightarrow> bytes \<Rightarrow> bool" where
  "made fs0 jk us k c \<longleftrightarrow> (\<exists>v \<in> set us. fs_key fs0 (outPath v) = k \<and> yields fs0 jk v c)"

definition made_at :: "fsys \<Rightarrow> job_kind \<Rightarrow> job_unit list \<Rightarrow> fsys \<Rightarrow> fkey \<Rightarrow> bool" where
  "made_at fs0 jk us fs k \<longleftrightarrow> (\<exists>c t. node_at fs k = Some (FileNode c t) \<and> made fs0 jk us k c)"

fun job_inv :: "fsys \<Rightarrow> job_kind \<Rightarrow> job_unit list \<Rightarrow> fsys \<Rightarrow> job_unit \<Rightarrow> job \<Rightarrow> bool" where
  "job_inv fs0 jk us fs u (JFile (FOpened src)) = (os_Open fs0 (inPath u) = Inr src)"
| "job_inv fs0 jk us fs u (JFile (FDirs src)) = (os_Open fs0 (inPath u) = Inr src)"
| "job_inv fs0 jk us fs u (JFile (FTemp tmp src)) = (os_Open fs0 (inPath u) = Inr src)"
| "job_inv fs0 jk us fs u (JFile (FWritten tmp None)) =
     (\<exists>c t. node_at fs tmp = Some (FileNode c t) \<and> yields fs0 jk u c)"
| "job_inv fs0 jk us fs u (JFile (FMoved tmp None)) = made_at fs0 jk us fs (fs_key fs0 (outPath u))"
| "job_inv fs0 jk us fs u (JFile (FEnd None)) = made_at fs0 jk us fs (fs_key fs0 (outPath u))"
| "job_inv fs0 jk us fs u (JDone ev logs) =
     (evKind ev = EventSucceeded \<longrightarrow> evOutput ev = outPath u \<and> made_at fs0 jk us fs (fs_key fs0 (outPath u)))"
| "job_inv fs0 jk us fs u j = True"

text \<open>
  What a run is given: outputs are not named like temporary files, inputs are files that no job writes,
  and the random numbers of the temporary names do not repeat (\<open>TempNames\<close> has a run in which they do).
\<close>

definition batch_ok :: "fsys \<Rightarrow> job_kind \<Rightarrow> job_unit list \<Rightarrow> bool" where
  "batch_ok fs0 jk us \<longleftrightarrow>
     (\<forall>u \<in> set us. \<not> temp_name jk (fs_key fs0 (outPath u)) \<and> \<not> temp_name jk (fs_key fs0 (inPath u)) \<and>
        (\<exists>c t. node_at fs0 (fs_key fs0 (inPath u)) = Some (FileNode c t)) \<and>
        (\<forall>v \<in> set us. fs_key fs0 (inPath u) \<noteq> fs_key fs0 (outPath v))) \<and>
     distinct (fs_rand fs0)"

text \<open>The nodes no job owns.\<close>

definition nodes_inv :: "fsys \<Rightarrow> job_kind \<Rightarrow> job_unit list \<Rightarrow> fsys \<Rightarrow> bool" where
  "nodes_inv fs0 jk us fs \<longleftrightarrow> fs_conf fs = fs_conf fs0 \<and>
     (\<forall>k c t. \<not> temp_name jk k \<longrightarrow> (\<forall>v \<in> set us. k \<noteq> fs_key fs0 (outPath v)) \<longrightarrow>
        (node_at fs k = Some (FileNode c t) \<longleftrightarrow> node_at fs0 k = Some (FileNode c t))) \<and>
     (\<forall>v \<in> set us. \<forall>c t. node_at fs (fs_key fs0 (outPath v)) = Some (FileNode c t) \<longrightarrow>
        (\<exists>t'. node_at fs0 (fs_key fs0 (outPath v)) = Some (FileNode c t')) \<or>
        made fs0 jk us (fs_key fs0 (outPath v)) c)"

lemma os_Open_same:
  assumes "fs_conf fs = fs_conf fs0" and "node_at fs (fs_key fs0 p) = node_at fs0 (fs_key fs0 p)"
  shows "os_Open fs p = os_Open fs0 p"
  unfolding os_Open_def Let_def fs_confD [OF assms(1)] assms(2) ..

section \<open>One step\<close>

lemma step_nodes_inv:
  assumes "step_effect jk u j fs j' fs'" and "nodes_inv fs0 jk us fs" and "job_inv fs0 jk us fs u j"
    and "u \<in> set us" and "\<forall>t \<in> set (tmps j). temp_name jk t" and "batch_ok fs0 jk us"
  shows "nodes_inv fs0 jk us fs'"
  unfolding nodes_inv_def
proof (intro conjI allI impI ballI)
  have conf: "fs_conf fs = fs_conf fs0" using assms(2) by (simp add: nodes_inv_def)
  have key: "fs_key fs p = fs_key fs0 p" for p using conf by (rule fs_confD)
  note e = step_effectD [OF assms(1), unfolded key]
  show "fs_conf fs' = fs_conf fs0" using e(1) conf by simp
  show "node_at fs' k = Some (FileNode c t) \<longleftrightarrow> node_at fs0 k = Some (FileNode c t)"
    if k: "\<not> temp_name jk k" "\<forall>v \<in> set us. k \<noteq> fs_key fs0 (outPath v)" for k c t
  proof -
    from k(1) assms(5) have "k \<notin> set (tmps j)" by auto
    moreover from k(2) assms(4) have "k \<noteq> fs_key fs0 (outPath u)" by blast
    ultimately have "node_at fs' k = Some (FileNode c t) \<longleftrightarrow> node_at fs k = Some (FileNode c t)"
      using e(2,3) k(1) by blast
    then show ?thesis using assms(2) k by (simp add: nodes_inv_def)
  qed
  show "(\<exists>t'. node_at fs0 (fs_key fs0 (outPath v)) = Some (FileNode c t')) \<or>
      made fs0 jk us (fs_key fs0 (outPath v)) c"
    if v: "v \<in> set us" "node_at fs' (fs_key fs0 (outPath v)) = Some (FileNode c t)" for v c t
  proof (cases "fs_key fs0 (outPath v) = fs_key fs0 (outPath u)")
    case False
    from assms(6) v(1) have "\<not> temp_name jk (fs_key fs0 (outPath v))" by (simp add: batch_ok_def)
    then have "node_at fs (fs_key fs0 (outPath v)) = Some (FileNode c t)" using e(3) v(2) False by blast
    then show ?thesis using assms(2) v(1) by (auto simp: nodes_inv_def)
  next
    case True
    from e(5) v(2) True consider (old) t' where "node_at fs (fs_key fs0 (outPath u)) = Some (FileNode c t')"
      | (new) tmp t' where "j = JFile (FWritten tmp None)" "node_at fs tmp = Some (FileNode c t')" by metis
    then show ?thesis
    proof cases
      case old
      then show ?thesis using assms(2,4) True by (auto simp: nodes_inv_def)
    next
      case new
      with assms(3) have "yields fs0 jk u c" by auto
      then show ?thesis using assms(4) True by (auto simp: made_def)
    qed
  qed
qed

lemma step_made_at:
  assumes "step_effect jk u j fs j' fs'" and "fs_conf fs = fs_conf fs0" and "job_inv fs0 jk us fs u j"
    and "u \<in> set us" and "\<forall>t \<in> set (tmps j). temp_name jk t" and "\<not> temp_name jk k"
    and "made_at fs0 jk us fs k"
  shows "made_at fs0 jk us fs' k"
proof -
  have key: "fs_key fs p = fs_key fs0 p" for p using assms(2) by (rule fs_confD)
  note e = step_effectD [OF assms(1), unfolded key]
  from assms(7) obtain c t where c: "node_at fs k = Some (FileNode c t)" "made fs0 jk us k c" by (auto simp: made_at_def)
  show ?thesis
  proof (cases "k = fs_key fs0 (outPath u)")
    case False
    from assms(5,6) have "k \<notin> set (tmps j)" by auto
    with e(2) c False show ?thesis by (auto simp: made_at_def)
  next
    case True
    from e(4) c(1) True obtain c' t' where n: "node_at fs' k = Some (FileNode c' t')" by blast
    with e(5) True consider (old) t1 where "node_at fs k = Some (FileNode c' t1)"
      | (new) tmp t1 where "j = JFile (FWritten tmp None)" "node_at fs tmp = Some (FileNode c' t1)" by metis
    then have "made fs0 jk us k c'"
    proof cases
      case old
      with c show ?thesis by simp
    next
      case new
      with assms(3,4) True show ?thesis by (auto simp: made_def)
    qed
    with n show ?thesis by (auto simp: made_at_def)
  qed
qed

text \<open>The other jobs keep their invariant, \<close>

lemma step_other_inv:
  assumes "step_effect jk u j fs j' fs'" and "fs_conf fs = fs_conf fs0" and "job_inv fs0 jk us fs u j"
    and "u \<in> set us" and "\<forall>t \<in> set (tmps j). temp_name jk t" and "batch_ok fs0 jk us"
    and "job_inv fs0 jk us fs v i" and "v \<in> set us" and "\<forall>t \<in> set (tmps i). temp_name jk t \<and> t \<notin> set (tmps j)"
  shows "job_inv fs0 jk us fs' v i"
proof -
  have key: "fs_key fs p = fs_key fs0 p" for p using assms(2) by (rule fs_confD)
  note e = step_effectD [OF assms(1), unfolded key]
  from assms(6,4,8) have nt: "\<not> temp_name jk (fs_key fs0 (outPath v))" "\<not> temp_name jk (fs_key fs0 (outPath u))"
    by (simp_all add: batch_ok_def)
  note m = step_made_at [OF assms(1-5) nt(1)]
  show ?thesis
  proof (cases i)
    case (JFile ph)
    show ?thesis
    proof (cases "\<exists>tmp. ph = FWritten tmp None")
      case True
      then obtain tmp where ph: "ph = FWritten tmp None" by blast
      with JFile assms(9) nt(2) have "tmp \<notin> set (tmps j)" "tmp \<noteq> fs_key fs0 (outPath u)" by auto
      with JFile ph assms(7) e(2) show ?thesis by fastforce
    next
      case False
      have "ph \<noteq> FWritten tmp None" for tmp using False by blast
      with JFile assms(7) m show ?thesis
        by (cases "(fs0, jk, us, fs, v, i)" rule: job_inv.cases) auto
    qed
  qed (use assms(7) m in auto)
qed

text \<open>and the stepping one gets that of its new state.\<close>

lemma own_start:
  assumes "nodes_inv fs0 jk us fs" and "batch_ok fs0 jk us" and "u \<in> set us"
  shows "os_Open fs (inPath u) = os_Open fs0 (inPath u)"
proof -
  from assms(2,3) obtain c tt where f0: "node_at fs0 (fs_key fs0 (inPath u)) = Some (FileNode c tt)"
    and "\<not> temp_name jk (fs_key fs0 (inPath u))" "\<forall>v \<in> set us. fs_key fs0 (inPath u) \<noteq> fs_key fs0 (outPath v)"
    unfolding batch_ok_def by blast
  with assms(1) have "node_at fs (fs_key fs0 (inPath u)) = Some (FileNode c tt)" by (simp add: nodes_inv_def)
  with f0 os_Open_same [of fs fs0] assms(1) show ?thesis by (simp add: nodes_inv_def)
qed

lemma own_store:
  assumes "jk_run jk (inPath u) src (temp_sink fs tmp) = (sk, r)" and "os_Open fs0 (inPath u) = Inr src" and "tmp \<noteq> []"
  shows "job_inv fs0 jk us (temp_store tmp sk fs) u (JFile (FWritten tmp r))"
  using assms by (cases r) (auto simp: yields_def result_of_def temp_sink_def)

lemma own_move:
  assumes "move_temp (outPath u) tmp r fs = (fs', r')" and "job_inv fs0 jk us fs u (JFile (FWritten tmp r))"
    and "tmp \<noteq> []" and "u \<in> set us" and "fs_key fs (outPath u) = fs_key fs0 (outPath u)"
  shows "job_inv fs0 jk us fs' u (JFile (FMoved tmp r'))"
proof (cases r')
  case None
  from move_temp_ok [OF assms(1)[unfolded None] assms(3)] obtain c tt where "r = None"
    "node_at fs tmp = Some (FileNode c tt)" "fs_key fs (outPath u) \<noteq> []"
    "fs' = put_node (fs_key fs (outPath u)) (FileNode c tt) (del_node tmp fs)" by blast
  moreover from this assms(2) have "yields fs0 jk u c" by auto
  ultimately show ?thesis using assms(4,5) by (auto simp: None made_at_def made_def)
qed simp

lemma step_own_inv:
  assumes s: "job_step jc u (j, fs) = (j', fs')" and jk: "jk = jc_kind jc"
    and e: "step_effect jk u j fs j' fs'" and n: "nodes_inv fs0 jk us fs" and inv: "job_inv fs0 jk us fs u j"
    and u: "u \<in> set us" and t: "\<forall>t \<in> set (tmps j). temp_name jk t \<and> t \<noteq> []" and ok: "batch_ok fs0 jk us"
  shows "job_inv fs0 jk us fs' u j'"
proof -
  have conf: "fs_conf fs = fs_conf fs0" using n by (simp add: nodes_inv_def)
  from ok u have nt: "\<not> temp_name jk (fs_key fs0 (outPath u))" by (simp add: batch_ok_def)
  have t': "\<forall>t \<in> set (tmps j). temp_name jk t" using t by blast
  note m = step_made_at [OF e conf inv u t' nt]
  show ?thesis
  proof (cases j rule: tmps.cases [case_names Temp Written Moved Check Start Opened Dirs End Done])
    case (Temp tmp src)
    obtain sk r where run: "jk_run jk (inPath u) src (temp_sink fs tmp) = (sk, r)"
      by (cases "jk_run jk (inPath u) src (temp_sink fs tmp)")
    with Temp s jk own_store [OF run, of fs0 us] inv t show ?thesis by simp
  next
    case (Written tmp r)
    obtain r' where mv: "move_temp (outPath u) tmp r fs = (fs', r')" "j' = JFile (FMoved tmp r')"
      using Written s by (auto split: prod.splits)
    with own_move [OF mv(1), of fs0 jk us] inv t u fs_confD(6) [OF conf] Written show ?thesis by simp
  next
    case (Moved tmp r)
    with s inv m show ?thesis by (cases r) auto
  next
    case (End r)
    show ?thesis
    proof (cases r)
      case None
      with End s obtain ev logs where a: "after_success jc u fs = (fs', ev, logs)" "j' = JDone ev logs"
        by (auto split: prod.splits)
      from after_success_event [OF a(1)] m inv End None a(2) show ?thesis by (auto simp: event_of_def)
    qed (use End s in \<open>auto simp: event_of_def\<close>)
  qed (use s inv m own_start [OF n ok u] in \<open>auto simp: event_of_def split: if_splits sum.splits prod.splits option.splits\<close>)
qed

section \<open>Runs\<close>

definition held :: "(job_unit \<times> job) list \<Rightarrow> fkey list" where
  "held rs = concat (map (\<lambda>(u, j). tmps j) rs)"

lemma held_simps [simp]:
  "held [] = []" "held ((u, j) # rs) = tmps j @ held rs" "held (xs @ ys) = held xs @ held ys"
  by (simp_all add: held_def)

lemma tmps_held: "(u, j) \<in> set rs \<Longrightarrow> set (tmps j) \<subseteq> set (held rs)"
  by (auto simp: held_def)

text \<open>The events of the jobs that are over: announced, or about to be.\<close>

definition told :: "batch \<Rightarrow> BatchEvent list" where
  "told b = bt_events b @ concat (map unannounced (bt_closing b))"

definition run_inv :: "fsys \<Rightarrow> job_kind \<Rightarrow> job_unit list \<Rightarrow> batch \<Rightarrow> bool" where
  "run_inv fs0 jk us b \<longleftrightarrow>
     nodes_inv fs0 jk us (bt_fs b) \<and> distinct (fs_rand (bt_fs b)) \<and> distinct (held (bt_running b)) \<and>
     (\<forall>t \<in> set (held (bt_running b)). \<exists>n. tmp_num jk t n \<and> n \<notin> set (fs_rand (bt_fs b))) \<and>
     set (bt_queue b) \<union> fst ` set (bt_running b) \<subseteq> set us \<and>
     (\<forall>(u, j) \<in> set (bt_running b). job_inv fs0 jk us (bt_fs b) u j) \<and>
     (\<forall>ev \<in> set (told b). evKind ev = EventSucceeded \<longrightarrow>
        (\<exists>u \<in> set us. evOutput ev = outPath u) \<and> made_at fs0 jk us (bt_fs b) (fs_key fs0 (evOutput ev)))"

lemma run_inv_start: "batch_ok fs0 jk us \<Longrightarrow> run_inv fs0 jk us (start_batch us errs fs0)"
  by (auto simp: run_inv_def start_batch_def nodes_inv_def batch_ok_def event_of_def told_def)

lemma run_inv_work:
  assumes inv: "run_inv fs0 (jc_kind jc) us b" and ok: "batch_ok fs0 (jc_kind jc) us"
    and r: "bt_running b = xs @ (u, j) # ys" and s: "job_step jc u (j, bt_fs b) = (j', fs')"
  shows "run_inv fs0 (jc_kind jc) us (b\<lparr>bt_running := xs @ (u, j') # ys, bt_fs := fs'\<rparr>)"
proof -
  let ?jk = "jc_kind jc" and ?fs = "bt_fs b"
  note i = inv [unfolded run_inv_def]
  have n: "nodes_inv fs0 ?jk us ?fs" and j: "job_inv fs0 ?jk us ?fs u j" and u: "u \<in> set us" using i r by auto
  have conf: "fs_conf ?fs = fs_conf fs0" using n by (simp add: nodes_inv_def)
  have key: "fs_key ?fs p = fs_key fs0 p" for p using conf by (rule fs_confD)
  have nums: "\<forall>t \<in> set (held (bt_running b)). \<exists>n. tmp_num ?jk t n \<and> n \<notin> set (fs_rand ?fs)" using i by blast
  have tj: "\<forall>t \<in> set (tmps j). \<exists>n. tmp_num ?jk t n" using nums r by auto
  have t: "\<forall>t \<in> set (held (bt_running b)). temp_name ?jk t \<and> t \<noteq> []" using nums tmp_num_temp by blast
  have tt: "\<forall>t \<in> set (tmps j). temp_name ?jk t \<and> t \<noteq> []" "\<forall>t \<in> set (tmps j). temp_name ?jk t" using t r by auto
  have nt: "\<not> temp_name ?jk (fs_key fs0 (outPath v))" if "v \<in> set us" for v using ok that by (simp add: batch_ok_def)
  from job_step_effect [OF s tj] nt [OF u] have e: "step_effect ?jk u j ?fs j' fs'"
    and rnd: "names_used ?jk j ?fs j' fs'"
    by (simp_all add: key)
  have d: "distinct (fs_rand ?fs)" "distinct (held xs @ tmps j @ held ys)" using i r by simp_all
  have dj: "distinct (tmps j')" by (cases j' rule: tmps.cases) simp_all
  have "nodes_inv fs0 ?jk us fs'" using step_nodes_inv [OF e n j u tt(2) ok] .
  moreover have "distinct (fs_rand fs') \<and> distinct (held xs @ tmps j' @ held ys) \<and>
      (\<forall>t \<in> set (held xs @ tmps j' @ held ys). \<exists>n. tmp_num ?jk t n \<and> n \<notin> set (fs_rand fs'))"
    using rnd unfolding names_used_def
  proof (elim disjE exE conjE)
    assume "fs_rand fs' = fs_rand ?fs" "set (tmps j') \<subseteq> set (tmps j)"
    with d dj nums r show ?thesis by auto
  next
    fix ms n ns tmp
    assume a: "fs_rand ?fs = ms @ n # ns" "fs_rand fs' = ns" "tmps j' = [tmp]" "tmps j = []" "tmp_num ?jk tmp n"
    have "tmp \<notin> set (held xs @ held ys)"
    proof
      assume "tmp \<in> set (held xs @ held ys)"
      with nums r obtain m where "tmp_num ?jk tmp m" "m \<notin> set (fs_rand ?fs)" by auto
      with a(1,5) show False using tmp_num_unique [of ?jk tmp m n] by simp
    qed
    with a d nums r show ?thesis by fastforce
  qed
  moreover have "job_inv fs0 ?jk us fs' u j'" using step_own_inv [OF s refl e n j u tt(1) ok] .
  moreover have "job_inv fs0 ?jk us fs' v iv" if "(v, iv) \<in> set xs \<union> set ys" for v iv
  proof -
    have "set (tmps iv) \<subseteq> set (held xs @ held ys)" using that tmps_held [of v iv] by auto
    with d(2) t r have "\<forall>t \<in> set (tmps iv). temp_name ?jk t \<and> t \<notin> set (tmps j)" by auto
    moreover have "v \<in> set us" "job_inv fs0 ?jk us ?fs v iv" using i r that by auto
    ultimately show ?thesis using step_other_inv [OF e conf j u tt(2) ok] by blast
  qed
  moreover have "made_at fs0 ?jk us fs' (fs_key fs0 (evOutput ev))"
    if "ev \<in> set (told b)" "evKind ev = EventSucceeded" for ev
    using step_made_at [OF e conf j u tt(2)] nt i that by metis
  ultimately show ?thesis using i r unfolding run_inv_def by (auto simp: told_def)
qed

lemma run_inv_step:
  assumes "run_inv fs0 (jc_kind jc) us b" and "batch_ok fs0 (jc_kind jc) us" and "batch_step jc w b b'"
  shows "run_inv fs0 (jc_kind jc) us b'"
  using assms(3)
proof (cases rule: batch_step.cases)
  case (launch u q)
  with assms(1) show ?thesis by (auto simp: run_inv_def told_def)
next
  case (work xs u j ys j' fs')
  with run_inv_work [OF assms(1,2)] show ?thesis by blast
next
  case (count xs u ev logs ys)
  then have "set (told b') = insert ev (set (told b))" by (auto simp: told_def)
  with count assms(1) show ?thesis by (auto simp: run_inv_def)
next
  case (enter cs ev ds)
  then have "set (told b') = set (told b)" by (auto simp: told_def)
  with enter assms(1) show ?thesis by (auto simp: run_inv_def)
next
  case (announce cs ev ds)
  then have "set (told b') = set (told b)" by (auto simp: told_def)
  with announce assms(1) show ?thesis by (auto simp: run_inv_def)
next
  case (release cs ds)
  then have "set (told b') = set (told b)" by (auto simp: told_def)
  with release assms(1) show ?thesis by (auto simp: run_inv_def)
qed

lemma run_inv_reach:
  assumes "batch_reach jc w (start_batch us errs fs0) b" and "batch_ok fs0 (jc_kind jc) us"
  shows "run_inv fs0 (jc_kind jc) us b"
  using assms(1)
  by (rule batch_reach_inv [where P = "run_inv fs0 (jc_kind jc) us"])
    (auto intro: run_inv_start run_inv_step assms(2))

section \<open>What a batch promises\<close>

context crypt_job
begin

lemma batch_succeeded:
  assumes "batch_reach jc w (start_batch us errs fs0) b" and "jc_kind jc = jk" and "batch_ok fs0 jk us"
    and "ev \<in> set (bt_events b)" and "evKind ev = EventSucceeded"
  shows "\<exists>v \<in> set us. fs_key fs0 (outPath v) = fs_key fs0 (evOutput ev) \<and>
    (\<exists>src c t. os_Open fs0 (inPath v) = Inr src \<and> spec (inPath v) src c \<and>
       node_at (bt_fs b) (fs_key fs0 (evOutput ev)) = Some (FileNode c t))"
proof -
  from run_inv_reach [OF assms(1)] assms(2,3) have "run_inv fs0 jk us b" by simp
  with assms(4,5) have "made_at fs0 jk us (bt_fs b) (fs_key fs0 (evOutput ev))" by (simp add: run_inv_def told_def)
  then obtain v src c t where "v \<in> set us" "fs_key fs0 (outPath v) = fs_key fs0 (evOutput ev)"
    "os_Open fs0 (inPath v) = Inr src" "result_of jk (inPath v) src c"
    "node_at (bt_fs b) (fs_key fs0 (evOutput ev)) = Some (FileNode c t)"
    unfolding made_at_def made_def yields_def by blast
  with result show ?thesis by blast
qed

lemma batch_outputs:
  assumes "batch_reach jc w (start_batch us errs fs0) b" and "jc_kind jc = jk" and "batch_ok fs0 jk us"
  shows "v \<in> set us \<Longrightarrow> node_at (bt_fs b) (fs_key fs0 (outPath v)) = Some (FileNode c t) \<Longrightarrow>
      (\<exists>t'. node_at fs0 (fs_key fs0 (outPath v)) = Some (FileNode c t')) \<or>
      (\<exists>v' \<in> set us. fs_key fs0 (outPath v') = fs_key fs0 (outPath v) \<and>
         (\<exists>src. os_Open fs0 (inPath v') = Inr src \<and> spec (inPath v') src c))"
    and "\<not> temp_name jk k \<Longrightarrow> \<forall>v \<in> set us. k \<noteq> fs_key fs0 (outPath v) \<Longrightarrow>
      node_at (bt_fs b) k = Some (FileNode c t) \<longleftrightarrow> node_at fs0 k = Some (FileNode c t)"
proof -
  from run_inv_reach [OF assms(1)] assms(2,3) have n: "nodes_inv fs0 jk us (bt_fs b)" by (simp add: run_inv_def)
  then show "\<not> temp_name jk k \<Longrightarrow> \<forall>v \<in> set us. k \<noteq> fs_key fs0 (outPath v) \<Longrightarrow>
      node_at (bt_fs b) k = Some (FileNode c t) \<longleftrightarrow> node_at fs0 k = Some (FileNode c t)"
    by (simp add: nodes_inv_def)
  assume "v \<in> set us" "node_at (bt_fs b) (fs_key fs0 (outPath v)) = Some (FileNode c t)"
  with n have "(\<exists>t'. node_at fs0 (fs_key fs0 (outPath v)) = Some (FileNode c t')) \<or>
      made fs0 jk us (fs_key fs0 (outPath v)) c" unfolding nodes_inv_def by blast
  then show "(\<exists>t'. node_at fs0 (fs_key fs0 (outPath v)) = Some (FileNode c t')) \<or>
      (\<exists>v' \<in> set us. fs_key fs0 (outPath v') = fs_key fs0 (outPath v) \<and>
         (\<exists>src. os_Open fs0 (inPath v') = Inr src \<and> spec (inPath v') src c))"
    unfolding made_def yields_def using result by blast
qed

text \<open>When \<open>wg.Wait()\<close> has returned, every unit has had its terminal event.\<close>

lemma batch_units_done:
  assumes "batch_reach jc w (start_batch us errs fs0) b" and "jc_kind jc = jk" and "batch_ok fs0 jk us"
    and "finished b" and "distinct (map (\<lambda>u. fs_key fs0 (outPath u)) us)" and "u \<in> set us"
  shows "\<exists>ev \<in> set (bt_events b). unit_of ev = u \<and> terminal ev \<and>
    (evKind ev = EventSucceeded \<longrightarrow>
       (\<exists>src c t. os_Open fs0 (inPath u) = Inr src \<and> spec (inPath u) src c \<and>
          node_at (bt_fs b) (fs_key fs0 (outPath u)) = Some (FileNode c t)))"
proof -
  from accounted_reach [OF assms(1)] obtain cs fs evs where k: "books us errs b cs fs evs"
    unfolding accounted_def by blast
  then have evs: "bt_events b = map (\<lambda>u. event_of u EventDiscovered) us @ evs" "mset us = mset (map unit_of evs)"
    "\<forall>ev \<in> set evs. terminal ev"
    using books_totals(8,11) [OF k] assms(4) by (simp_all add: books_def)
  from evs(2) assms(6) have "u \<in> set (map unit_of evs)" by (metis set_mset_mset)
  then obtain ev where ev: "ev \<in> set evs" "unit_of ev = u" by auto
  have "\<exists>src c t. os_Open fs0 (inPath u) = Inr src \<and> spec (inPath u) src c \<and>
          node_at (bt_fs b) (fs_key fs0 (outPath u)) = Some (FileNode c t)" if "evKind ev = EventSucceeded"
  proof -
    have "ev \<in> set (bt_events b)" and o: "evOutput ev = outPath u" using ev evs(1) by (auto simp: unit_of_def)
    from batch_succeeded [OF assms(1-3) this(1) that] obtain v src c t where v: "v \<in> set us"
      "fs_key fs0 (outPath v) = fs_key fs0 (outPath u)" "os_Open fs0 (inPath v) = Inr src" "spec (inPath v) src c"
      "node_at (bt_fs b) (fs_key fs0 (outPath u)) = Some (FileNode c t)" by (auto simp: o)
    from assms(5,6) v(1,2) have "v = u" by (auto simp: distinct_map inj_on_def)
    with v show ?thesis by blast
  qed
  with ev evs(1,3) show ?thesis by (intro bexI [of _ ev]) auto
qed

end

end
