(* ===== verification/BatchRuns.thy ===== *)
theory BatchRuns
  imports BatchFiles
begin

text \<open>
  The properties of \<open>Batch\<close>: what a single job does, the counters, termination, and what is in the
  file system while the run goes on and when it is over.
\<close>

section \<open>Pieces of runs\<close>

lemma batch_reach_step: "batch_step jc w b b' \<Longrightarrow> batch_reach jc w b' b'' \<Longrightarrow> batch_reach jc w b b''"
  using batch_reach_trans batch_reach.more [OF batch_reach.here] by blast

lemma launch_reach:
  assumes "bt_queue b = u # q" and "length (bt_running b) + length (bt_closing b) < w"
  shows "batch_reach jc w b (b\<lparr>bt_queue := q, bt_running := bt_running b @ [(u, JCheck)]\<rparr>)"
  using batch_reach_step [OF batch_step.launch [OF assms] batch_reach.here] .

text \<open>The other goroutines may stand still while one job makes some of its steps, \<close>

lemma job_steps_reach:
  assumes "(job_step jc u ^^ n) (j, bt_fs b) = (j', fs')" and "bt_running b = xs @ (u, j) # ys"
  shows "batch_reach jc w b (b\<lparr>bt_running := xs @ (u, j') # ys, bt_fs := fs'\<rparr>)"
  using assms
proof (induction n arbitrary: j b)
  case 0
  then have "b\<lparr>bt_running := xs @ (u, j') # ys, bt_fs := fs'\<rparr> = b" by simp
  then show ?case by (metis batch_reach.here)
next
  case (Suc n)
  show ?case
  proof (cases "0 < job_rank j")
    case False
    then have "(job_step jc u ^^ Suc n) (j, bt_fs b) = (j, bt_fs b)" by (intro job_step_fix) simp
    with Suc.prems have "b\<lparr>bt_running := xs @ (u, j') # ys, bt_fs := fs'\<rparr> = b" by simp
    then show ?thesis by (metis batch_reach.here)
  next
    case True
    obtain j1 fs1 where s: "job_step jc u (j, bt_fs b) = (j1, fs1)" by (cases "job_step jc u (j, bt_fs b)")
    let ?b1 = "b\<lparr>bt_running := xs @ (u, j1) # ys, bt_fs := fs1\<rparr>"
    have "batch_reach jc w ?b1 (?b1\<lparr>bt_running := xs @ (u, j') # ys, bt_fs := fs'\<rparr>)"
      using Suc.prems(1) s by (intro Suc.IH [of j1]) (simp_all add: funpow_Suc_right del: funpow.simps)
    with batch_reach_step [OF batch_step.work [OF Suc.prems(2) True s]] show ?thesis by simp
  qed
qed

text \<open>and while one that is over is accounted for.\<close>

definition close_job :: "BatchEvent \<Rightarrow> error list \<Rightarrow> batch \<Rightarrow> batch" where
  "close_job ev logs b =
     b\<lparr>bt_rep := record_error ev (count_event ev (bt_rep b)), bt_events := bt_events b @ [ev],
       bt_logs := bt_logs b @ logs\<rparr>"

lemma close_reach:
  assumes "bt_running b = xs @ (u, JDone ev logs) # ys"
  shows "batch_reach jc w b (close_job ev logs (b\<lparr>bt_running := xs @ ys\<rparr>))"
proof -
  let ?b1 = "b\<lparr>bt_running := xs @ ys, bt_closing := bt_closing b @ [Counted ev],
      bt_rep := count_event ev (bt_rep b), bt_logs := bt_logs b @ logs\<rparr>"
  let ?b2 = "?b1\<lparr>bt_closing := bt_closing b @ [Recorded ev], bt_rep := record_error ev (bt_rep ?b1)\<rparr>"
  let ?b3 = "?b2\<lparr>bt_closing := bt_closing b @ [Announced], bt_events := bt_events b @ [ev]\<rparr>"
  have 1: "batch_step jc w b ?b1" using assms by (rule batch_step.count)
  have 2: "batch_step jc w ?b1 ?b2" using batch_step.enter [of ?b1 "bt_closing b" ev "[]"] by simp
  have 3: "batch_step jc w ?b2 ?b3" using batch_step.announce [of ?b2 "bt_closing b" ev "[]"] by simp
  have 4: "batch_step jc w ?b3 (?b3\<lparr>bt_closing := bt_closing b\<rparr>)"
    using batch_step.release [of ?b3 "bt_closing b" "[]"] by simp
  have "?b3\<lparr>bt_closing := bt_closing b\<rparr> = close_job ev logs (b\<lparr>bt_running := xs @ ys\<rparr>)"
    by (simp add: close_job_def)
  with batch_reach_step [OF 1 batch_reach_step [OF 2 batch_reach_step [OF 3 batch_reach_step [OF 4 batch_reach.here]]]]
  show ?thesis by simp
qed

text \<open>A unit from the queue, all by itself.\<close>

definition run_unit :: "job_conf \<Rightarrow> batch \<Rightarrow> job_unit \<Rightarrow> batch" where
  "run_unit jc b u =
     (case runOne jc u (bt_fs b) of
        (fs', ev, logs) \<Rightarrow> close_job ev logs (b\<lparr>bt_queue := tl (bt_queue b), bt_fs := fs'\<rparr>))"

lemma run_unit_reach:
  assumes "0 < w" and "bt_running b = []" and "bt_closing b = []" and "bt_queue b = u # q"
  shows "batch_reach jc w b (run_unit jc b u)"
proof -
  let ?b1 = "b\<lparr>bt_queue := q, bt_running := bt_running b @ [(u, JCheck)]\<rparr>"
  obtain fs' ev logs where r: "runOne jc u (bt_fs b) = (fs', ev, logs)" by (cases "runOne jc u (bt_fs b)") auto
  let ?b2 = "?b1\<lparr>bt_running := [] @ (u, JDone ev logs) # [], bt_fs := fs'\<rparr>"
  have 1: "batch_reach jc w b ?b1" using assms by (intro launch_reach) simp_all
  from job_steps [of jc u "bt_fs b"] r obtain n where
    "(job_step jc u ^^ n) (JCheck, bt_fs b) = (JDone ev logs, fs')" by auto
  then have 2: "batch_reach jc w ?b1 ?b2" using assms(2) by (intro job_steps_reach) simp_all
  have 3: "batch_reach jc w ?b2 (close_job ev logs (?b2\<lparr>bt_running := [] @ []\<rparr>))"
    by (rule close_reach) simp
  have "close_job ev logs (?b2\<lparr>bt_running := [] @ []\<rparr>) = run_unit jc b u"
    using assms(2,4) r by (cases b) (simp add: run_unit_def close_job_def)
  with batch_reach_trans [OF 3 batch_reach_trans [OF 2 1]] show ?thesis by simp
qed

section \<open>One job\<close>

context crypt_job
begin

lemma runOne_cases:
  assumes "runOne jc u fs = (fs', ev, logs)" and "jc_kind jc = jk" and "\<not> temp_name jk (fs_key fs (outPath u))"
  obtains (skipped) "skips jc u fs" "ev = event_of u EventSkipped" "fs' = fs"
  | (failed) e where "\<not> skips jc u fs" "ev = (event_of u EventFailed)\<lparr>evErr := Some e\<rparr>"
      "kept jk (fs_key fs (Dir (outPath u))) fs fs' (fs_key fs (outPath u))"
  | (succeeded) src c fs1 where "\<not> skips jc u fs" "os_Open fs (inPath u) = Inr src" "spec (inPath u) src c"
      "node_at fs1 (fs_key fs (outPath u)) = Some (FileNode c (fs_clock fs))" "fs_conf fs1 = fs_conf fs"
      "\<And>k. k \<noteq> fs_key fs (outPath u) \<Longrightarrow> kept jk (fs_key fs (Dir (outPath u))) fs fs1 k"
      "after_success jc u fs1 = (fs', ev, logs)"
proof (cases "skips jc u fs")
  case True
  with assms(1) show ?thesis by (intro skipped) (simp_all add: runOne_def)
next
  case False
  obtain fs1 r where c: "crypt_file jk (inPath u) (outPath u) fs = (fs1, r)"
    by (cases "crypt_file jk (inPath u) (outPath u) fs")
  show ?thesis
  proof (cases r)
    case None
    from file_done [OF c [unfolded None] assms(3)] obtain src x where "os_Open fs (inPath u) = Inr src"
      "spec (inPath u) src x" "node_at fs1 (fs_key fs (outPath u)) = Some (FileNode x (fs_clock fs))" by blast
    with succeeded False c None assms file_frame [OF c assms(3)] crypt_file_ok(3) [OF c [unfolded None] assms(3)]
    show ?thesis by (simp add: runOne_def)
  next
    case (Some e)
    from False c Some assms(1,2) have "ev = (event_of u EventFailed)\<lparr>evErr := Some e\<rparr>" "fs' = fs1"
      by (simp_all add: runOne_def)
    with Some False file_frame [OF c assms(3)] show ?thesis by (intro failed) simp_all
  qed
qed

lemma success_times:
  assumes "after_success jc u fs = (fs', ev, logs)" and "calm fs" and "outPath u \<noteq> []"
    and "node_at fs (fs_key fs (outPath u)) = Some (FileNode c t)"
    and "inPath u \<noteq> []" and "node_at fs (fs_key fs (inPath u)) = Some (FileNode c0 t0)"
  shows "ev = (event_of u EventSucceeded)\<lparr>evOutSize := word_of_nat (length c)\<rparr>" and "logs = []"
    and "node_at fs' (fs_key fs (outPath u)) = Some (FileNode c (if jc_preserve jc then t0 else t))"
proof -
  from assms(4) have "fs_key fs (outPath u) \<noteq> []" by (cases "fs_key fs (outPath u) = []") simp_all
  with assms show "ev = (event_of u EventSucceeded)\<lparr>evOutSize := word_of_nat (length c)\<rparr>" "logs = []"
    "node_at fs' (fs_key fs (outPath u)) = Some (FileNode c (if jc_preserve jc then t0 else t))"
    by (auto simp: after_success_def Let_def os_Stat_def os_Chtimes_def calm_def split: if_splits)
qed

lemma runOne_done:
  assumes "runOne jc u fs = (fs', ev, logs)" and "jc_kind jc = jk" and "\<not> temp_name jk (fs_key fs (outPath u))"
    and "calm fs" and "outPath u \<noteq> []" and "inPath u \<noteq> []"
    and "node_at fs (fs_key fs (inPath u)) = Some (FileNode c0 t0)" and "fs_key fs (inPath u) \<noteq> fs_key fs (outPath u)"
  shows "evKind ev \<noteq> EventDiscovered \<and>
    (evKind ev = EventSkipped \<longleftrightarrow> jc_skip jc \<and> (\<exists>c t. node_at fs (fs_key fs (outPath u)) = Some (FileNode c t))) \<and>
    (evKind ev = EventSkipped \<longrightarrow> fs' = fs) \<and>
    (evKind ev = EventFailed \<longrightarrow> evErr ev \<noteq> None \<and>
       (\<forall>c t. node_at fs' (fs_key fs (outPath u)) = Some (FileNode c t) \<longleftrightarrow> node_at fs (fs_key fs (outPath u)) = Some (FileNode c t))) \<and>
    (evKind ev = EventSucceeded \<longrightarrow> (\<exists>c. spec (inPath u) (reader_of c0) c \<and> evOutSize ev = word_of_nat (length c) \<and>
       node_at fs' (fs_key fs (outPath u)) = Some (FileNode c (if jc_preserve jc then t0 else fs_clock fs))))"
proof -
  have sk: "skips jc u fs \<longleftrightarrow> jc_skip jc \<and> (\<exists>c t. node_at fs (fs_key fs (outPath u)) = Some (FileNode c t))"
    using assms(4,5) by (auto simp: skips_def os_Stat_def calm_def Let_def split: option.splits node.splits)
  from assms(1-3) show ?thesis
  proof (cases rule: runOne_cases)
    case skipped
    with sk show ?thesis by (simp add: event_of_def)
  next
    case (failed e)
    from failed(3) assms(3) have "node_at fs' (fs_key fs (outPath u)) = Some (FileNode c t) \<longleftrightarrow>
        node_at fs (fs_key fs (outPath u)) = Some (FileNode c t)" for c t
      by (auto simp: kept_def)
    with failed sk show ?thesis by (simp add: event_of_def)
  next
    case (succeeded src c fs1)
    note key = fs_confD(6) [OF succeeded(5)]
    from succeeded(6) [OF assms(8)] assms(7) have i1: "node_at fs1 (fs_key fs (inPath u)) = Some (FileNode c0 t0)"
      by (auto simp: kept_def)
    note t = success_times [OF succeeded(7) calm_conf [OF succeeded(5) assms(4)] assms(5) _ assms(6), unfolded key, OF succeeded(4) i1]
    have "src = reader_of c0" using succeeded(2) calm_Open [OF assms(4,6,7)] by simp
    with succeeded(1,3) sk t show ?thesis by (auto simp: event_of_def)
  qed
qed

end

text \<open>
  C26: What one job does. With \<open>SkipExisting\<close> a job skips exactly when its output is a file already, and then does
  nothing. Otherwise it fails with an error and leaves the file at the output, if any, as it is; or it succeeds:
  the output holds the genuine plaintext of the input, the event carries its size, and its modification time
  is that of the input with \<open>PreserveTime\<close>, and the time of writing without.
\<close>

theorem runOne_outcome:
  assumes "runOne (decrypt_conf lzr cfg) u fs = (fs', ev, logs)" and "calm fs" and "outPath u \<noteq> []" and "inPath u \<noteq> []"
    and "node_at fs (fs_key fs (inPath u)) = Some (FileNode c0 t0)" and "fs_key fs (inPath u) \<noteq> fs_key fs (outPath u)"
    and "\<not> temp_name (jc_kind (decrypt_conf lzr cfg)) (fs_key fs (outPath u))"
  shows "evKind ev \<noteq> EventDiscovered \<and>
    (evKind ev = EventSkipped \<longleftrightarrow> bSkipExisting cfg \<and> (\<exists>c t. node_at fs (fs_key fs (outPath u)) = Some (FileNode c t))) \<and>
    (evKind ev = EventSkipped \<longrightarrow> fs' = fs) \<and>
    (evKind ev = EventFailed \<longrightarrow> evErr ev \<noteq> None \<and>
       (\<forall>c t. node_at fs' (fs_key fs (outPath u)) = Some (FileNode c t) \<longleftrightarrow> node_at fs (fs_key fs (outPath u)) = Some (FileNode c t))) \<and>
    (evKind ev = EventSucceeded \<longrightarrow>
       (\<exists>c. genuine lzr \<lparr>oPassword = bPassword cfg, oPrivateKey = bPrivateKey cfg\<rparr> (reader_of c0) c \<and>
          evOutSize ev = word_of_nat (length c) \<and>
          node_at fs' (fs_key fs (outPath u)) = Some (FileNode c (if bPreserveTime cfg then t0 else fs_clock fs))))"
proof -
  have jk: "jc_kind (decrypt_conf lzr cfg) = decrypt_kind lzr \<lparr>oPassword = bPassword cfg, oPrivateKey = bPrivateKey cfg\<rparr>"
    by (simp add: decrypt_conf_def)
  from decj.runOne_done [OF assms(1) jk assms(7) [unfolded jk] assms(2-6)] show ?thesis by (simp add: decrypt_conf_def)
qed

theorem runOne_outcome_witness:
  "\<exists>c fs' ev logs x. runOne (decrypt_conf frame_reader ((sample_config [''.''])\<lparr>bPreserveTime := True\<rparr>))
       \<lparr>inPath = ''in'', outPath = ''e'', usize = 0\<rparr> (sample_fs c) = (fs', ev, logs) \<and>
     evKind ev = EventSucceeded \<and> genuine frame_reader sample_secret (reader_of c) x \<and>
     evOutSize ev = word_of_nat (length x) \<and> node_at fs' [''e''] = Some (FileNode x 7)"
proof -
  let ?cfg = "(sample_config [''.''])\<lparr>bPreserveTime := True\<rparr>"
  let ?u = "\<lparr>inPath = ''in'', outPath = ''e'', usize = 0\<rparr> :: job_unit" and ?jc = "decrypt_conf frame_reader ?cfg"
  have opts: "\<lparr>oPassword = bPassword ?cfg, oPrivateKey = bPrivateKey ?cfg\<rparr> = sample_secret"
    by (simp add: sample_config_def sample_secret_def)
  then have jk: "jc_kind ?jc = decrypt_kind frame_reader sample_secret" by (simp add: decrypt_conf_def)
  have pt: "bPreserveTime ?cfg" "\<not> bSkipExisting ?cfg" by (simp_all add: sample_config_def)
  obtain c st where c: "Decrypt frame_reader (reader_of c) new_sink sample_secret = (st, None)" using sample_stream by blast
  have nt: "\<not> temp_name (jc_kind ?jc) (fs_key (sample_fs c) ''e'')" by (rule not_temp_name) (simp add: jk sample_keys)
  have n: "node_at (sample_fs c) (fs_key (sample_fs c) ''in'') = Some (FileNode c 7)" by (simp add: sample_keys sample_nodes)
  have "jk_run (jc_kind ?jc) ''in'' (reader_of c) new_sink = (dec_out st, None)" using c by (simp add: jk decrypt_kind_def)
  moreover have "out_ok (sample_fs c) ''e''"
    by (simp add: out_ok_def sample_paths sample_keys sample_nodes plain_def elem_ok_def)
  moreover have "name_free (jc_kind ?jc) ''e'' (sample_fs c)"
    by (simp add: jk name_free_def sample_paths sample_keys sample_nodes)
  ultimately obtain fs1 where f: "crypt_file (jc_kind ?jc) ''in'' ''e'' (sample_fs c) = (fs1, None)"
    using crypt_file_succeeds [OF sample_calm calm_Open [OF sample_calm _ n] _ _ _ nt sample_wf] by fastforce
  obtain fs' ev logs where a: "after_success ?jc ?u fs1 = (fs', ev, logs)" by (cases "after_success ?jc ?u fs1") auto
  with f pt(2) have r: "runOne ?jc ?u (sample_fs c) = (fs', ev, logs)"
    by (simp add: runOne_def skips_def) (simp add: decrypt_conf_def)
  from after_success_event [OF a] have "evKind ev = EventSucceeded" by (auto simp: event_of_def)
  with runOne_outcome [OF r sample_calm, of c 7] n nt r opts pt show ?thesis by (auto simp: sample_keys)
qed

section \<open>Counters and termination\<close>

text \<open>
  C24: The report adds up, in every state of every run: each discovered unit is waiting, running, or counted
  exactly once as succeeded, skipped or failed; \<open>Errors\<close> has the discovery errors, then those of failed jobs, in
  an order of their own but each before its event; and when the run is over, each unit has had exactly one
  terminal event and the counters are the numbers of the events.
\<close>

theorem batch_report_adds_up:
  assumes "batch_reach jc w (start_batch us errs fs) b"
  shows "rpDiscovered (bt_rep b) = word_of_nat (length us) \<and>
    rpSucceeded (bt_rep b) + rpSkipped (bt_rep b) + rpFailed (bt_rep b) +
      word_of_nat (length (bt_queue b) + length (bt_running b)) =
      rpDiscovered (bt_rep b) + word_of_nat (length errs) \<and>
    (\<exists>evs fails. bt_events b = map (\<lambda>u. event_of u EventDiscovered) us @ evs \<and> (\<forall>ev \<in> set evs. terminal ev) \<and>
       rpErrors (bt_rep b) = errs @ map error_of fails \<and> mset (filter failed evs) \<subseteq># mset fails \<and>
       (finished b \<longrightarrow> mset (map unit_of evs) = mset us \<and> mset fails = mset (filter failed evs) \<and>
          rpSucceeded (bt_rep b) = word_of_nat (kinds EventSucceeded evs) \<and>
          rpSkipped (bt_rep b) = word_of_nat (kinds EventSkipped evs) \<and>
          rpFailed (bt_rep b) = word_of_nat (length errs + kinds EventFailed evs)))"
proof -
  from accounted_reach [OF assms] obtain cs fails evs where k: "books us errs b cs fails evs"
    unfolding accounted_def by blast
  note t = books_totals [OF k]
  have "rpSucceeded (bt_rep b) + rpSkipped (bt_rep b) + rpFailed (bt_rep b) +
      word_of_nat (length (bt_queue b) + length (bt_running b)) = rpDiscovered (bt_rep b) + word_of_nat (length errs)"
    by (simp add: t(1-4,6,7))
  moreover have "finished b \<longrightarrow> mset (map unit_of evs) = mset us \<and> mset fails = mset (filter failed evs) \<and>
      rpSucceeded (bt_rep b) = word_of_nat (kinds EventSucceeded evs) \<and>
      rpSkipped (bt_rep b) = word_of_nat (kinds EventSkipped evs) \<and>
      rpFailed (bt_rep b) = word_of_nat (length errs + kinds EventFailed evs)"
    using t(2-4,11) kinds_mset [of cs evs] by simp
  moreover have "bt_events b = map (\<lambda>u. event_of u EventDiscovered) us @ evs" using k by (simp add: books_def)
  ultimately show ?thesis using t(1,5,8,10) by blast
qed

definition sample_conf :: job_conf where
  "sample_conf = decrypt_conf frame_reader (sample_config [''.''])"

definition sample_units :: "job_unit list" where
  "sample_units = [\<lparr>inPath = ''a'', outPath = ''out/a'', usize = 49\<rparr>, \<lparr>inPath = ''s/a'', outPath = ''out/s'', usize = 49\<rparr>]"

lemma sample_finishes:
  "\<exists>b. batch_reach sample_conf 2 (start_batch sample_units [] sample_tree) b \<and> finished b"
  using batch_finishes [of 2] by simp

theorem batch_report_adds_up_witness:
  "\<exists>b. batch_reach sample_conf 2 (start_batch sample_units [] sample_tree) b \<and> finished b \<and>
     rpSucceeded (bt_rep b) + rpSkipped (bt_rep b) + rpFailed (bt_rep b) = 2"
proof -
  from sample_finishes obtain b where b: "batch_reach sample_conf 2 (start_batch sample_units [] sample_tree) b"
    "finished b" by blast
  from batch_report_adds_up [OF b(1)] b(2) have
    "rpSucceeded (bt_rep b) + rpSkipped (bt_rep b) + rpFailed (bt_rep b) = 2"
    by (auto simp: finished_def sample_units_def)
  with b show ?thesis by blast
qed

text \<open>
  C25: The run ends. With at least one worker no state but a finished one is stuck, and no run has more than
  thirteen steps per unit (its launch, eight steps of the job, four of the accounting).
\<close>

theorem batch_terminates:
  assumes "0 < w"
  shows "(\<not> finished b \<longrightarrow> (\<exists>b'. batch_step jc w b b')) \<and>
    (batch_run jc w (start_batch us errs fs) bs \<longrightarrow> length bs \<le> 13 * length us) \<and>
    (\<exists>b'. batch_reach jc w b b' \<and> finished b')"
  using batch_progress [OF assms, of b jc] batch_finishes [OF assms, of jc b]
    batch_run_length [of jc w "start_batch us errs fs" bs]
  by (auto simp: work_left_def start_batch_def)

theorem batch_terminates_witness:
  "(\<exists>b'. batch_reach sample_conf 1 (start_batch sample_units [] sample_tree) b' \<and> finished b')"
  using batch_terminates [of 1 "start_batch sample_units [] sample_tree" sample_conf] by simp

section \<open>The file system\<close>

lemma sample_out_keys:
  "fs_key sample_tree ''out/a'' = [''d'', ''out'', ''a'']" "fs_key sample_tree ''out/s'' = [''d'', ''out'', ''s'']"
  by (simp_all add: fs_key_def rooted_def push_elem_def sample_tree_def)

lemma sample_batch_ok: "batch_ok sample_tree (jc_kind sample_conf) sample_units"
proof -
  have "\<not> temp_name (jc_kind sample_conf) k" if "length (last k) < 7" for k
    using that by (intro not_temp_name) (simp add: sample_conf_def decrypt_conf_def)
  then show ?thesis
    by (simp add: batch_ok_def sample_units_def sample_tree_keys sample_out_keys sample_tree_nodes)
      (simp add: sample_tree_def)
qed

text \<open>
  C23: Nothing half-done is ever visible. In every state of every run, finished or interrupted, the file at
  an output path is either the one that was there before or the complete plaintext of a unit with that
  output path; every other file, but the temporary ones, is as before.
\<close>

theorem batch_never_half_done:
  assumes "batch_reach (decrypt_conf lzr cfg) w (batch_start cfg fs) b"
    and "batch_ok fs (jc_kind (decrypt_conf lzr cfg)) (pl_units (discover fs cfg))"
    and "node_at (bt_fs b) k = Some (FileNode c t)" and "\<not> temp_name (jc_kind (decrypt_conf lzr cfg)) k"
  shows "(\<exists>t'. node_at fs k = Some (FileNode c t')) \<or>
    (\<exists>v \<in> set (pl_units (discover fs cfg)). fs_key fs (outPath v) = k \<and>
       (\<exists>src. os_Open fs (inPath v) = Inr src \<and>
          genuine lzr \<lparr>oPassword = bPassword cfg, oPrivateKey = bPrivateKey cfg\<rparr> src c))"
proof (cases "\<exists>v \<in> set (pl_units (discover fs cfg)). k = fs_key fs (outPath v)")
  case True
  then obtain v where v: "v \<in> set (pl_units (discover fs cfg))" "k = fs_key fs (outPath v)" by blast
  from decj.batch_outputs(1) [OF assms(1) [unfolded batch_start_def] _ assms(2) [unfolded decrypt_conf_def job_conf.simps] v(1)]
    assms(3) v(2) show ?thesis by (auto simp: decrypt_conf_def)
next
  case False
  then have "\<forall>v \<in> set (pl_units (discover fs cfg)). k \<noteq> fs_key fs (outPath v)" by blast
  from decj.batch_outputs(2) [OF assms(1) [unfolded batch_start_def] _ assms(2) [unfolded decrypt_conf_def job_conf.simps] _ this]
    assms(3,4) show ?thesis by (auto simp: decrypt_conf_def)
qed

lemma sample_discovered_ok:
  shows "batch_ok sample_tree (jc_kind (decrypt_conf frame_reader (sample_config [''.''])))
     (pl_units (discover sample_tree (sample_config [''.''])))"
    and "distinct (map (\<lambda>u. fs_key sample_tree (outPath u)) (pl_units (discover sample_tree (sample_config [''.'']))))"
proof -
  let ?us = "pl_units (discover sample_tree (sample_config [''.'']))"
  note ok = discover_ok [OF sample_tree_wf, of "sample_config [''.'']", unfolded plan_ok_def]
  have mirror: "mirror sample_tree ''out'' ''.'' = [''d'', ''out'']"
    by (simp add: mirror_def key_of_def push_elem_def rooted_def sample_tree_keys)
  have u: "\<exists>ns. fs_key sample_tree (inPath u) = [''d''] @ ns \<and> fs_key sample_tree (outPath u) = [''d'', ''out''] @ ns \<and>
      inPath u = walk_path ''.'' ns \<and> ns \<in> {[''a''], [''n''], [''s'', ''a'']}" if "u \<in> set ?us" for u
  proof -
    from ok that have un: "unit_ok sample_tree (sample_config [''.'']) u" by blast
    then obtain c t where c: "node_at sample_tree (fs_key sample_tree (inPath u)) = Some (FileNode c t)"
      unfolding unit_ok_def by blast
    have dot: "inPath u \<noteq> ''.''" using c by (auto simp: sample_tree_keys sample_tree_nodes)
    with un obtain ns where ns: "ns \<noteq> []" "list_all plain ns" "inPath u = walk_path ''.'' ns"
      "outPath u = Join [''out'', Base (Clean ''.''), join_slash ns]"
      by (auto simp: unit_ok_def sample_config_def)
    from fs_key_walk [OF ns(2), of sample_tree "''.''"] ns(3) have k: "fs_key sample_tree (inPath u) = [''d''] @ ns"
      by (simp add: sample_tree_keys)
    with c ns(1) have "ns \<in> {[''a''], [''n''], [''s'', ''a'']}" by (auto simp: sample_tree_nodes split: if_splits)
    with k ns mirror_path [OF _ ns(2,1) sample_tree_wf, of "''out''" "''.''"] mirror show ?thesis by auto
  qed
  have nt: "\<not> temp_name (jc_kind (decrypt_conf frame_reader (sample_config [''.'']))) k" if "length (last k) < 7" for k
    using that by (intro not_temp_name) (simp add: decrypt_conf_def)
  have a: "\<not> temp_name (jc_kind (decrypt_conf frame_reader (sample_config [''.'']))) (fs_key sample_tree (outPath u)) \<and>
      \<not> temp_name (jc_kind (decrypt_conf frame_reader (sample_config [''.'']))) (fs_key sample_tree (inPath u)) \<and>
      (\<exists>c t. node_at sample_tree (fs_key sample_tree (inPath u)) = Some (FileNode c t)) \<and>
      (\<forall>v \<in> set ?us. fs_key sample_tree (inPath u) \<noteq> fs_key sample_tree (outPath v))" if "u \<in> set ?us" for u
  proof (intro conjI ballI)
    from u [OF that] show "\<not> temp_name (jc_kind (decrypt_conf frame_reader (sample_config [''.'']))) (fs_key sample_tree (outPath u))"
      "\<not> temp_name (jc_kind (decrypt_conf frame_reader (sample_config [''.'']))) (fs_key sample_tree (inPath u))"
      by (auto intro!: nt)
    from u [OF that] show "\<exists>c t. node_at sample_tree (fs_key sample_tree (inPath u)) = Some (FileNode c t)"
      by (auto simp: sample_tree_nodes)
    fix v assume "v \<in> set ?us"
    from u [OF this] u [OF that] show "fs_key sample_tree (inPath u) \<noteq> fs_key sample_tree (outPath v)" by auto
  qed
  have "distinct (fs_rand sample_tree)" by (simp add: sample_tree_def)
  with a show "batch_ok sample_tree (jc_kind (decrypt_conf frame_reader (sample_config [''.'']))) ?us"
    unfolding batch_ok_def by blast
  have "inj_on (\<lambda>u. fs_key sample_tree (outPath u)) (set ?us)"
  proof (rule inj_onI)
    fix v w assume vw: "v \<in> set ?us" "w \<in> set ?us" "fs_key sample_tree (outPath v) = fs_key sample_tree (outPath w)"
    then have "inPath v = inPath w" using u [OF vw(1)] u [OF vw(2)] by auto
    with vw(1,2) ok show "v = w" by (auto simp: distinct_map inj_on_def)
  qed
  moreover have "distinct ?us" using ok by (simp add: distinct_map)
  ultimately show "distinct (map (\<lambda>u. fs_key sample_tree (outPath u)) ?us)" by (simp add: distinct_map)
qed

theorem batch_never_half_done_witness:
  "\<exists>b. batch_reach (decrypt_conf frame_reader (sample_config [''.''])) 2 (batch_start (sample_config [''.'']) sample_tree) b \<and>
     finished b \<and>
     (\<forall>c t. node_at (bt_fs b) [''d'', ''n''] = Some (FileNode c t) \<longrightarrow>
        c = [1, 2] \<or> (\<exists>v \<in> set (pl_units (discover sample_tree (sample_config [''.'']))).
          fs_key sample_tree (outPath v) = [''d'', ''n'']))"
proof -
  obtain b where b: "batch_reach (decrypt_conf frame_reader (sample_config [''.''])) 2 (batch_start (sample_config [''.'']) sample_tree) b"
    "finished b" using batch_finishes [of 2] by (metis zero_less_numeral)
  have "\<not> temp_name (jc_kind (decrypt_conf frame_reader (sample_config [''.'']))) [''d'', ''n'']"
    by (intro not_temp_name) (simp add: decrypt_conf_def)
  with batch_never_half_done [OF b(1) sample_discovered_ok(1)]
  have "c = [1, 2] \<or> (\<exists>v \<in> set (pl_units (discover sample_tree (sample_config [''.'']))).
          fs_key sample_tree (outPath v) = [''d'', ''n''])"
    if "node_at (bt_fs b) [''d'', ''n''] = Some (FileNode c t)" for c t
    using that by (fastforce simp: sample_tree_nodes)
  with b show ?thesis by blast
qed

text \<open>
  C22: What a finished batch has done. When the outputs of the units are different files, every discovered unit
  has had a terminal event, and one that succeeded has at its output exactly the plaintext of its own input
  as it was when the batch began.
\<close>

theorem batch_decrypts_each_unit:
  assumes "batch_reach (decrypt_conf lzr cfg) w (batch_start cfg fs) b" and "finished b"
    and "batch_ok fs (jc_kind (decrypt_conf lzr cfg)) (pl_units (discover fs cfg))"
    and "distinct (map (\<lambda>u. fs_key fs (outPath u)) (pl_units (discover fs cfg)))"
    and "u \<in> set (pl_units (discover fs cfg))"
  shows "\<exists>ev \<in> set (bt_events b). unit_of ev = u \<and> terminal ev \<and>
    (evKind ev = EventSucceeded \<longrightarrow>
       (\<exists>src c t. os_Open fs (inPath u) = Inr src \<and>
          genuine lzr \<lparr>oPassword = bPassword cfg, oPrivateKey = bPrivateKey cfg\<rparr> src c \<and>
          node_at (bt_fs b) (fs_key fs (outPath u)) = Some (FileNode c t)))"
  using decj.batch_units_done [where lzr = lzr and opts = "\<lparr>oPassword = bPassword cfg, oPrivateKey = bPrivateKey cfg\<rparr>",
      OF assms(1) [unfolded batch_start_def] _ _ assms(2,4,5)] assms(3)
  by (simp add: decrypt_conf_def)

theorem batch_decrypts_each_unit_witness:
  "\<exists>b u. batch_reach (decrypt_conf frame_reader (sample_config [''.''])) 2 (batch_start (sample_config [''.'']) sample_tree) b \<and>
     finished b \<and> inPath u = ''a'' \<and> (\<exists>ev \<in> set (bt_events b). unit_of ev = u \<and> terminal ev)"
proof -
  obtain b where b: "batch_reach (decrypt_conf frame_reader (sample_config [''.''])) 2 (batch_start (sample_config [''.'']) sample_tree) b"
    "finished b" using batch_finishes [of 2] by (metis zero_less_numeral)
  obtain u where u: "u \<in> set (pl_units (discover sample_tree (sample_config [''.''])))" "inPath u = ''a''"
    using sample_units [of "''.''" "[''a'']"] by (auto simp: sample_walk)
  from batch_decrypts_each_unit [OF b sample_discovered_ok u(1)] b u(2) show ?thesis by blast
qed

end
