(* ===== verification/Cli.thy ===== *)
theory Cli
  imports BatchRuns
begin

text \<open>
  \<open>main.go\<close>: flags, secrets, the version string, the discovery and the run of an encryption batch, the
  inspection, and the exit codes. The text that is printed is left out, except for what it is computed from:
  the reason of a refusal, the lines of \<open>-inspect\<close>, the progress counters, the report, the scale of \<open>humanBytes\<close>.
\<close>

section \<open>Strings and numbers\<close>

definition trimEOL :: "bytes \<Rightarrow> bytes" where
  "trimEOL b = rev (dropWhile (\<lambda>c. c = 13 \<or> c = 10) (rev b))"

text \<open>\<open>strings.SplitN(s, ".", 2)\<close>, when there are two parts.\<close>

fun split_dot :: "string \<Rightarrow> (string \<times> string) option" where
  "split_dot [] = None"
| "split_dot (c # s) =
     (if c = CHR ''.'' then Some ([], s)
      else map_option (\<lambda>(a, b). (c # a, b)) (split_dot s))"

text \<open>\<open>strconv.ParseInt(s, 10, 64)\<close>: a sign, then \<open>ParseUint\<close>, digit by digit.\<close>

definition digit_value :: "char \<Rightarrow> nat option" where
  "digit_value c = (let d = of_char c :: nat in if 48 \<le> d \<and> d \<le> 57 then Some (d - 48) else None)"

abbreviation ErrSyntax :: error where "ErrSyntax \<equiv> ErrExternal ''invalid syntax''"
abbreviation ErrRange :: error where "ErrRange \<equiv> ErrExternal ''value out of range''"

fun parse_uint :: "nat \<Rightarrow> string \<Rightarrow> error + nat" where
  "parse_uint n [] = Inr n"
| "parse_uint n (c # s) =
     (case digit_value c of
        None \<Rightarrow> Inl ErrSyntax
      | Some d \<Rightarrow> if 2 ^ 64 \<le> 10 * n + d then Inl ErrRange else parse_uint (10 * n + d) s)"

definition parse_int :: "string \<Rightarrow> error + int64" where
  "parse_int s =
     (let (neg, u) = (case s of c # t \<Rightarrow> if c = CHR ''-'' then (True, t) else if c = CHR ''+'' then (False, t) else (False, s)
                              | [] \<Rightarrow> (False, [])) in
      if u = [] then Inl ErrSyntax
      else
        (case parse_uint 0 u of
           Inl e \<Rightarrow> Inl e
         | Inr n \<Rightarrow>
             if \<not> neg \<and> 2 ^ 63 \<le> n then Inl ErrRange
             else if neg \<and> 2 ^ 63 < n then Inl ErrRange
             else Inr (if neg then - word_of_nat n else word_of_nat n)))"

definition parseVersion :: "string \<Rightarrow> error + (int64 \<times> int64)" where
  "parseVersion s =
     (case split_dot s of
        None \<Rightarrow> Inl (ErrVersionFormat s)
      | Some (a, b) \<Rightarrow>
          (case parse_int a of
             Inl e \<Rightarrow> Inl (ErrVersionMajor s e)
           | Inr maj \<Rightarrow>
               (case parse_int b of
                  Inl e \<Rightarrow> Inl (ErrVersionMinor s e)
                | Inr mnr \<Rightarrow>
                    if maj \<noteq> 1 \<and> maj \<noteq> 3 then Inl (ErrVersionRange maj) else Inr (maj, mnr))))"

lemma sint_of_int64: "- (2 ^ 63) \<le> k \<Longrightarrow> k < 2 ^ 63 \<Longrightarrow> sint (word_of_int k :: int64) = k"
  by (simp add: signed_of_int signed_take_bit_int_eq_self)

lemma sint_less_int64: "sint (x :: int64) < 2 ^ 63"
  using sint_lt [of x] by simp

text \<open>
  \<open>humanBytes\<close>: \<open>None\<close> prints the number itself, otherwise it is printed as a multiple of \<open>dv\<close> with the
  letter of \<open>"KMGTPE"\<close> at \<open>ex\<close>. The arguments of the divisions are not negative.
\<close>

function human_loop :: "int64 \<Rightarrow> int64 \<Rightarrow> nat \<Rightarrow> int64 \<times> nat" where
  "human_loop x dv ex =
     (if 1024 \<le> sint x then human_loop (word_of_int (sint x div 1024)) (dv * 1024) (ex + 1) else (dv, ex))"
  by pat_completeness auto
termination
proof (relation "measure (\<lambda>(x, dv, ex). nat (sint x))", goal_cases)
  case (2 x dv ex)
  with sint_less_int64 [of x] have "sint (word_of_int (sint x div 1024) :: int64) = sint x div 1024"
    by (intro sint_of_int64) simp_all
  with 2 show ?case by simp
qed simp

declare human_loop.simps [simp del]

definition humanBytes :: "int64 \<Rightarrow> (int64 \<times> nat) option" where
  "humanBytes n = (if sint n < 1024 then None else Some (human_loop (word_of_int (sint n div 1024)) 1024 0))"

section \<open>Secrets\<close>

text \<open>The password from the file or the flag; \<open>None\<close> is nil, which an empty password file is not.\<close>

definition load_password :: "fsys \<Rightarrow> path \<Rightarrow> string \<Rightarrow> error + bytes option" where
  "load_password fs pwFile pwInline =
     (if pwFile \<noteq> []
      then (case os_ReadFile fs pwFile of Inl e \<Rightarrow> Inl e | Inr b \<Rightarrow> Inr (Some (trimEOL b)))
      else if pwInline \<noteq> [] then Inr (Some (bytes_of_string pwInline))
      else Inr None)"

definition loadDecryptSecrets ::
    "pem_lib \<Rightarrow> fsys \<Rightarrow> path \<Rightarrow> string \<Rightarrow> path \<Rightarrow> string \<Rightarrow> error + (bytes option \<times> rsa_private option)" where
  "loadDecryptSecrets lib fs pwFile pwInline pkPEM pkPass =
     (case load_password fs pwFile pwInline of
        Inl e \<Rightarrow> Inl e
      | Inr pw \<Rightarrow>
          if pkPEM \<noteq> []
          then (case LoadRSAPrivateKey lib fs pkPEM pkPass of Inl e \<Rightarrow> Inl e | Inr k \<Rightarrow> Inr (pw, Some k))
          else Inr (pw, None))"

definition loadEncryptSecrets ::
    "pem_lib \<Rightarrow> fsys \<Rightarrow> path \<Rightarrow> string \<Rightarrow> path \<Rightarrow> error + (bytes option \<times> rsa_public option)" where
  "loadEncryptSecrets lib fs pwFile pwInline pubPEM =
     (case load_password fs pwFile pwInline of
        Inl e \<Rightarrow> Inl e
      | Inr pw \<Rightarrow>
          if pubPEM \<noteq> []
          then (case LoadRSAPublicKey lib fs pubPEM of Inl e \<Rightarrow> Inl e | Inr k \<Rightarrow> Inr (pw, Some k))
          else Inr (pw, None))"

section \<open>Discovery for encryption\<close>

definition encrypt_visit :: "fsys \<Rightarrow> path \<Rightarrow> path \<Rightarrow> plan \<Rightarrow> visit \<Rightarrow> plan" where
  "encrypt_visit fs outDir root pl v =
     (case v of (ns, isdir, walkErr) \<Rightarrow>
        let p = walk_path root ns in
        case walkErr of
          Some e \<Rightarrow> plan_error p e pl
        | None \<Rightarrow>
            if isdir then pl
            else
              (case os_Info fs (fs_key fs root @ ns) of
                 Inl e \<Rightarrow> plan_error p e pl
               | Inr fi \<Rightarrow>
                   if p \<in> set (pl_seen pl) then pl
                   else
                     let pl1 = pl\<lparr>pl_seen := p # pl_seen pl\<rparr>
                     in case Rel root p of
                          Inl e \<Rightarrow> plan_error p e pl1
                        | Inr rel \<Rightarrow>
                            pl1\<lparr>pl_units := pl_units pl1 @
                              [\<lparr>inPath = p, outPath = Join [outDir, Base root, rel], usize = fi_size fi\<rparr>]\<rparr>))"

definition encrypt_input :: "fsys \<Rightarrow> path \<Rightarrow> bool \<Rightarrow> plan \<Rightarrow> path \<Rightarrow> plan" where
  "encrypt_input fs outDir recursive pl inp =
     (case os_Stat fs inp of
        Inl e \<Rightarrow> plan_error inp e pl
      | Inr info \<Rightarrow>
          if \<not> fi_isdir info
          then if inp \<in> set (pl_seen pl) then pl
               else pl\<lparr>pl_units := pl_units pl @
                        [\<lparr>inPath = inp, outPath = Join [outDir, Base inp], usize = fi_size info\<rparr>],
                       pl_seen := inp # pl_seen pl\<rparr>
          else if \<not> recursive then plan_error inp ErrIsDirectoryCli pl
          else foldl (encrypt_visit fs outDir (Clean inp)) pl (walk_dir fs (fs_key fs (Clean inp))))"

definition discoverEncryptUnits :: "fsys \<Rightarrow> path list \<Rightarrow> path \<Rightarrow> bool \<Rightarrow> plan" where
  "discoverEncryptUnits fs inputs outDir recursive = foldl (encrypt_input fs outDir recursive) empty_plan inputs"

section \<open>Progress\<close>

text \<open>\<open>makeProgressReporter\<close>: the counters \<open>discovered\<close>, \<open>done\<close>, and what a line shows of them.\<close>

definition report_progress :: "BatchEvent \<Rightarrow> int64 \<times> int64 \<Rightarrow> (int64 \<times> int64) \<times> (int64 \<times> int64) option" where
  "report_progress ev c =
     (case c of (discovered, dn) \<Rightarrow>
        case evKind ev of
          EventDiscovered \<Rightarrow> ((discovered + 1, dn), None)
        | EventSucceeded \<Rightarrow> ((discovered, dn + 1), Some (dn + 1, discovered))
        | EventSkipped \<Rightarrow> ((discovered, dn + 1), Some (dn + 1, discovered))
        | EventFailed \<Rightarrow> ((discovered, dn + 1), Some (dn + 1, discovered)))"

fun progress_lines :: "BatchEvent list \<Rightarrow> int64 \<times> int64 \<Rightarrow> (int64 \<times> int64) list" where
  "progress_lines [] c = []"
| "progress_lines (ev # evs) c =
     (case report_progress ev c of
        (c', None) \<Rightarrow> progress_lines evs c'
      | (c', Some l) \<Rightarrow> l # progress_lines evs c')"

section \<open>Inspection\<close>

datatype inspect_line =
    Shown path Metadata
  | Failed path error
  | NotRecursive path

definition inspect_visit :: "fsys \<Rightarrow> path \<Rightarrow> inspect_line" where
  "inspect_visit fs p = (case InspectFile fs p of Inl e \<Rightarrow> Failed p e | Inr m \<Rightarrow> Shown p m)"

text \<open>
  \<open>filepath.Walk\<close> stats every entry; entries it cannot stat, and what is below them, are passed over. Unlike
  \<open>WalkDir\<close> it visits none of the entries of a directory that it cannot read to the end.
\<close>

definition Walk :: "fsys \<Rightarrow> fkey \<Rightarrow> visit list" where
  "Walk fs K = walk_dir (fs\<lparr>fs_part := \<lambda>_ _. False\<rparr>) K"

definition walk_stat_ok :: "fsys \<Rightarrow> fkey \<Rightarrow> string list \<Rightarrow> bool" where
  "walk_stat_ok fs K ns \<longleftrightarrow> list_all (\<lambda>ms. ms = [] \<or> fs_fault fs (CallStat (K @ ms)) = None) (prefixes ns)"

definition inspect_input :: "fsys \<Rightarrow> bool \<Rightarrow> path \<Rightarrow> inspect_line list" where
  "inspect_input fs recursive inp =
     (case os_Stat fs inp of
        Inl e \<Rightarrow> [Failed inp e]
      | Inr info \<Rightarrow>
          if \<not> fi_isdir info then [inspect_visit fs inp]
          else if \<not> recursive then [NotRecursive inp]
          else map (inspect_visit fs)
                 (filter (\<lambda>p. IsCsencFile fs p = Inr True)
                   (map (walk_path inp)
                     (filter (walk_stat_ok fs (fs_key fs inp)) (walk_files (Walk fs (fs_key fs inp)))))))"

definition runInspect :: "fsys \<Rightarrow> path list \<Rightarrow> bool \<Rightarrow> inspect_line list" where
  "runInspect fs inputs recursive = concat (map (inspect_input fs recursive) inputs)"

section \<open>The command\<close>

record flags =
  f_encrypt :: bool
  f_inspect :: bool
  f_pwFile :: path
  f_pwInline :: string
  f_pkPEM :: path
  f_pkPass :: string
  f_pubPEM :: path
  f_outDir :: path
  f_outFile :: path
  f_recursive :: bool
  f_jobs :: int
  f_skipExist :: bool
  f_keepMTime :: bool
  f_version :: string
  f_compress :: bool
  f_inputs :: "path list"

text \<open>What \<open>fail\<close> is called with, and what the command has printed when it ends.\<close>

datatype complaint =
    NeedOutput
  | OneInputOnly
  | NotWithRecursion
  | BadSecret error
  | NeedSecret
  | BadVersion error

datatype cli_output =
    Usage
  | Refused complaint
  | Inspected "inspect_line list"
  | Converted path path
  | FileFailed path error
  | Reported BatchReport

definition report_code :: "BatchReport \<Rightarrow> nat" where
  "report_code rep = (if 0 < sint (rpFailed rep) then 1 else 0)"

text \<open>The argument of \<open>os.Exit\<close> behind each of them; without a call it is 0.\<close>

fun exit_code :: "cli_output \<Rightarrow> nat" where
  "exit_code Usage = 2"
| "exit_code (Refused c) = 2"
| "exit_code (Inspected ls) = 0"
| "exit_code (Converted i out) = 0"
| "exit_code (FileFailed i e) = 1"
| "exit_code (Reported rep) = report_code rep"

definition output_flags :: "flags \<Rightarrow> complaint option" where
  "output_flags fl =
     (if f_outFile fl = [] \<and> f_outDir fl = [] then Some NeedOutput
      else if f_outFile fl \<noteq> [] \<and> length (f_inputs fl) \<noteq> 1 then Some OneInputOnly
      else if f_outFile fl \<noteq> [] \<and> f_recursive fl then Some NotWithRecursion
      else None)"

definition file_output :: "path \<Rightarrow> path \<Rightarrow> error option \<Rightarrow> cli_output" where
  "file_output i out r = (case r of None \<Rightarrow> Converted i out | Some e \<Rightarrow> FileFailed i e)"

text \<open>What the process has from outside: the LZ4 library, PEM decoders, randomness, \<open>GOMAXPROCS\<close>.\<close>

record ('d, 'e) world =
  wd_lzr :: "'d lz_reader"
  wd_lzw :: "'e lz_writer"
  wd_pem :: pem_lib
  wd_crand :: "path \<Rightarrow> reader"
  wd_procs :: nat

definition decrypt_config :: "flags \<Rightarrow> bytes option \<Rightarrow> rsa_private option \<Rightarrow> BatchConfig" where
  "decrypt_config fl pw key =
     \<lparr>bInputs = f_inputs fl, bOutputDir = f_outDir fl, bPassword = pw, bPrivateKey = key,
      bRecursive = f_recursive fl, bConcurrency = f_jobs fl, bSkipExisting = f_skipExist fl,
      bPreserveTime = f_keepMTime fl, bFilter = None\<rparr>"

text \<open>\<open>runDecrypt\<close>: what it prints and the file system it leaves, for one of the runs of the batch.\<close>

definition runDecrypt :: "('d, 'e) world \<Rightarrow> flags \<Rightarrow> fsys \<Rightarrow> cli_output \<Rightarrow> fsys \<Rightarrow> bool" where
  "runDecrypt wd fl fs out fs' \<longleftrightarrow>
     (case loadDecryptSecrets (wd_pem wd) fs (f_pwFile fl) (f_pwInline fl) (f_pkPEM fl) (f_pkPass fl) of
        Inl e \<Rightarrow> out = Refused (BadSecret e) \<and> fs' = fs
      | Inr (pw, key) \<Rightarrow>
          if pw = None \<and> key = None then out = Refused NeedSecret \<and> fs' = fs
          else if f_outFile fl \<noteq> []
          then (case DecryptFile (wd_lzr wd) (hd (f_inputs fl)) (f_outFile fl) \<lparr>oPassword = pw, oPrivateKey = key\<rparr> fs of
                  (fs1, r) \<Rightarrow> out = file_output (hd (f_inputs fl)) (f_outFile fl) r \<and> fs' = fs1)
          else (\<exists>rep. Batch (wd_lzr wd) (wd_procs wd) (decrypt_config fl pw key) fs rep fs' \<and> out = Reported rep))"

definition buildOpts ::
    "bytes option \<Rightarrow> rsa_public option \<Rightarrow> int64 \<Rightarrow> int64 \<Rightarrow> bool \<Rightarrow> path \<Rightarrow> EncryptOptions" where
  "buildOpts pw pubKey major minor compress inp =
     \<lparr>ePassword = (case pw of None \<Rightarrow> [] | Some b \<Rightarrow> b), ePublicKey = pubKey, eMajor = major, eMinor = minor,
      eFilename = Base inp, eCompress = Some compress, eRand = None\<rparr>"

definition encrypt_conf ::
    "('d, 'e) world \<Rightarrow> flags \<Rightarrow> (path \<Rightarrow> EncryptOptions) \<Rightarrow> job_conf" where
  "encrypt_conf wd fl build =
     \<lparr>jc_kind = encrypt_kind (wd_lzw wd) (wd_crand wd) build, jc_skip = f_skipExist fl, jc_preserve = f_keepMTime fl\<rparr>"

text \<open>\<open>runEncryptOne\<close>: one job of the batch as it is written; it is \<open>runOne\<close> with \<open>EncryptFile\<close> (\<open>runEncryptOne_is_runOne\<close>).\<close>

definition runEncryptOne ::
    "('d, 'e) world \<Rightarrow> flags \<Rightarrow> (path \<Rightarrow> EncryptOptions) \<Rightarrow> job_unit \<Rightarrow> fsys \<Rightarrow> fsys \<times> BatchEvent \<times> error list" where
  "runEncryptOne wd fl build u fs =
     (let ev = event_of u EventDiscovered;
          skip = f_skipExist fl \<and> (case os_Stat fs (outPath u) of Inl e \<Rightarrow> False | Inr st \<Rightarrow> \<not> fi_isdir st) in
      if skip then (fs, ev\<lparr>evKind := EventSkipped\<rparr>, [])
      else
        (case EncryptFile (wd_lzw wd) (wd_crand wd) (inPath u) (outPath u) (build (inPath u)) fs of
           (fs1, Some e) \<Rightarrow> (fs1, ev\<lparr>evKind := EventFailed, evErr := Some e\<rparr>, [])
         | (fs1, None) \<Rightarrow>
             let ev1 = ev\<lparr>evOutSize := (case os_Stat fs1 (outPath u) of Inl e \<Rightarrow> 0 | Inr st \<Rightarrow> fi_size st)\<rparr>;
                 (fs2, logs) =
                   (if f_keepMTime fl
                    then (case os_Stat fs1 (inPath u) of
                            Inr src \<Rightarrow> (fst (os_Chtimes (outPath u) (fi_mtime src) fs1), [])
                          | Inl e \<Rightarrow> (fs1, [e]))
                    else (fs1, []))
             in (fs2, ev1\<lparr>evKind := EventSucceeded\<rparr>, logs)))"

definition encrypt_start :: "flags \<Rightarrow> fsys \<Rightarrow> batch" where
  "encrypt_start fl fs =
     (let pl = discoverEncryptUnits fs (f_inputs fl) (f_outDir fl) (f_recursive fl)
      in start_batch (pl_units pl) (pl_errs pl) fs)"

definition runEncryptBatch ::
    "('d, 'e) world \<Rightarrow> flags \<Rightarrow> (path \<Rightarrow> EncryptOptions) \<Rightarrow> fsys \<Rightarrow> BatchReport \<Rightarrow> fsys \<Rightarrow> bool" where
  "runEncryptBatch wd fl build fs rep fs' \<longleftrightarrow>
     (\<exists>b. batch_reach (encrypt_conf wd fl build) (worker_count (wd_procs wd) (f_jobs fl)) (encrypt_start fl fs) b \<and>
        finished b \<and> rep = bt_rep b \<and> fs' = bt_fs b)"

definition runEncrypt :: "('d, 'e) world \<Rightarrow> flags \<Rightarrow> fsys \<Rightarrow> cli_output \<Rightarrow> fsys \<Rightarrow> bool" where
  "runEncrypt wd fl fs out fs' \<longleftrightarrow>
     (case loadEncryptSecrets (wd_pem wd) fs (f_pwFile fl) (f_pwInline fl) (f_pubPEM fl) of
        Inl e \<Rightarrow> out = Refused (BadSecret e) \<and> fs' = fs
      | Inr (pw, pubKey) \<Rightarrow>
          if pw = None \<and> pubKey = None then out = Refused NeedSecret \<and> fs' = fs
          else
            (case parseVersion (f_version fl) of
               Inl e \<Rightarrow> out = Refused (BadVersion e) \<and> fs' = fs
             | Inr (major, minor) \<Rightarrow>
                 let build = buildOpts pw pubKey major minor (f_compress fl) in
                 if f_outFile fl \<noteq> []
                 then (case EncryptFile (wd_lzw wd) (wd_crand wd) (hd (f_inputs fl)) (f_outFile fl)
                              (build (hd (f_inputs fl))) fs of
                         (fs1, r) \<Rightarrow> out = file_output (hd (f_inputs fl)) (f_outFile fl) r \<and> fs' = fs1)
                 else (\<exists>rep. runEncryptBatch wd fl build fs rep fs' \<and> out = Reported rep)))"

definition cli_main :: "('d, 'e) world \<Rightarrow> flags \<Rightarrow> fsys \<Rightarrow> cli_output \<Rightarrow> fsys \<Rightarrow> bool" where
  "cli_main wd fl fs out fs' \<longleftrightarrow>
     (if f_inputs fl = [] then out = Usage \<and> fs' = fs
      else if f_inspect fl then out = Inspected (runInspect fs (f_inputs fl) (f_recursive fl)) \<and> fs' = fs
      else
        (case output_flags fl of
           Some c \<Rightarrow> out = Refused c \<and> fs' = fs
         | None \<Rightarrow> if f_encrypt fl then runEncrypt wd fl fs out fs' else runDecrypt wd fl fs out fs'))"

end
