(* ===== verification/CliCorrect.thy ===== *)
theory CliCorrect
  imports Cli
begin

text \<open>
  Two calculations of the command line: the version string, which is read as the decimals it is written in,
  and the scale of \<open>humanBytes\<close>, which never leaves its table of units.
\<close>

section \<open>Version strings\<close>

lemma parse_uint_append:
  "parse_uint a (s @ t) = (case parse_uint a s of Inl e \<Rightarrow> Inl e | Inr b \<Rightarrow> parse_uint b t)"
  by (induction a s rule: parse_uint.induct) (simp_all split: option.split)

lemma digit_value_digit: "d < 10 \<Longrightarrow> digit_value (char_of (48 + d)) = Some d"
  by (simp add: digit_value_def of_char_of)

lemma parse_uint_dec: "n < 2 ^ 64 \<Longrightarrow> parse_uint 0 (dec_digits n) = Inr n"
proof (induction n rule: dec_digits.induct)
  case (1 n)
  show ?case
  proof (cases "n < 10")
    case True
    then show ?thesis by (subst dec_digits.simps) (simp add: digit_value_digit)
  next
    case False
    with 1 have "parse_uint 0 (dec_digits (n div 10)) = Inr (n div 10)" by simp
    then show ?thesis using False "1.prems"
      by (subst dec_digits.simps) (simp add: parse_uint_append digit_value_digit)
  qed
qed

lemma dec_digits_chars: "dec_digits n \<noteq> []" "set (dec_digits n) \<subseteq> (\<lambda>d. char_of (48 + d)) ` {..<10 :: nat}"
proof -
  show "dec_digits n \<noteq> []" by (subst dec_digits.simps) simp
  show "set (dec_digits n) \<subseteq> (\<lambda>d. char_of (48 + d)) ` {..<10 :: nat}"
  proof (induction n rule: dec_digits.induct)
    case (1 n)
    then show ?case by (subst dec_digits.simps) auto
  qed
qed

lemma char_of_digit:
  assumes "d < 10"
  shows "char_of (48 + d :: nat) \<notin> {CHR ''-'', CHR ''+'', CHR ''.''}"
proof
  assume "char_of (48 + d :: nat) \<in> {CHR ''-'', CHR ''+'', CHR ''.''}"
  then have "of_char (char_of (48 + d :: nat)) \<in> (of_char ` {CHR ''-'', CHR ''+'', CHR ''.''} :: nat set)" by (rule imageI)
  with assms show False by (simp add: of_char_of)
qed

lemma dec_digits_no_sign:
  assumes "c \<in> set (dec_digits n)"
  shows "c \<notin> {CHR ''-'', CHR ''+'', CHR ''.''}"
proof -
  from subsetD [OF dec_digits_chars(2) assms] obtain d :: nat where d: "d \<in> {..<10}" "c = char_of (48 + d)"
    by (rule imageE)
  from d(1) have "d < 10" by simp
  from char_of_digit [OF this] show ?thesis by (simp only: d(2) not_False_eq_True)
qed

lemma parse_int_dec: "n < 2 ^ 63 \<Longrightarrow> parse_int (dec_digits n) = Inr (word_of_nat n)"
proof -
  assume n: "n < 2 ^ 63"
  obtain c t where c: "dec_digits n = c # t" using dec_digits_chars(1) [of n] by (cases "dec_digits n") auto
  with dec_digits_no_sign [of c n] have "c \<noteq> CHR ''-''" "c \<noteq> CHR ''+''" by auto
  with c n parse_uint_dec [of n] show ?thesis by (simp add: parse_int_def)
qed

lemma split_dot_append: "CHR ''.'' \<notin> set a \<Longrightarrow> split_dot (a @ CHR ''.'' # b) = Some (a, b)"
  by (induction a) auto

lemma parseVersion_InrD: "parseVersion s = Inr (maj, mnr) \<Longrightarrow> maj = 1 \<or> maj = 3"
  by (auto simp: parseVersion_def split: option.splits prod.splits sum.splits if_splits)

text \<open>
  \<open>-version\<close>. A version written in decimals \<open>N.M\<close> is read as these numbers when \<open>N\<close> is 1 or 3, and
  rejected with the number it has otherwise.
\<close>

lemma parse_version_decimals:
  assumes "m < 2 ^ 63" and "n < 2 ^ 63"
  shows "parseVersion (dec_digits m @ ''.'' @ dec_digits n) =
    (if m = 1 \<or> m = 3 then Inr (word_of_nat m, word_of_nat n) else Inl (ErrVersionRange (word_of_nat m)))"
proof -
  have "CHR ''.'' \<notin> set (dec_digits m)" using dec_digits_no_sign [of "CHR ''.''" m] by auto
  then have s: "split_dot (dec_digits m @ ''.'' @ dec_digits n) = Some (dec_digits m, dec_digits n)"
    by (simp add: split_dot_append)
  have "(word_of_nat m :: int64) = word_of_nat k \<longleftrightarrow> m = k" if "k < 2 ^ 63" for k
    using assms(1) that by (simp add: word_of_nat_eq_iff take_bit_nat_eq_self)
  from this [of 1] this [of 3] s assms show ?thesis
    by (simp add: parseVersion_def parse_int_dec)
qed

lemma parse_version_samples:
  "parseVersion ''3.1'' = Inr (3, 1) \<and> parseVersion ''2.0'' = Inl (ErrVersionRange 2) \<and> parseVersion ''3.-1'' = Inr (3, - 1)"
proof -
  have "dec_digits 3 = ''3''" "dec_digits 1 = ''1''" "dec_digits 2 = ''2''" "dec_digits 0 = ''0''"
    by (simp_all add: dec_digits.simps char_of_def) code_simp+
  with parse_version_decimals [of 3 1] parse_version_decimals [of 2 0]
  have "parseVersion ''3.1'' = Inr (3, 1)" "parseVersion ''2.0'' = Inl (ErrVersionRange 2)" by simp_all
  moreover have "parseVersion ''3.-1'' = Inr (3, - 1)"
    by (simp add: parseVersion_def parse_int_def digit_value_def)
  ultimately show ?thesis by simp
qed

section \<open>The scale of sizes\<close>

lemma human_loop_bounds:
  assumes "human_loop x dv ex = (dv', ex')" and "0 < sint x" and "sint dv = 1024 ^ (ex + 1)"
    and "sint x * 1024 ^ (ex + 1) < 2 ^ 63"
  shows "\<exists>j. ex' = ex + j \<and> sint dv' = 1024 ^ (ex' + 1) \<and> 1024 ^ j \<le> sint x \<and> sint x < 1024 ^ (j + 1)"
  using assms
proof (induction x dv ex rule: human_loop.induct)
  case (1 x dv ex)
  show ?case
  proof (cases "1024 \<le> sint x")
    case False
    with "1.prems" show ?thesis by (intro exI [of _ 0]) (simp add: human_loop.simps [of x dv ex])
  next
    case True
    let ?x = "word_of_int (sint x div 1024) :: int64"
    have x: "sint ?x = sint x div 1024" using True sint_less_int64 [of x] by (intro sint_of_int64) simp_all
    have le: "1024 ^ (ex + 2) \<le> sint x * 1024 ^ (ex + 1)" using True by (simp add: mult_right_mono)
    have dv: "sint (dv * 1024) = 1024 ^ (ex + 2)"
    proof -
      have "dv = word_of_int (sint dv)" by (simp only: of_int_sint scast_id)
      then have "dv = word_of_int (1024 ^ (ex + 1))" by (simp only: "1.prems"(3))
      then have "dv * 1024 = word_of_int (1024 ^ (ex + 2))" by simp
      moreover have "(1024 :: int) ^ (ex + 2) < 2 ^ 63" using le "1.prems"(4) by linarith
      moreover have "- (2 ^ 63) \<le> (1024 :: int) ^ (ex + 2)" by (rule order_trans [of _ 0]) simp_all
      ultimately show ?thesis using sint_of_int64 [of "1024 ^ (ex + 2)"] by (simp only:)
    qed
    have "sint x div 1024 * 1024 \<le> sint x" by presburger
    then have "sint x div 1024 * 1024 * 1024 ^ (ex + 1) \<le> sint x * 1024 ^ (ex + 1)"
      by (rule mult_right_mono) simp
    moreover have "sint ?x * 1024 ^ (ex + 1 + 1) = sint x div 1024 * 1024 * 1024 ^ (ex + 1)" using x by simp
    ultimately have "sint ?x * 1024 ^ (ex + 1 + 1) < 2 ^ 63" using "1.prems"(4) by linarith
    moreover from True have "0 < sint x div 1024" by (simp only: pos_imp_zdiv_pos_iff)
    moreover note "1.IH" [OF True]
    ultimately obtain j where j: "ex' = ex + 1 + j" "sint dv' = 1024 ^ (ex' + 1)" "1024 ^ j \<le> sint x div 1024"
      "sint x div 1024 < 1024 ^ (j + 1)"
      using "1.prems"(1) True x dv by (auto simp: human_loop.simps [of x dv ex])
    have "1024 ^ (j + 1) \<le> sint x" "sint x < 1024 ^ (j + 2)" using j(3,4) by simp_all
    with j show ?thesis by (intro exI [of _ "j + 1"]) simp
  qed
qed

text \<open>
  C40: \<open>humanBytes\<close> stays in its table of units. For a size of at least one unit the divisor is a power of 1024
  with \<open>div \<le> n < 1024 * div\<close>, and its exponent is an index into \<open>"KMGTPE"\<close>.
\<close>

theorem human_bytes_in_range:
  assumes "1024 \<le> sint n"
  shows "\<exists>dv ex. humanBytes n = Some (dv, ex) \<and> ex < length ''KMGTPE'' \<and>
    sint dv = 1024 ^ (ex + 1) \<and> sint dv \<le> sint n \<and> sint n < 1024 * sint dv"
proof -
  let ?x = "word_of_int (sint n div 1024) :: int64"
  have x: "sint ?x = sint n div 1024" using assms sint_less_int64 [of n] by (intro sint_of_int64) simp_all
  obtain dv ex where h: "human_loop ?x 1024 0 = (dv, ex)" by (cases "human_loop ?x 1024 0")
  have "sint ?x * 1024 ^ (0 + 1) < 2 ^ 63"
  proof -
    have "sint n div 1024 * 1024 \<le> sint n" by presburger
    with sint_less_int64 [of n] x show ?thesis by simp
  qed
  from human_loop_bounds [OF h _ _ this] assms x obtain j where
    j: "ex = j" "sint dv = 1024 ^ (ex + 1)" "1024 ^ j \<le> sint n div 1024" "sint n div 1024 < 1024 ^ (j + 1)"
    by auto
  have n: "1024 ^ (j + 1) \<le> sint n" "sint n < 1024 ^ (j + 2)" using j(3,4) by simp_all
  have "ex < 6"
  proof (rule ccontr)
    assume "\<not> ex < 6"
    then have "(1024 :: int) ^ 7 \<le> 1024 ^ (j + 1)" using j(1) by (intro power_increasing) simp_all
    with n(1) sint_less_int64 [of n] show False by simp
  qed
  with h n j assms show ?thesis by (simp add: humanBytes_def)
qed

theorem human_bytes_in_range_witness: "\<exists>dv ex. humanBytes 9223372036854775807 = Some (dv, ex) \<and> ex < 6"
proof -
  have "1024 \<le> sint (9223372036854775807 :: int64)" by simp
  from human_bytes_in_range [OF this] show ?thesis by auto
qed

end
