(* ===== verification/CliRuns.thy ===== *)
theory CliRuns
  imports CliCorrect
begin

text \<open>
  The runs of the command: discovery for encryption is discovery for decryption without a filter, a job of the
  encryption batch is \<open>runOne\<close> with \<open>EncryptFile\<close>, and what exit code 0 means in terms of the run.
\<close>

section \<open>Encryption against decryption\<close>

lemma crypt_file_kind:
  "jk_pat jk = jk_pat jk' \<Longrightarrow> jk_run jk i = jk_run jk' i \<Longrightarrow> crypt_file jk i out fs = crypt_file jk' i out fs"
  by (simp add: crypt_file_def split: sum.split option.split prod.split)

lemma runEncryptOne_is_runOne: "runEncryptOne wd fl build u fs = runOne (encrypt_conf wd fl build) u fs"
proof -
  have e: "EncryptFile (wd_lzw wd) (wd_crand wd) (inPath u) (outPath u) (build (inPath u)) fs =
      crypt_file (jc_kind (encrypt_conf wd fl build)) (inPath u) (outPath u) fs"
    unfolding EncryptFile_def by (rule crypt_file_kind) (simp_all add: encrypt_conf_def encrypt_kind_def)
  have s: "skips (encrypt_conf wd fl build) u fs = (f_skipExist fl \<and>
      (case os_Stat fs (outPath u) of Inl e \<Rightarrow> False | Inr st \<Rightarrow> \<not> fi_isdir st))"
    by (simp add: skips_def encrypt_conf_def)
  have p: "jc_preserve (encrypt_conf wd fl build) = f_keepMTime fl" by (simp add: encrypt_conf_def)
  obtain fs1 r where c: "crypt_file (jc_kind (encrypt_conf wd fl build)) (inPath u) (outPath u) fs = (fs1, r)"
    by (cases "crypt_file (jc_kind (encrypt_conf wd fl build)) (inPath u) (outPath u) fs")
  show ?thesis
    unfolding runEncryptOne_def runOne_def e s c
    by (cases r) (simp_all add: after_success_def event_of_def Let_def p split: prod.split)
qed

text \<open>The plans agree: same units, same paths seen, errors for the same inputs.\<close>

definition same_plan :: "plan \<Rightarrow> plan \<Rightarrow> bool" where
  "same_plan pl pl' \<longleftrightarrow> pl_units pl = pl_units pl' \<and> pl_seen pl = pl_seen pl' \<and>
     map beInput (pl_errs pl) = map beInput (pl_errs pl')"

lemma same_plan_error: "same_plan pl pl' \<Longrightarrow> same_plan (plan_error p e pl) (plan_error p e' pl')"
  by (simp add: same_plan_def plan_error_def)

lemma same_plan_push:
  "same_plan pl pl' \<Longrightarrow> same_plan
     (if p \<in> set (pl_seen pl) then pl
      else pl\<lparr>pl_units := pl_units pl @ [\<lparr>inPath = p, outPath = out, usize = sz\<rparr>], pl_seen := p # pl_seen pl\<rparr>)
     (push p out sz pl')"
  by (simp add: same_plan_def push_def)

lemma same_plan_visit:
  assumes "fs_wf fs" and "node_at fs (fs_key fs inp) = Some DirNode" and "v \<in> set (walk_dir fs (fs_key fs inp))"
    and "same_plan pl pl'" and "bOutputDir cfg = outDir" and "bFilter cfg = Some (\<lambda>_ _. True)"
  shows "same_plan (encrypt_visit fs outDir (Clean inp) pl v) (discover_visit fs cfg (Clean inp) pl' v)"
proof -
  obtain ns d e where v: "v = (ns, d, e)" by (cases v)
  show ?thesis
  proof (cases "d \<or> e \<noteq> None")
    case True
    with v assms(4) show ?thesis
      by (auto simp: encrypt_visit_def discover_visit_def Let_def same_plan_error split: option.splits)
  next
    case False
    with v assms(3) have w: "v = (ns, False, None)" "(ns, False, None) \<in> set (walk_dir fs (fs_key fs inp))" by auto
    from walk_dir_file [OF assms(1,2) w(2)] have ns: "list_all plain ns" "ns \<noteq> []" by simp_all
    from Rel_walk [OF ns, of "Clean inp"] same_plan_push [OF assms(4)] assms(4-6) w(1)
    show ?thesis
      by (auto simp: encrypt_visit_def discover_visit_def Let_def filter_of_def same_plan_def push_def plan_error_def split: sum.split)
  qed
qed

lemma same_plan_input:
  assumes "fs_wf fs" and "same_plan pl pl'" and "bOutputDir cfg = outDir" and "bRecursive cfg = r"
    and "bFilter cfg = Some (\<lambda>_ _. True)"
  shows "same_plan (encrypt_input fs outDir r pl inp) (discover_input fs cfg pl' inp)"
proof (cases "os_Stat fs inp")
  case (Inl e)
  with assms(2) show ?thesis by (simp add: encrypt_input_def discover_input_def same_plan_error)
next
  case (Inr fi)
  have "same_plan (foldl (encrypt_visit fs outDir (Clean inp)) pl vs) (foldl (discover_visit fs cfg (Clean inp)) pl' vs)"
    if "set vs \<subseteq> set (walk_dir fs (fs_key fs inp))" "node_at fs (fs_key fs inp) = Some DirNode" for vs
    using that assms(2)
  proof (induction vs arbitrary: pl pl')
    case (Cons v vs)
    with same_plan_visit [OF assms(1) _ _ _ assms(3,5)] show ?case by simp
  qed simp
  with Inr os_Stat_InrD [OF Inr] assms(2-5)
    same_plan_push [OF assms(2), of inp "Join [outDir, Base inp]" "fi_size fi"] show ?thesis
    by (cases "fi_isdir fi")
      (simp_all add: encrypt_input_def discover_input_def same_plan_error filter_of_def del: Join.simps)
qed

text \<open>
  C35: One discovery for both directions. \<open>discoverEncryptUnits\<close> is written apart from \<open>discover\<close>, but finds the same
  units with the same outputs, in the same order, as \<open>discover\<close> with a filter that accepts every file, and
  reports errors for the same paths.
\<close>

theorem encrypt_discovery_is_discovery:
  assumes "fs_wf fs" and "bInputs cfg = inputs" and "bOutputDir cfg = outDir" and "bRecursive cfg = r"
    and "bFilter cfg = Some (\<lambda>_ _. True)"
  shows "pl_units (discoverEncryptUnits fs inputs outDir r) = pl_units (discover fs cfg) \<and>
    map beInput (pl_errs (discoverEncryptUnits fs inputs outDir r)) = map beInput (pl_errs (discover fs cfg))"
proof -
  have "same_plan (foldl (encrypt_input fs outDir r) pl xs) (foldl (discover_input fs cfg) pl' xs)"
    if "same_plan pl pl'" for pl pl' xs
    using that by (induction xs arbitrary: pl pl') (simp_all add: same_plan_input [OF assms(1) _ assms(3-5)])
  from this [of empty_plan empty_plan inputs] show ?thesis
    by (simp add: same_plan_def discoverEncryptUnits_def discover_def assms(2))
qed

theorem encrypt_discovery_is_discovery_witness:
  "pl_units (discoverEncryptUnits sample_tree [''.''] ''out'' True) =
     pl_units (discover sample_tree ((sample_config [''.''])\<lparr>bFilter := Some (\<lambda>_ _. True)\<rparr>))"
  using encrypt_discovery_is_discovery [OF sample_tree_wf, of "(sample_config [''.''])\<lparr>bFilter := Some (\<lambda>_ _. True)\<rparr>"]
  by (simp add: sample_config_def)

section \<open>Exit codes\<close>

text \<open>A batch whose report has nothing failed, and that skips nothing, has done every unit.\<close>

definition no_skips :: "batch \<Rightarrow> bool" where
  "no_skips b \<longleftrightarrow> (\<forall>ev \<in> set (told b). evKind ev \<noteq> EventSkipped) \<and>
     (\<forall>(u, j) \<in> set (bt_running b). \<forall>ev logs. j = JDone ev logs \<longrightarrow> evKind ev \<noteq> EventSkipped)"

lemma job_step_no_skip:
  assumes "job_step jc u (j, fs) = (JDone ev logs, fs')" and "0 < job_rank j" and "\<not> jc_skip jc"
  shows "evKind ev \<noteq> EventSkipped"
proof (cases j)
  case (JFile ph)
  show ?thesis
  proof (cases "\<exists>r. ph = FEnd r")
    case True
    then obtain r where "ph = FEnd r" by blast
    with JFile assms show ?thesis by (cases r) (auto simp: event_of_def split: prod.splits dest!: after_success_event)
  next
    case False
    with JFile assms show ?thesis by (cases ph) (auto split: prod.splits)
  qed
qed (use assms in \<open>auto simp: skips_def split: if_splits\<close>)

lemma no_skips_step: "no_skips b \<Longrightarrow> batch_step jc w b b' \<Longrightarrow> \<not> jc_skip jc \<Longrightarrow> no_skips b'"
  by (erule batch_step.cases) (auto simp: no_skips_def told_def dest: job_step_no_skip)

lemma no_skips_reach:
  assumes "batch_reach jc w (start_batch us errs fs) b" and "\<not> jc_skip jc"
  shows "no_skips b"
proof (rule batch_reach_inv [OF assms(1)])
  show "no_skips (start_batch us errs fs)" by (auto simp: no_skips_def told_def start_batch_def event_of_def)
  show "no_skips b'" if "no_skips b" "batch_step jc w b b'" for b b' using no_skips_step [OF that assms(2)] .
qed

lemma sint_word_of_nat: "n < 2 ^ 63 \<Longrightarrow> sint (word_of_nat n :: int64) = int n"
  using sint_of_int64 [of "int n"] by simp

lemma exit_zero:
  assumes "batch_reach jc w (start_batch us errs fs) b" and "report_code (bt_rep b) = 0"
    and "length us + length errs < 2 ^ 63"
  shows "errs = [] \<and> (\<forall>ev \<in> set (bt_events b). evKind ev \<noteq> EventFailed)"
proof -
  from accounted_reach [OF assms(1)] obtain cs fails evs where k: "books us errs b cs fails evs"
    unfolding accounted_def by blast
  note t = books_totals [OF k]
  have l: "length errs + kinds EventFailed cs < 2 ^ 63" using assms(3) t(6,7) by linarith
  with sint_word_of_nat [OF l] assms(2) have "\<not> 0 < int (length errs + kinds EventFailed cs)"
    by (simp only: report_code_def t(4) split: if_splits) simp
  then have "length errs + kinds EventFailed cs = 0" by linarith
  moreover have "bt_events b = map (\<lambda>u. event_of u EventDiscovered) us @ evs" using k by (simp add: books_def)
  ultimately show ?thesis using t(9) by (auto simp: kinds_def filter_empty_conv event_of_def)
qed

context crypt_job
begin

lemma batch_exit_zero:
  assumes "batch_reach jc w (start_batch us errs fs0) b" and "jc_kind jc = jk" and "batch_ok fs0 jk us"
    and "finished b" and "distinct (map (\<lambda>u. fs_key fs0 (outPath u)) us)" and "u \<in> set us"
    and "\<not> jc_skip jc" and "report_code (bt_rep b) = 0" and "length us + length errs < 2 ^ 63"
  shows "\<exists>src c t. os_Open fs0 (inPath u) = Inr src \<and> spec (inPath u) src c \<and>
    node_at (bt_fs b) (fs_key fs0 (outPath u)) = Some (FileNode c t)"
proof -
  from batch_units_done [OF assms(1-6)] obtain ev where ev: "ev \<in> set (bt_events b)" "terminal ev"
    "evKind ev = EventSucceeded \<longrightarrow> (\<exists>src c t. os_Open fs0 (inPath u) = Inr src \<and> spec (inPath u) src c \<and>
       node_at (bt_fs b) (fs_key fs0 (outPath u)) = Some (FileNode c t))" by blast
  have "evKind ev \<noteq> EventFailed" using exit_zero [OF assms(1,8,9)] ev(1) by blast
  moreover have "evKind ev \<noteq> EventSkipped" using no_skips_reach [OF assms(1,7)] ev(1) by (simp add: no_skips_def told_def)
  moreover have "evKind ev \<noteq> EventDiscovered" using ev(2) by (simp add: terminal_def)
  ultimately show ?thesis using ev(3) by (cases "evKind ev") simp_all
qed

end

section \<open>Progress\<close>

lemma progress_discovered:
  "progress_lines (map (\<lambda>u. event_of u EventDiscovered) us @ evs) (n, d) = progress_lines evs (n + word_of_nat (length us), d)"
  by (induction us arbitrary: n) (simp_all add: report_progress_def event_of_def add.assoc)

lemma progress_terminal:
  "\<forall>ev \<in> set evs. terminal ev \<Longrightarrow>
     progress_lines evs (n, d) = map (\<lambda>i. (d + word_of_nat (Suc i), n)) [0..<length evs]"
proof (induction evs arbitrary: d)
  case (Cons ev evs)
  then have "progress_lines (ev # evs) (n, d) = (d + 1, n) # progress_lines evs (n, d + 1)"
    by (cases "evKind ev") (simp_all add: report_progress_def terminal_def)
  also have "\<dots> = (d + 1, n) # map (\<lambda>i. (d + 1 + word_of_nat (Suc i), n)) [0..<length evs]"
    using Cons by simp
  also have "\<dots> = map (\<lambda>i. (d + word_of_nat (Suc i), n)) (0 # map Suc [0..<length evs])"
    by (simp add: add.assoc)
  also have "0 # map Suc [0..<length evs] = [0..<length (ev # evs)]" by (simp add: map_Suc_upt upt_conv_Cons del: upt_Suc)
  finally show ?case .
qed simp

text \<open>The lines of a run count from 1 to the number of units, and every one shows the number discovered.\<close>

lemma progress_of_run:
  assumes "batch_reach jc w (start_batch us errs fs) b"
  shows "\<exists>k. progress_lines (bt_events b) (0, 0) = map (\<lambda>i. (word_of_nat (Suc i), word_of_nat (length us))) [0..<k] \<and>
    k + length (bt_queue b) + length (bt_running b) + length (concat (map unannounced (bt_closing b))) = length us"
proof -
  from accounted_reach [OF assms] obtain cs fails evs where k: "books us errs b cs fails evs"
    unfolding accounted_def by blast
  note t = books_totals [OF k]
  from k have "mset cs = mset evs + mset (concat (map unannounced (bt_closing b)))" by (simp add: books_def)
  from arg_cong [OF this, where f = size]
  have "length cs = length evs + length (concat (map unannounced (bt_closing b)))" by simp
  with progress_terminal [OF t(8)] t(6) k show ?thesis
    by (intro exI [of _ "length evs"]) (simp add: books_def progress_discovered)
qed

section \<open>Every command ends\<close>

lemma Batch_total: "0 < procs \<Longrightarrow> \<exists>rep fs'. Batch lzr procs cfg fs rep fs'"
proof (cases "config_error cfg")
  case None
  assume "0 < procs"
  then have "0 < worker_count procs (bConcurrency cfg)" by (simp add: worker_count_def)
  from batch_finishes [OF this] None show ?thesis by (fastforce simp: Batch_def)
qed (simp add: Batch_def)

lemma runEncryptBatch_total: "0 < wd_procs wd \<Longrightarrow> \<exists>rep fs'. runEncryptBatch wd fl build fs rep fs'"
proof -
  assume "0 < wd_procs wd"
  then have "0 < worker_count (wd_procs wd) (f_jobs fl)" by (simp add: worker_count_def)
  from batch_finishes [OF this] show ?thesis by (fastforce simp: runEncryptBatch_def)
qed

text \<open>Every run is one of: an exit before anything is done, a single file, a batch.\<close>

lemma runDecrypt_total:
  assumes "0 < wd_procs wd"
  shows "\<exists>out fs'. runDecrypt wd fl fs out fs'"
proof (cases "loadDecryptSecrets (wd_pem wd) fs (f_pwFile fl) (f_pwInline fl) (f_pkPEM fl) (f_pkPass fl)")
  case (Inl e)
  then show ?thesis by (simp add: runDecrypt_def)
next
  case (Inr s)
  obtain pw key where "s = (pw, key)" by (cases s)
  with Inr show ?thesis
    using Batch_total [OF assms, of "wd_lzr wd" "decrypt_config fl pw key" fs]
    by (cases "DecryptFile (wd_lzr wd) (hd (f_inputs fl)) (f_outFile fl) \<lparr>oPassword = pw, oPrivateKey = key\<rparr> fs")
      (auto simp: runDecrypt_def)
qed

lemma runEncrypt_total:
  assumes "0 < wd_procs wd"
  shows "\<exists>out fs'. runEncrypt wd fl fs out fs'"
proof (cases "loadEncryptSecrets (wd_pem wd) fs (f_pwFile fl) (f_pwInline fl) (f_pubPEM fl)")
  case (Inl e)
  then show ?thesis by (simp add: runEncrypt_def)
next
  case (Inr s)
  obtain pw pub where s: "s = (pw, pub)" by (cases s)
  show ?thesis
  proof (cases "parseVersion (f_version fl)")
    case (Inl e)
    with Inr s show ?thesis by (auto simp: runEncrypt_def)
  next
    case (Inr v)
    obtain maj mnr where "v = (maj, mnr)" by (cases v)
    with Inr s \<open>loadEncryptSecrets _ _ _ _ _ = _\<close> show ?thesis
      using runEncryptBatch_total [OF assms, of fl "buildOpts pw pub maj mnr (f_compress fl)" fs]
      by (cases "EncryptFile (wd_lzw wd) (wd_crand wd) (hd (f_inputs fl)) (f_outFile fl)
          (buildOpts pw pub maj mnr (f_compress fl) (hd (f_inputs fl))) fs")
        (auto simp: runEncrypt_def Let_def)
  qed
qed

lemma cli_total: "0 < wd_procs wd \<Longrightarrow> \<exists>out fs'. cli_main wd fl fs out fs'"
  using runDecrypt_total [of wd fl fs] runEncrypt_total [of wd fl fs]
  by (cases "f_inputs fl = []"; cases "f_inspect fl"; cases "output_flags fl"; cases "f_encrypt fl")
    (auto simp: cli_main_def)

text \<open>The name a file is given by \<open>buildOpts\<close> is never empty.\<close>

lemma default_filename_build: "default_filename p (buildOpts pw pub maj mnr cm p) = buildOpts pw pub maj mnr cm p"
  using Base_cases [of p] by (auto simp: default_filename_def buildOpts_def)

end
