(* ===== verification/CliExit.thy ===== *)
theory CliExit
  imports CliRuns
begin

text \<open>
  What the exit codes of the command promise about the file system, for every schedule of the batch behind
  them; before it, a sample command line that ends with exit code 0 in both directions.
\<close>

section \<open>A sample command\<close>

lemma one_unit_run:
  assumes "crypt_file (jc_kind jc) (inPath u) (outPath u) fs = (fs1, None)" and "\<not> jc_skip jc" and "0 < w"
  shows "\<exists>b. batch_reach jc w (start_batch [u] [] fs) b \<and> finished b \<and> report_code (bt_rep b) = 0"
proof -
  let ?b = "start_batch [u] [] fs"
  obtain fs2 ev logs where r: "after_success jc u fs1 = (fs2, ev, logs)" by (cases "after_success jc u fs1")
  with assms(1,2) have "runOne jc u fs = (fs2, ev, logs)" by (simp add: runOne_def skips_def)
  moreover from after_success_event [OF r] have "evKind ev = EventSucceeded" by (auto simp: event_of_def)
  ultimately have "finished (run_unit jc ?b u) \<and> report_code (bt_rep (run_unit jc ?b u)) = 0"
    by (simp add: run_unit_def close_job_def finished_def report_code_def count_event_def record_error_def
        start_batch_def empty_report_def)
  moreover have "batch_reach jc w ?b (run_unit jc ?b u)"
    using run_unit_reach [of w ?b u "[]"] assms(3) by (simp add: start_batch_def)
  ultimately show ?thesis by blast
qed

definition sample_world :: "(byte option, unit) world" where
  "sample_world =
     \<lparr>wd_lzr = frame_reader, wd_lzw = frame_writer,
      wd_pem = \<lparr>pem_Decode = (\<lambda>_. None), x509_IsEncryptedPEMBlock = (\<lambda>_. False),
        x509_DecryptPEMBlock = (\<lambda>_ b. Inr b), x509_ParsePKCS1PrivateKey = (\<lambda>_. Inl ErrNoPemBlock),
        x509_ParsePKCS8PrivateKey = (\<lambda>_. Inr None), x509_ParsePKIXPublicKey = (\<lambda>_. Inr None),
        x509_ParsePKCS1PublicKey = (\<lambda>_. Inl ErrNoPemBlock)\<rparr>,
      wd_crand = (\<lambda>_. reader_of (map word_of_nat [0..<70])), wd_procs = 2\<rparr>"

definition sample_flags :: "bool \<Rightarrow> flags" where
  "sample_flags enc =
     \<lparr>f_encrypt = enc, f_inspect = False, f_pwFile = [], f_pwInline = ''secret'', f_pkPEM = [], f_pkPass = [],
      f_pubPEM = [], f_outDir = ''out'', f_outFile = [], f_recursive = False, f_jobs = 0, f_skipExist = False,
      f_keepMTime = True, f_version = ''3.1'', f_compress = False, f_inputs = [''in'']\<rparr>"

definition sample_unit :: "bytes \<Rightarrow> job_unit" where
  "sample_unit c = \<lparr>inPath = ''in'', outPath = ''out/in'', usize = word_of_nat (length c)\<rparr>"

lemma sample_out: "Base ''in'' = ''in''" "Join [''out'', ''in''] = ''out/in''" "Dir ''out/in'' = ''out''"
  "Base ''out/in'' = ''in''" "upto_slash ''out/in'' = ''out/''"
  by code_simp+

lemma cmd_out_keys: "fs_key (sample_fs c) ''out/in'' = [''out'', ''in'']" "fs_key (sample_fs c) ''out'' = [''out'']"
  by (simp_all add: fs_key_def rooted_def push_elem_def)

lemma sample_Stat: "\<exists>fi. os_Stat (sample_fs c) ''in'' = Inr fi \<and> \<not> fi_isdir fi \<and> fi_size fi = word_of_nat (length c)"
  using sample_calm [of c] by (simp add: os_Stat_def calm_def sample_keys sample_nodes)

lemma sample_crypt:
  assumes "jk_run jk ''in'' (reader_of c) new_sink = (s, None)" and "2 < length (jk_pat jk)"
  shows "\<exists>fs1. crypt_file jk ''in'' ''out/in'' (sample_fs c) = (fs1, None)" and "batch_ok (sample_fs c) jk [sample_unit c]"
proof -
  have nt: "\<not> temp_name jk [''out'', ''in'']" "\<not> temp_name jk [''in'']"
    using assms(2) by (simp_all add: not_temp_name)
  have src: "os_Open (sample_fs c) ''in'' = Inr (reader_of c)"
    using calm_Open [OF sample_calm, of "''in''" c c 7] by (simp add: sample_nodes sample_keys)
  have "out_ok (sample_fs c) ''out/in''"
    by (simp add: out_ok_def sample_out cmd_out_keys sample_nodes plain_def elem_ok_def)
  moreover have "name_free jk ''out/in'' (sample_fs c)"
    by (simp add: name_free_def sample_out cmd_out_keys sample_nodes)
  ultimately show "\<exists>fs1. crypt_file jk ''in'' ''out/in'' (sample_fs c) = (fs1, None)"
    using crypt_file_succeeds [OF sample_calm src assms(1) _ _ _ sample_wf, of "''out/in''"] nt by (auto simp: cmd_out_keys)
  show "batch_ok (sample_fs c) jk [sample_unit c]"
    using nt by (simp add: batch_ok_def sample_unit_def sample_keys cmd_out_keys sample_nodes)
qed


lemma sample_cmd:
  "loadEncryptSecrets (wd_pem sample_world) fs (f_pwFile (sample_flags enc)) (f_pwInline (sample_flags enc))
     (f_pubPEM (sample_flags enc)) = Inr (Some (bytes_of_string ''secret''), None)"
  "loadDecryptSecrets (wd_pem sample_world) fs (f_pwFile (sample_flags enc)) (f_pwInline (sample_flags enc))
     (f_pkPEM (sample_flags enc)) (f_pkPass (sample_flags enc)) = Inr (Some (bytes_of_string ''secret''), None)"
  "parseVersion (f_version (sample_flags enc)) = Inr (3, 1)"
  "discoverEncryptUnits (sample_fs c) (f_inputs (sample_flags enc)) (f_outDir (sample_flags enc)) (f_recursive (sample_flags enc)) =
     \<lparr>pl_units = [sample_unit c], pl_errs = [], pl_seen = [''in'']\<rparr>"
  using sample_Stat [of c]
  by (auto simp: loadEncryptSecrets_def loadDecryptSecrets_def load_password_def sample_flags_def parseVersion_def
      parse_int_def digit_value_def discoverEncryptUnits_def encrypt_input_def empty_plan_def sample_out sample_unit_def
      simp del: Join.simps)

definition sample_build :: "path \<Rightarrow> EncryptOptions" where
  "sample_build = buildOpts (Some (bytes_of_string ''secret'')) None 3 1 False"

lemma sample_build_ok: "length (Base p) \<le> 65535 \<Longrightarrow> opts_encodable (sample_build p)"
  by (simp add: opts_encodable_def sample_build_def buildOpts_def opt_major_def opt_minor_def key_usable_def)

lemma sample_build_Encrypt:
  "\<exists>enc. Encrypt frame_writer (wd_crand sample_world ''in'') (copy_reads c) ErrEOF new_sink (sample_build ''in'') = (enc, None)"
proof -
  have "opts_encodable (sample_build ''in'')" using sample_build_ok [of "''in''"] by (simp add: sample_out)
  moreover have "70 \<le> length (rest (opt_rand (wd_crand sample_world ''in'') (sample_build ''in'')))"
    by (simp add: opt_rand_def sample_build_def buildOpts_def sample_world_def)
  ultimately obtain m sk where "prepared (wd_crand sample_world ''in'') (sample_build ''in'') m sk"
    using prepared_total by blast
  from Encrypt_succeeds [OF _ _ _ this, of new_sink frame_writer "copy_reads c"] sample_build_ok [of "''in''"]
  show ?thesis by (simp add: opts_encodable_def sample_out)
qed

lemma sample_encrypt_run:
  "\<exists>out fs1. cli_main sample_world (sample_flags True) (sample_fs c) out fs1 \<and> exit_code out = 0"
  "batch_ok (sample_fs c) (encrypt_kind (wd_lzw sample_world) (wd_crand sample_world) sample_build) [sample_unit c]"
proof -
  let ?ek = "encrypt_kind (wd_lzw sample_world) (wd_crand sample_world) sample_build"
  have d: "default_filename ''in'' (sample_build ''in'') = sample_build ''in''"
    unfolding sample_build_def by (rule default_filename_build)
  from sample_build_Encrypt [of c] obtain enc where
    "jk_run ?ek ''in'' (reader_of c) new_sink = (enc, None)"
    by (auto simp: encrypt_kind_def d) (simp add: sample_world_def)
  note r = sample_crypt [OF this]
  from r(2) show "batch_ok (sample_fs c) ?ek [sample_unit c]" by simp
  from r(1) obtain fs1 where "crypt_file ?ek ''in'' ''out/in'' (sample_fs c) = (fs1, None)" by auto
  then have "\<exists>b. batch_reach (encrypt_conf sample_world (sample_flags True) sample_build) 2
      (start_batch [sample_unit c] [] (sample_fs c)) b \<and> finished b \<and> report_code (bt_rep b) = 0"
    by (intro one_unit_run) (simp_all add: sample_unit_def encrypt_conf_def sample_flags_def)
  then obtain b where b: "batch_reach (encrypt_conf sample_world (sample_flags True) sample_build) 2
      (start_batch [sample_unit c] [] (sample_fs c)) b" "finished b" "report_code (bt_rep b) = 0" by blast
  have w: "worker_count (wd_procs sample_world) (f_jobs (sample_flags True)) = 2"
    by (simp add: worker_count_def sample_world_def sample_flags_def)
  have "runEncryptBatch sample_world (sample_flags True) sample_build (sample_fs c) (bt_rep b) (bt_fs b)"
    using b by (auto simp: runEncryptBatch_def encrypt_start_def sample_cmd w)
  with b(3) have "runEncrypt sample_world (sample_flags True) (sample_fs c) (Reported (bt_rep b)) (bt_fs b)"
    unfolding runEncrypt_def sample_cmd by (auto simp: sample_flags_def sample_build_def Let_def)
  then have "cli_main sample_world (sample_flags True) (sample_fs c) (Reported (bt_rep b)) (bt_fs b)"
    by (simp add: cli_main_def sample_flags_def output_flags_def)
  with b(3) show "\<exists>out fs1. cli_main sample_world (sample_flags True) (sample_fs c) out fs1 \<and> exit_code out = 0"
    by (intro exI [of _ "Reported (bt_rep b)"] exI [of _ "bt_fs b"]) simp
qed


lemma sample_discover:
  assumes "IsCsencContent (reader_of c) = Inr True"
  shows "discover (sample_fs c) (decrypt_config (sample_flags False) pw key) =
    \<lparr>pl_units = [sample_unit c], pl_errs = [], pl_seen = [''in'']\<rparr>"
proof -
  have "os_Open (sample_fs c) ''in'' = Inr (reader_of c)"
    using calm_Open [OF sample_calm, of "''in''" c c 7] by (simp add: sample_nodes sample_keys)
  with assms have "defaultCsencFilter (sample_fs c) ''in'' fi" for fi
    by (simp add: defaultCsencFilter_def IsCsencFile_def)
  with sample_Stat [of c] show ?thesis
    by (auto simp: discover_def discover_input_def decrypt_config_def sample_flags_def filter_of_def push_def
        empty_plan_def sample_unit_def sample_out simp del: Join.simps)
qed

lemma sample_decrypt_run:
  "\<exists>c out fs1. IsCsencContent (reader_of c) = Inr True \<and> cli_main sample_world (sample_flags False) (sample_fs c) out fs1 \<and>
     exit_code out = 0 \<and>
     batch_ok (sample_fs c) (decrypt_kind (wd_lzr sample_world) sample_secret) [sample_unit c]"
proof -
  let ?dk = "decrypt_kind (wd_lzr sample_world) sample_secret"
  obtain c st where ic: "IsCsencContent (reader_of c) = Inr True"
    and "Decrypt frame_reader (reader_of c) new_sink sample_secret = (st, None)" using sample_stream by blast
  then have "jk_run ?dk ''in'' (reader_of c) new_sink = (dec_out st, None)"
    by (simp add: decrypt_kind_def sample_world_def)
  note r = sample_crypt [OF this]
  from r(1) obtain fs1 where "crypt_file ?dk ''in'' ''out/in'' (sample_fs c) = (fs1, None)" by auto
  then have "\<exists>b. batch_reach (decrypt_conf (wd_lzr sample_world) (decrypt_config (sample_flags False) (Some (bytes_of_string ''secret'')) None)) 2
      (start_batch [sample_unit c] [] (sample_fs c)) b \<and> finished b \<and> report_code (bt_rep b) = 0"
    by (intro one_unit_run)
      (simp_all add: sample_unit_def decrypt_conf_def decrypt_config_def sample_flags_def sample_secret_def)
  then obtain b where b: "batch_reach (decrypt_conf (wd_lzr sample_world) (decrypt_config (sample_flags False) (Some (bytes_of_string ''secret'')) None)) 2
      (start_batch [sample_unit c] [] (sample_fs c)) b" "finished b" "report_code (bt_rep b) = 0" by blast
  have "worker_count (wd_procs sample_world) (bConcurrency (decrypt_config (sample_flags False) pw key)) = 2" for pw key
    by (simp add: worker_count_def sample_world_def sample_flags_def decrypt_config_def)
  moreover have "config_error (decrypt_config (sample_flags False) (Some pw) key) = None" for pw key
    by (simp add: config_error_def decrypt_config_def sample_flags_def)
  ultimately have "Batch (wd_lzr sample_world) (wd_procs sample_world)
      (decrypt_config (sample_flags False) (Some (bytes_of_string ''secret'')) None) (sample_fs c) (bt_rep b) (bt_fs b)"
    using b by (auto simp: Batch_def batch_start_def sample_discover [OF ic])
  with b(3) have "runDecrypt sample_world (sample_flags False) (sample_fs c) (Reported (bt_rep b)) (bt_fs b)"
    unfolding runDecrypt_def sample_cmd by (auto simp: sample_flags_def)
  then have "cli_main sample_world (sample_flags False) (sample_fs c) (Reported (bt_rep b)) (bt_fs b)"
    by (simp add: cli_main_def sample_flags_def output_flags_def)
  with ic r(2) b(3) show ?thesis by (intro exI [of _ c] exI [of _ "Reported (bt_rep b)"] exI [of _ "bt_fs b"]) simp
qed

section \<open>Properties\<close>

text \<open>
  C34: Two commands and a third. After \<open>-encrypt -o\<close> has ended with exit code 0, \<open>-inspect\<close> of its output prints, whatever
  its other flags, the version that was asked for and the base name of the input; and \<open>-o\<close> with the fitting secret
  ends with exit code 0 and a file that holds the bytes of the input.
\<close>

theorem cli_single_file_round_trip:
  assumes "cli_main wd fl fs out fs1" and "exit_code out = 0" and "f_encrypt fl" and "\<not> f_inspect fl"
    and "f_inputs fl = [i]" and "f_outFile fl = enc" and "i \<noteq> []" and "enc \<noteq> []"
    and "calm fs" and "fs_wf fs" and "node_at fs (fs_key fs i) = Some (FileNode c t)"
    and "loadEncryptSecrets (wd_pem wd) fs (f_pwFile fl) (f_pwInline fl) (f_pubPEM fl) = Inr (pw, pub)"
    and "parseVersion (f_version fl) = Inr (maj, mnr)" and "buildOpts pw pub maj mnr (f_compress fl) i = opts"
    and "\<not> temp_name (encrypt_kind (wd_lzw wd) (wd_crand wd) (\<lambda>_. opts)) (fs_key fs enc)"
    and "\<not> f_encrypt fl'" and "\<not> f_inspect fl'" and "f_inputs fl' = [enc]" and "f_outFile fl' = dec" and "\<not> f_recursive fl'"
    and "loadDecryptSecrets (wd_pem wd) fs1 (f_pwFile fl') (f_pwInline fl') (f_pkPEM fl') (f_pkPass fl') = Inr (pw', key)"
    and "secret_fits opts pw' key" and "codec_ok (wd_lzw wd) (wd_lzr wd) opts"
    and "\<not> full_chunks (wd_lzw wd) opts (copy_reads c)" and "out_ok fs1 dec"
    and "name_free (decrypt_kind (wd_lzr wd) \<lparr>oPassword = pw', oPrivateKey = key\<rparr>) dec fs1"
    and "\<not> temp_name (decrypt_kind (wd_lzr wd) \<lparr>oPassword = pw', oPrivateKey = key\<rparr>) (fs_key fs1 dec)"
  shows "out = Converted i enc \<and>
    (\<exists>m. mMajor m = maj \<and> mMinor m = mnr \<and> mFilename m = Base i \<and>
       (\<forall>fi. f_inspect fi \<and> f_inputs fi = [enc] \<longrightarrow>
          (\<forall>o2 fs2. cli_main wd fi fs1 o2 fs2 \<longleftrightarrow> o2 = Inspected [Shown enc m] \<and> fs2 = fs1))) \<and>
    (\<exists>fs2 t'. (\<forall>o2 fs'. cli_main wd fl' fs1 o2 fs' \<longleftrightarrow> o2 = Converted enc dec \<and> fs' = fs2) \<and>
       node_at fs2 (fs_key fs1 dec) = Some (FileNode c t'))"
proof -
  from assms(1-8,12-14) have E: "EncryptFile (wd_lzw wd) (wd_crand wd) i enc opts fs = (fs1, None)" "out = Converted i enc"
    by (auto simp: cli_main_def runEncrypt_def file_output_def Let_def split: option.splits if_splits prod.splits)
  have d: "default_filename i opts = opts" unfolding assms(14) [symmetric] by (rule default_filename_build)
  have v: "opt_major opts = maj" "opt_minor opts = mnr" "eFilename opts = Base i"
    using assms(13) unfolding assms(14) [symmetric]
    by (auto simp: buildOpts_def opt_major_def opt_minor_def parseVersion_def split: option.splits sum.splits if_splits)
  then have "(if eFilename opts = [] then Base i else eFilename opts) = Base i" by simp
  with InspectFile_made [OF E(1) assms(9,7,8,11,15)] v(1,2) obtain m where m: "InspectFile fs1 enc = Inr m" "mMajor m = maj"
    "mMinor m = mnr" "mFilename m = Base i" by metis
  from EncryptFile_made [OF E(1) assms(9,7,11,15)] obtain s :: sink where
    s: "node_at fs1 (fs_key fs enc) = Some (FileNode (written s) (fs_clock fs))" "fs_conf fs1 = fs_conf fs" by blast
  have "\<exists>fi. os_Stat fs1 enc = Inr fi \<and> \<not> fi_isdir fi"
    using s fs_confD(6) [OF s(2)] calm_conf [OF s(2) assms(9)] assms(8) by (simp add: os_Stat_def calm_def)
  with m(1) have "runInspect fs1 [enc] r = [Shown enc m]" for r
    by (auto simp: runInspect_def inspect_input_def inspect_visit_def)
  then have I: "cli_main wd fi fs1 o2 fs2 \<longleftrightarrow> o2 = Inspected [Shown enc m] \<and> fs2 = fs1"
    if "f_inspect fi" "f_inputs fi = [enc]" for fi o2 fs2 using that by (simp add: cli_main_def)
  from DecryptFile_made [OF E(1) assms(9,10,7,8,11,15) _ assms(23,24,25), of "\<lparr>oPassword = pw', oPrivateKey = key\<rparr>"]
    assms(22,26,27) obtain fs2 t' where
    D: "DecryptFile (wd_lzr wd) enc dec \<lparr>oPassword = pw', oPrivateKey = key\<rparr> fs1 = (fs2, None)"
      "node_at fs2 (fs_key fs1 dec) = Some (FileNode c t')" by (auto simp: d)
  have "pw' \<noteq> None \<or> key \<noteq> None" using assms(22) by (auto simp: secret_fits_def split: if_splits)
  moreover have "dec \<noteq> []" using assms(25) by (auto simp: out_ok_def upto_slash_def Base_def plain_def elem_ok_def)
  ultimately have "cli_main wd fl' fs1 o2 fs' \<longleftrightarrow> o2 = Converted enc dec \<and> fs' = fs2" for o2 fs'
    using assms(16-21) D(1) by (auto simp: cli_main_def runDecrypt_def output_flags_def file_output_def)
  with E(2) m(2-4) I D(2) show ?thesis by blast
qed

theorem cli_single_file_round_trip_witness:
  "\<exists>fs1 fs2 m t. cli_main sample_world (sample_flags True\<lparr>f_outFile := ''e''\<rparr>) (sample_fs [65]) (Converted ''in'' ''e'') fs1 \<and>
     cli_main sample_world (sample_flags False\<lparr>f_inspect := True, f_inputs := [''e'']\<rparr>) fs1 (Inspected [Shown ''e'' m]) fs1 \<and>
     mFilename m = ''in'' \<and> mMajor m = 3 \<and> mMinor m = 1 \<and>
     cli_main sample_world (sample_flags False\<lparr>f_outFile := ''d/o'', f_inputs := [''e'']\<rparr>) fs1 (Converted ''e'' ''d/o'') fs2 \<and>
     node_at fs2 [''d'', ''o''] = Some (FileNode [65] t)"
proof -
  let ?fl = "sample_flags True\<lparr>f_outFile := ''e''\<rparr>" and ?fd = "sample_flags False\<lparr>f_outFile := ''d/o'', f_inputs := [''e'']\<rparr>"
    and ?fi = "sample_flags False\<lparr>f_inspect := True, f_inputs := [''e'']\<rparr>" and ?opts = "sample_build ''in''"
  have d: "default_filename ''in'' ?opts = ?opts" unfolding sample_build_def by (rule default_filename_build)
  from sample_build_Encrypt obtain enc where
    "Encrypt frame_writer (wd_crand sample_world ''in'') (copy_reads [65]) ErrEOF new_sink (default_filename ''in'' ?opts) = (enc, None)"
    unfolding d by blast
  from sample_encrypts [where crand = "wd_crand sample_world", OF this] obtain fs1 where
    e: "EncryptFile frame_writer (wd_crand sample_world) ''in'' ''e'' ?opts (sample_fs [65]) = (fs1, None)"
    and rand: "fs_rand fs1 = [2, 3, 4]" by blast
  note a = sample_encrypted [OF e rand]
  have fl [simp]: "f_inputs (sample_flags b) = [''in'']" "\<not> f_inspect (sample_flags b)" "f_encrypt (sample_flags b) = b"
    "\<not> f_recursive (sample_flags b)" "\<not> f_compress (sample_flags b)" for b by (simp_all add: sample_flags_def)
  have w [simp]: "wd_lzw sample_world = frame_writer" "wd_lzr sample_world = frame_reader" by (simp_all add: sample_world_def)
  have b: "buildOpts (Some (bytes_of_string ''secret'')) None 3 1 False ''in'' = ?opts" by (simp add: sample_build_def)
  have r: "cli_main sample_world ?fl (sample_fs [65]) (Converted ''in'' ''e'') fs1"
    by (simp add: cli_main_def runEncrypt_def sample_cmd output_flags_def file_output_def b e)
  have fits: "secret_fits ?opts (Some (bytes_of_string ''secret'')) None" "codec_ok frame_writer frame_reader ?opts"
    "\<not> full_chunks frame_writer ?opts (copy_reads [65])"
    by (simp_all add: secret_fits_def sample_build_def buildOpts_def codec_ok_def full_chunks_def compressOn_def)
  have ok: "out_ok fs1 ''d/o''" "fs_key fs1 ''d/o'' = [''d'', ''o'']"
    "name_free (decrypt_kind frame_reader sample_secret) ''d/o'' fs1"
    "\<not> temp_name (decrypt_kind frame_reader sample_secret) (fs_key fs1 ''d/o'')"
    using a(2,3) a(4,5) [of frame_reader sample_secret] by (simp_all add: sample_keys)
  have src: "node_at (sample_fs [65]) (fs_key (sample_fs [65]) ''in'') = Some (FileNode [65] 7)"
    by (simp add: sample_keys sample_nodes)
  have "Base ''in'' = ''in''" by code_simp
  with cli_single_file_round_trip [OF r _ _ _ _ _ _ _ sample_calm sample_wf src, of "''e''" "Some (bytes_of_string ''secret'')" None 3 1
      ?opts ?fd "''d/o''" "Some (bytes_of_string ''secret'')" None] a(1) fits ok r
  show ?thesis by (auto simp: sample_cmd b sample_secret_def dest: spec [of _ ?fi])
qed

text \<open>
  C28: Exit code 0 of a decryption batch. When nothing is skipped and the outputs are different files, exit code
  0 means that the discovery met no error and that every unit's output holds the plaintext of its input.
\<close>

theorem cli_decrypt_exit_zero:
  assumes "cli_main wd fl fs out fs'" and "exit_code out = 0" and "\<not> f_inspect fl" and "\<not> f_encrypt fl" and "f_outFile fl = []"
    and "\<not> f_skipExist fl"
    and "loadDecryptSecrets (wd_pem wd) fs (f_pwFile fl) (f_pwInline fl) (f_pkPEM fl) (f_pkPass fl) = Inr (pw, key)"
    and "discover fs (decrypt_config fl pw key) = pl" and "length (pl_units pl) + length (pl_errs pl) < 2 ^ 63"
    and "batch_ok fs (decrypt_kind (wd_lzr wd) \<lparr>oPassword = pw, oPrivateKey = key\<rparr>) (pl_units pl)"
    and "distinct (map (\<lambda>u. fs_key fs (outPath u)) (pl_units pl))"
  shows "pl_errs pl = [] \<and> (\<forall>u \<in> set (pl_units pl). \<exists>src c t. os_Open fs (inPath u) = Inr src \<and>
    genuine (wd_lzr wd) \<lparr>oPassword = pw, oPrivateKey = key\<rparr> src c \<and>
    node_at fs' (fs_key fs (outPath u)) = Some (FileNode c t))"
proof -
  let ?cfg = "decrypt_config fl pw key" and ?opt = "\<lparr>oPassword = pw, oPrivateKey = key\<rparr>"
  from assms(1-7) obtain rep where "Batch (wd_lzr wd) (wd_procs wd) ?cfg fs rep fs'" "report_code rep = 0"
    by (auto simp: cli_main_def runDecrypt_def split: option.splits if_splits)
  then obtain b where b: "batch_reach (decrypt_conf (wd_lzr wd) ?cfg)
      (worker_count (wd_procs wd) (bConcurrency ?cfg)) (start_batch (pl_units pl) (pl_errs pl) fs) b"
    "finished b" "fs' = bt_fs b" "report_code (bt_rep b) = 0"
    by (auto simp: Batch_def batch_start_def assms(8) report_code_def split: option.splits if_splits)
  have jc: "jc_kind (decrypt_conf (wd_lzr wd) ?cfg) = decrypt_kind (wd_lzr wd) ?opt"
    "\<not> jc_skip (decrypt_conf (wd_lzr wd) ?cfg)"
    using assms(6) by (simp_all add: decrypt_conf_def decrypt_config_def)
  from decj.batch_exit_zero [OF b(1) jc(1) assms(10) b(2) assms(11) _ jc(2) b(4) assms(9)] exit_zero [OF b(1,4) assms(9)]
  show ?thesis by (simp add: b(3))
qed

theorem cli_decrypt_exit_zero_witness:
  "\<exists>c out fs1 x t. cli_main sample_world (sample_flags False) (sample_fs c) out fs1 \<and> exit_code out = 0 \<and>
     genuine frame_reader sample_secret (reader_of c) x \<and> node_at fs1 [''out'', ''in''] = Some (FileNode x t)"
proof -
  obtain c out fs1 where c: "IsCsencContent (reader_of c) = Inr True"
    and r: "cli_main sample_world (sample_flags False) (sample_fs c) out fs1" "exit_code out = 0"
    and ok: "batch_ok (sample_fs c) (decrypt_kind (wd_lzr sample_world) sample_secret) [sample_unit c]"
    using sample_decrypt_run by blast
  have fl: "\<not> f_inspect (sample_flags False)" "\<not> f_encrypt (sample_flags False)" "f_outFile (sample_flags False) = []"
    "\<not> f_skipExist (sample_flags False)" by (simp_all add: sample_flags_def)
  have op: "os_Open (sample_fs c) ''in'' = Inr (reader_of c)"
    using calm_Open [OF sample_calm, of "''in''" c c 7] by (simp add: sample_nodes sample_keys)
  from cli_decrypt_exit_zero [OF r fl sample_cmd(2) sample_discover [OF c]] ok op
  have "\<exists>x t. genuine frame_reader sample_secret (reader_of c) x \<and> node_at fs1 [''out'', ''in''] = Some (FileNode x t)"
    by (auto simp: sample_secret_def sample_unit_def cmd_out_keys sample_world_def)
  with r show ?thesis by blast
qed

text \<open>
  C29: Exit code 0 of an encryption batch, up to decryption. When nothing is skipped and the outputs are
  different files, exit code 0 means that every unit has an output that \<open>Decrypt\<close> with the fitting secret
  turns back into the bytes of its input (when the frame does not end with a full data chunk).
\<close>

theorem cli_encrypt_exit_zero:
  assumes "cli_main wd fl fs out fs'" and "exit_code out = 0" and "\<not> f_inspect fl" and "f_encrypt fl" and "f_outFile fl = []"
    and "\<not> f_skipExist fl"
    and "loadEncryptSecrets (wd_pem wd) fs (f_pwFile fl) (f_pwInline fl) (f_pubPEM fl) = Inr (pw, pub)"
    and "parseVersion (f_version fl) = Inr (maj, mnr)" and "buildOpts pw pub maj mnr (f_compress fl) = build"
    and "discoverEncryptUnits fs (f_inputs fl) (f_outDir fl) (f_recursive fl) = pl"
    and "length (pl_units pl) + length (pl_errs pl) < 2 ^ 63"
    and "batch_ok fs (encrypt_kind (wd_lzw wd) (wd_crand wd) build) (pl_units pl)"
    and "distinct (map (\<lambda>u. fs_key fs (outPath u)) (pl_units pl))" and "u \<in> set (pl_units pl)"
    and "os_Open fs (inPath u) = Inr src" and "secret_fits (build (inPath u)) (oPassword opt) (oPrivateKey opt)"
    and "codec_ok (wd_lzw wd) lzr (build (inPath u))"
    and "\<not> full_chunks (wd_lzw wd) (build (inPath u)) (copy_reads (rest src))"
  shows "\<exists>c t st. node_at fs' (fs_key fs (outPath u)) = Some (FileNode c t) \<and>
    Decrypt lzr (reader_of c) new_sink opt = (st, None) \<and> written (dec_out st) = rest src"
proof -
  from assms(1-9) obtain rep where "runEncryptBatch wd fl build fs rep fs'" "report_code rep = 0"
    by (auto simp: cli_main_def runEncrypt_def Let_def split: option.splits if_splits)
  then obtain b where b: "batch_reach (encrypt_conf wd fl build)
      (worker_count (wd_procs wd) (f_jobs fl)) (start_batch (pl_units pl) (pl_errs pl) fs) b"
    "finished b" "fs' = bt_fs b" "report_code (bt_rep b) = 0"
    by (auto simp: runEncryptBatch_def encrypt_start_def Let_def assms(10))
  have jc: "jc_kind (encrypt_conf wd fl build) = encrypt_kind (wd_lzw wd) (wd_crand wd) build"
    "\<not> jc_skip (encrypt_conf wd fl build)"
    using assms(6) by (simp_all add: encrypt_conf_def)
  have d: "default_filename p (build p) = build p" for p
    unfolding assms(9) [symmetric] by (rule default_filename_build)
  from encj.batch_exit_zero [OF b(1) jc(1) assms(12) b(2) assms(13,14) jc(2) b(4) assms(11)] assms(15) d
  obtain c t where c: "encrypted (wd_lzw wd) (wd_crand wd (inPath u)) (build (inPath u)) src c"
    "node_at fs' (fs_key fs (outPath u)) = Some (FileNode c t)" by (auto simp: b(3))
  from encrypted_decrypts [OF c(1) assms(16-18), of new_sink] c(2) show ?thesis by auto
qed

theorem cli_encrypt_exit_zero_witness:
  "\<exists>out fs1 c t st. cli_main sample_world (sample_flags True) (sample_fs [65]) out fs1 \<and> exit_code out = 0 \<and>
     node_at fs1 [''out'', ''in''] = Some (FileNode c t) \<and>
     Decrypt frame_reader (reader_of c) new_sink sample_secret = (st, None) \<and> written (dec_out st) = [65]"
proof -
  obtain out fs1 where r: "cli_main sample_world (sample_flags True) (sample_fs [65]) out fs1" "exit_code out = 0"
    using sample_encrypt_run(1) by blast
  have fl: "\<not> f_inspect (sample_flags True)" "f_encrypt (sample_flags True)" "f_outFile (sample_flags True) = []"
    "\<not> f_skipExist (sample_flags True)" by (simp_all add: sample_flags_def)
  have op: "os_Open (sample_fs [65]) (inPath (sample_unit [65])) = Inr (reader_of [65])"
    using calm_Open [OF sample_calm, of "''in''" "[65]" "[65]" 7] by (simp add: sample_nodes sample_keys sample_unit_def)
  have bd: "buildOpts (Some (bytes_of_string ''secret'')) None 3 1 (f_compress (sample_flags True)) = sample_build"
    by (simp add: sample_build_def sample_flags_def)
  have "secret_fits (sample_build p) (oPassword sample_secret) (oPrivateKey sample_secret)"
    "codec_ok (wd_lzw sample_world) frame_reader (sample_build p)" "\<not> full_chunks (wd_lzw sample_world) (sample_build p) cs" for p cs
    by (simp_all add: secret_fits_def sample_secret_def sample_build_def buildOpts_def codec_ok_def full_chunks_def compressOn_def)
  from cli_encrypt_exit_zero [OF r fl sample_cmd(1,3) bd sample_cmd(4) _ _ _ _ op this(1,2)] this(3)
    sample_encrypt_run(2) [of "[65]"] r show ?thesis
    by (auto simp: sample_unit_def cmd_out_keys)
qed

end
