(* ===== verification/Reader.thy ===== *)
theory Reader
  imports Files
begin

text \<open>
  \<open>reader.go\<close>, \<open>OpenFile\<close> and \<open>NewReaderWithCloser\<close>: the decryptor as an \<open>io.ReadCloser\<close>.

  The goroutine of \<open>NewReader\<close> runs \<open>Decrypt\<close> into an \<open>io.Pipe\<close>, which has no buffer: what \<open>Decrypt\<close> has written and
  what the caller has read are the same bytes, up to the slice of the write in progress. So a \<open>Reader\<close> is
  described by the number of bytes taken so far, and \<open>Decrypt\<close> by its run on a writer that takes everything,
  until \<open>Close\<close> makes the next write fail with \<open>io.ErrClosedPipe\<close>: that is its run on a writer with room for
  the bytes taken. How a read is cut and when the hook has run is up to the scheduler, so \<open>Read\<close>, \<open>Metadata\<close>
  and \<open>Close\<close> are relations. A caller's own \<open>OnMetadata\<close> hook is left out.
\<close>

section \<open>Operations\<close>

text \<open>\<open>rd_extra\<close>: the closer handed over, if any, as the result its \<open>Close\<close> will have.\<close>

record Reader =
  rd_in :: reader
  rd_opts :: DecryptOptions
  rd_extra :: "error option option"
  rd_taken :: nat
  rd_ended :: bool
  rd_closed :: bool
  rd_closeErr :: "error option"

definition NewReader :: "reader \<Rightarrow> DecryptOptions \<Rightarrow> Reader" where
  "NewReader inp opts =
     \<lparr>rd_in = inp, rd_opts = opts, rd_extra = None, rd_taken = 0, rd_ended = False, rd_closed = False,
      rd_closeErr = None\<rparr>"

definition NewReaderWithCloser :: "reader \<Rightarrow> error option \<Rightarrow> DecryptOptions \<Rightarrow> Reader" where
  "NewReaderWithCloser inp extra opts = (NewReader inp opts)\<lparr>rd_extra := Some extra\<rparr>"

definition OpenFile :: "fsys \<Rightarrow> path \<Rightarrow> DecryptOptions \<Rightarrow> error + Reader" where
  "OpenFile fs p opts =
     (case os_Open fs p of
        Inl e \<Rightarrow> Inl e
      | Inr f \<Rightarrow> Inr (NewReaderWithCloser f (os_Close (fs_key fs p) fs) opts))"

text \<open>\<open>Decrypt\<close> while the caller keeps reading.\<close>

definition reader_run :: "'d lz_reader \<Rightarrow> Reader \<Rightarrow> 'd decState \<times> error option" where
  "reader_run lzr r = Decrypt lzr (rd_in r) new_sink (rd_opts r)"

definition reader_output :: "'d lz_reader \<Rightarrow> Reader \<Rightarrow> bytes" where
  "reader_output lzr r = written (dec_out (fst (reader_run lzr r)))"

text \<open>\<open>pw.CloseWithError(err)\<close>, as \<open>Read\<close> reports it.\<close>

definition read_end :: "error option \<Rightarrow> error" where
  "read_end res = (case res of None \<Rightarrow> ErrEOF | Some e \<Rightarrow> e)"

text \<open>
  \<open>Read\<close> with a buffer of \<open>n\<close> bytes. It gets \<open>k\<close> bytes of the write in progress (none for an empty slice), the
  end once \<open>Decrypt\<close> has returned, or the pipe's own error after \<open>Close\<close>.
\<close>

inductive reader_Read :: "'d lz_reader \<Rightarrow> Reader \<Rightarrow> nat \<Rightarrow> Reader \<Rightarrow> bytes \<Rightarrow> error option \<Rightarrow> bool" for lzr where
  closed: "rd_closed r \<Longrightarrow> reader_Read lzr r n r [] (Some ErrClosedPipe)"
| data: "\<not> rd_closed r \<Longrightarrow> \<not> rd_ended r \<Longrightarrow> k \<le> n \<Longrightarrow> rd_taken r + k \<le> length (reader_output lzr r) \<Longrightarrow>
     reader_Read lzr r n (r\<lparr>rd_taken := rd_taken r + k\<rparr>) (take k (drop (rd_taken r) (reader_output lzr r))) None"
| ended: "\<not> rd_closed r \<Longrightarrow> rd_taken r = length (reader_output lzr r) \<Longrightarrow>
     reader_Read lzr r n (r\<lparr>rd_ended := True\<rparr>) [] (Some (read_end (snd (reader_run lzr r))))"

text \<open>\<open>Metadata\<close>: the snapshot once the hook has run, which is before the first byte is written.\<close>

inductive reader_Metadata :: "'d lz_reader \<Rightarrow> Reader \<Rightarrow> Metadata option \<Rightarrow> bool" for lzr where
  early: "rd_taken r = 0 \<Longrightarrow> \<not> rd_ended r \<Longrightarrow> reader_Metadata lzr r None"
| never: "d_snaps (fst (reader_run lzr r)) = [] \<Longrightarrow> reader_Metadata lzr r None"
| snapshot: "m \<in> set (d_snaps (fst (reader_run lzr r))) \<Longrightarrow> reader_Metadata lzr r (Some m)"

text \<open>What \<open>Close\<close> makes of the result of \<open>Decrypt\<close> and of the closer.\<close>

definition close_result :: "error option \<Rightarrow> error option option \<Rightarrow> error option" where
  "close_result res extra =
     (let err = (case extra of Some (Some cerr) \<Rightarrow> if res = None then Some cerr else res | _ \<Rightarrow> res) in
      case err of
        None \<Rightarrow> None
      | Some e \<Rightarrow> if err_is e ErrClosedPipe then None else Some e)"

text \<open>
  \<open>Close\<close>. What arrives on \<open>doneCh\<close>: the result of the whole run when \<open>Read\<close> has reported the end, otherwise the
  result of the run that is cut off behind the bytes taken; a write of an empty slice that is still
  waiting fails as well.
\<close>

inductive reader_Close :: "'d lz_reader \<Rightarrow> Reader \<Rightarrow> Reader \<Rightarrow> error option \<Rightarrow> bool" for lzr where
  again: "rd_closed r \<Longrightarrow> reader_Close lzr r r (rd_closeErr r)"
| whole: "\<not> rd_closed r \<Longrightarrow> rd_ended r \<Longrightarrow> res = close_result (snd (reader_run lzr r)) (rd_extra r) \<Longrightarrow>
     reader_Close lzr r (r\<lparr>rd_closed := True, rd_closeErr := res\<rparr>) res"
| cut: "\<not> rd_closed r \<Longrightarrow> \<not> rd_ended r \<Longrightarrow>
     d = snd (Decrypt lzr (rd_in r) \<lparr>written = [], room = Some (rd_taken r, ErrClosedPipe)\<rparr> (rd_opts r)) \<or>
     d = Some ErrClosedPipe \<Longrightarrow>
     res = close_result d (rd_extra r) \<Longrightarrow>
     reader_Close lzr r (r\<lparr>rd_closed := True, rd_closeErr := res\<rparr>) res"

text \<open>The calls of a caller, with the bytes it has got.\<close>

inductive reader_reach :: "'d lz_reader \<Rightarrow> Reader \<Rightarrow> Reader \<Rightarrow> bytes \<Rightarrow> bool" for lzr r0 where
  start: "reader_reach lzr r0 r0 []"
| read: "reader_reach lzr r0 r bs \<Longrightarrow> reader_Read lzr r n r' b e \<Longrightarrow> reader_reach lzr r0 r' (bs @ b)"
| close: "reader_reach lzr r0 r bs \<Longrightarrow> reader_Close lzr r r' e \<Longrightarrow> reader_reach lzr r0 r' bs"

inductive_cases Read_endE: "reader_Read lzr r n r' b (Some e)"

section \<open>What the caller gets\<close>

lemma reader_run_same:
  "rd_in r' = rd_in r \<Longrightarrow> rd_opts r' = rd_opts r \<Longrightarrow>
     reader_run lzr r' = reader_run lzr r \<and> reader_output lzr r' = reader_output lzr r"
  by (simp add: reader_run_def reader_output_def)

lemma reader_reach_inv:
  assumes "reader_reach lzr r0 r bs" and "rd_taken r0 = 0" and "\<not> rd_ended r0"
  shows "rd_in r = rd_in r0 \<and> rd_opts r = rd_opts r0 \<and> rd_extra r = rd_extra r0 \<and>
    rd_taken r \<le> length (reader_output lzr r0) \<and> bs = take (rd_taken r) (reader_output lzr r0) \<and>
    (rd_ended r \<longrightarrow> rd_taken r = length (reader_output lzr r0))"
  using assms
proof (induction rule: reader_reach.induct)
  case (read r bs n r' b e)
  then have i: "rd_in r = rd_in r0" "rd_opts r = rd_opts r0" "rd_extra r = rd_extra r0"
    "rd_taken r \<le> length (reader_output lzr r0)" "bs = take (rd_taken r) (reader_output lzr r0)"
    "rd_ended r \<longrightarrow> rd_taken r = length (reader_output lzr r0)" by simp_all
  note same = reader_run_same [OF i(1,2), where lzr = lzr]
  from read.hyps(2) show ?case
    by (cases rule: reader_Read.cases) (use i same in \<open>auto simp: take_add\<close>)
next
  case (close r bs r' e)
  then show ?case by (auto elim: reader_Close.cases)
qed simp

lemma new_reader_simps [simp]:
  "rd_taken (NewReader src opts) = 0" "\<not> rd_ended (NewReader src opts)" "\<not> rd_closed (NewReader src opts)"
  "rd_in (NewReader src opts) = src" "rd_opts (NewReader src opts) = opts" "rd_extra (NewReader src opts) = None"
  "rd_taken (NewReaderWithCloser src x opts) = 0" "\<not> rd_ended (NewReaderWithCloser src x opts)"
  "\<not> rd_closed (NewReaderWithCloser src x opts)" "rd_in (NewReaderWithCloser src x opts) = src"
  "rd_opts (NewReaderWithCloser src x opts) = opts" "rd_extra (NewReaderWithCloser src x opts) = Some x"
  by (simp_all add: NewReader_def NewReaderWithCloser_def)

lemma Decrypt_genuine:
  assumes "Decrypt lzr src new_sink opts = (st, None)"
  shows "genuine lzr opts src (written (dec_out st))"
proof (rule decrypt_result [where p = "[]"])
  show "result_of (decrypt_kind lzr opts) [] src (written (dec_out st))"
    using assms unfolding result_of_def
    by (intro exI [of _ None] exI [of _ "dec_out st"]) (simp add: decrypt_kind_def new_sink_def)
qed

lemma close_result_not_closed: "close_result res extra = Some e \<Longrightarrow> \<not> err_is e ErrClosedPipe"
  by (auto simp: close_result_def Let_def split: option.splits if_splits)

lemma reader_snapshot:
  assumes "reader_output lzr r \<noteq> []"
  shows "\<exists>snap. d_snaps (fst (reader_run lzr r)) = [snap] \<and> Inspect (rd_in r) = Inr snap"
proof -
  obtain st res where D: "Decrypt lzr (rd_in r) new_sink (rd_opts r) = (st, res)"
    by (cases "Decrypt lzr (rd_in r) new_sink (rd_opts r)")
  with assms have w: "written (dec_out st) \<noteq> []" by (simp add: reader_output_def reader_run_def)
  with D obtain r' where r': "consumeMagic (rd_in r) = Inr r'"
    "decrypt_loop lzr (rd_opts r) (init_decrypt new_sink) r' = (st, res)"
    by (auto simp: Decrypt_def init_decrypt_def dec_out_def split: sum.splits)
  from decrypt_loop_exit [OF init_loop_inv r'(2)] w obtain snap where s: "d_snaps st = [snap]"
    by (auto simp: exit_inv_def dec_out_def split: option.splits)
  with decrypt_loop_inspect [OF r'(2), of snap] r'(1) D show ?thesis
    by (simp add: Inspect_def init_decrypt_def reader_run_def)
qed

text \<open>What a closed reader does.\<close>

lemma closed_reader:
  assumes "rd_closed r"
  shows "reader_Close lzr r r' res \<longleftrightarrow> r' = r \<and> res = rd_closeErr r"
    and "reader_Read lzr r n r' b e \<longleftrightarrow> r' = r \<and> b = [] \<and> e = Some ErrClosedPipe"
  using assms by (auto elim: reader_Close.cases reader_Read.cases intro: reader_Close.intros reader_Read.intros)

lemma Close_closes: "reader_Close lzr r r' res \<Longrightarrow> rd_closed r' \<and> rd_closeErr r' = res"
  by (auto elim!: reader_Close.cases)

end
