(* ===== verification/ReaderCorrect.thy ===== *)
theory ReaderCorrect
  imports Reader FileSuccess
begin

text \<open>
  A \<open>Reader\<close> that is closed early, and one that is read to its end. A run of \<open>Decrypt\<close> on a writer that fails
  after \<open>n\<close> bytes is compared step by step with the run on a writer that takes everything: it ends with the
  writer's error or exactly as the other.
\<close>

section \<open>Two runs that differ in the writer\<close>

definition limited :: "nat \<Rightarrow> error \<Rightarrow> sink \<Rightarrow> sink \<Rightarrow> bool" where
  "limited n E s s' \<longleftrightarrow> room s = None \<and> length (written s) \<le> n \<and>
     s' = \<lparr>written = written s, room = Some (n - length (written s), E)\<rparr>"

text \<open>The results agree: the second run has failed with \<open>E\<close>, or both have failed alike, or both go on in related states.\<close>

fun agree :: "error \<Rightarrow> ('a \<Rightarrow> 'b \<Rightarrow> bool) \<Rightarrow> 'a \<times> error option \<Rightarrow> 'b \<times> error option \<Rightarrow> bool" where
  "agree E R (x, r) (x', r') \<longleftrightarrow> r' = Some E \<or> r' = r \<and> (r = None \<longrightarrow> R x x')"

lemma agree_failed [simp]: "agree E R x (y, Some E)"
  by (cases x) simp

text \<open>Pipes that differ in the writer only, and pipes of which the second one's goroutine has met the failing writer.\<close>

definition near :: "nat \<Rightarrow> error \<Rightarrow> 'd decryptPipe \<Rightarrow> 'd decryptPipe \<Rightarrow> bool" where
  "near n E p p' \<longleftrightarrow> (\<exists>o'. limited n E (dp_out p) o' \<and> p' = p\<lparr>dp_out := o'\<rparr>)"

definition gone :: "error \<Rightarrow> 'd decryptPipe \<Rightarrow> 'd decryptPipe \<Rightarrow> bool" where
  "gone E p p' \<longleftrightarrow> dp_dec p' = dp_dec p \<and> dp_pending p' = dp_pending p \<and> dp_lane p' = LzStopped (Some E)"

abbreviation "parted n E \<equiv> \<lambda>p p'. near n E p p' \<or> gone E p p'"

abbreviation "parted_fed n E \<equiv> \<lambda>p p'. near n E p p' \<or> gone E p p' \<and> dp_pending p' \<noteq> None"

lemma sink_write_limited:
  assumes "limited n E s s'"
  shows "agree E (limited n E) (sink_write s b) (sink_write s' b)"
  using assms by (auto simp: limited_def sink_write_def)

lemma tee_Write_near:
  assumes "near n E p p'"
  shows "agree E (near n E) (tee_Write p b) (tee_Write p' b)"
    and "snd (tee_Write p b) = None"
    and "dp_dec (fst (tee_Write p' b)) = dp_dec p \<and> dp_pending (fst (tee_Write p' b)) = dp_pending p"
proof -
  from assms obtain o' where o: "limited n E (dp_out p) o'" "p' = p\<lparr>dp_out := o'\<rparr>" by (auto simp: near_def)
  obtain s1 r1 where s: "sink_write (dp_out p) b = (s1, r1)" by (cases "sink_write (dp_out p) b")
  obtain s2 r2 where s': "sink_write o' b = (s2, r2)" by (cases "sink_write o' b")
  from o(1) s have r1: "r1 = None" by (auto simp: limited_def sink_write_def)
  from sink_write_limited [OF o(1), of b] s s' have "r2 = Some E \<or> r2 = r1 \<and> (r1 = None \<longrightarrow> limited n E s1 s2)" by simp
  with o s s' r1 show "agree E (near n E) (tee_Write p b) (tee_Write p' b)" "snd (tee_Write p b) = None"
    "dp_dec (fst (tee_Write p' b)) = dp_dec p \<and> dp_pending (fst (tee_Write p' b)) = dp_pending p"
    by (auto simp: tee_Write_def near_def split: option.splits)
qed

lemma tee_Write_keeps: "tee_Write p b = (p1, r) \<Longrightarrow> dp_dec p1 = dp_dec p \<and> dp_pending p1 = dp_pending p \<and> dp_lane p1 = dp_lane p"
  by (auto simp: tee_Write_def split: prod.splits option.splits)

lemma lane_byte_near:
  assumes "near n E p p'"
  shows "parted n E (lane_byte lzr d p b) (lane_byte lzr d p' b)"
proof -
  obtain d' x v where l: "lzr_step lzr d b = (d', x, v)" by (cases "lzr_step lzr d b")
  obtain p1 r1 where t: "tee_Write p x = (p1, r1)" by (cases "tee_Write p x")
  obtain p2 r2 where t': "tee_Write p' x = (p2, r2)" by (cases "tee_Write p' x")
  from tee_Write_near [OF assms, of x] t t' have r: "r1 = None" "r2 = Some E \<or> r2 = None \<and> near n E p1 p2"
    "dp_dec p2 = dp_dec p \<and> dp_pending p2 = dp_pending p" by auto
  with tee_Write_keeps [OF t] l t t' show ?thesis
    by (auto simp: lane_byte_def near_def gone_def split: option.splits)
qed

lemma near_lane: "near n E p p' \<Longrightarrow> dp_lane p' = dp_lane p"
  by (auto simp: near_def)

lemma pipe_bytes_gone: "dp_lane p' = LzStopped (Some E) \<Longrightarrow> b \<noteq> [] \<Longrightarrow> pipe_bytes lzr b p' = (p', Some E)"
  by (cases b) (simp_all add: stop_error_def)

lemma pipe_bytes_near:
  "near n E p p' \<Longrightarrow> agree E (parted n E) (pipe_bytes lzr b p) (pipe_bytes lzr b p')"
proof (induction b arbitrary: p p')
  case (Cons x b)
  show ?case
  proof (cases "dp_lane p")
    case (LzRunning d)
    with near_lane [OF Cons.prems] have l: "dp_lane p' = LzRunning d" by simp
    from lane_byte_near [OF Cons.prems, of lzr d x] show ?thesis
    proof
      assume "near n E (lane_byte lzr d p x) (lane_byte lzr d p' x)"
      from Cons.IH [OF this] LzRunning l show ?thesis by simp
    next
      assume g: "gone E (lane_byte lzr d p x) (lane_byte lzr d p' x)"
      then have "dp_lane (lane_byte lzr d p' x) = LzStopped (Some E)" by (simp add: gone_def)
      from pipe_bytes_gone [OF this, of b lzr] g LzRunning l show ?thesis
        by (cases "b = []"; cases "pipe_bytes lzr b (lane_byte lzr d p x)") simp_all
    qed
  qed (use near_lane [OF Cons.prems] Cons.prems in simp_all)
qed simp

lemma writeSink_near:
  assumes "near n E p p'"
  shows "agree E (parted n E) (writeSink lzr p b) (writeSink lzr p' b)"
proof (cases "dp_lane p")
  case Direct
  with tee_Write_near(1) [OF assms, of b] near_lane [OF assms] show ?thesis
    by (cases "tee_Write p b"; cases "tee_Write p' b") (auto simp: writeSink_def)
qed (use near_lane [OF assms] assms pipe_bytes_near [OF assms, of lzr b] in \<open>simp_all add: writeSink_def\<close>)

lemma writeSink_gone: "gone E p p' \<Longrightarrow> writeSink lzr p' b = (p', Some E)"
  by (simp add: writeSink_def gone_def stop_error_def)

lemma near_update:
  "near n E p p' \<Longrightarrow> near n E (p\<lparr>dp_dec := c\<rparr>) (p'\<lparr>dp_dec := c\<rparr>)"
  "near n E p p' \<Longrightarrow> near n E (p\<lparr>dp_pending := x\<rparr>) (p'\<lparr>dp_pending := x\<rparr>)"
  "gone E p p' \<Longrightarrow> gone E (p\<lparr>dp_pending := x\<rparr>) (p'\<lparr>dp_pending := x\<rparr>)"
  by (auto simp: near_def gone_def)

lemma near_fields: "near n E p p' \<Longrightarrow> dp_dec p' = dp_dec p \<and> dp_pending p' = dp_pending p \<and> dp_md5 p' = dp_md5 p"
  by (auto simp: near_def)

lemma pipe_feed_parted:
  assumes "parted_fed n E p p'"
  shows "agree E (parted_fed n E) (pipe_feed lzr p c) (pipe_feed lzr p' c)"
proof (cases "c = [] \<or> length c mod 16 \<noteq> 0")
  case True
  then show ?thesis by (simp add: pipe_feed_def)
next
  case ok: False
  obtain dec' plain where c: "cbc_crypt_decrypt (dp_dec p) c = (dec', plain)" by (cases "cbc_crypt_decrypt (dp_dec p) c")
  from assms show ?thesis
  proof
    assume n: "near n E p p'"
    note f = near_fields [OF n]
    show ?thesis
    proof (cases "dp_pending p")
      case None
      with ok c f near_update(1,2) [OF n] near_update(2) [OF near_update(1) [OF n, of dec'], of "Some plain"]
      show ?thesis by (simp add: pipe_feed_def)
    next
      case (Some b)
      obtain q r where w: "writeSink lzr (p\<lparr>dp_dec := dec'\<rparr>) b = (q, r)" by (cases "writeSink lzr (p\<lparr>dp_dec := dec'\<rparr>) b")
      obtain q' r' where w': "writeSink lzr (p'\<lparr>dp_dec := dec'\<rparr>) b = (q', r')" by (cases "writeSink lzr (p'\<lparr>dp_dec := dec'\<rparr>) b")
      from writeSink_near [OF near_update(1) [OF n, of dec'], of lzr b] w w'
      have "r' = Some E \<or> r' = r \<and> (r = None \<longrightarrow> parted n E q q')" by simp
      with ok c f Some w w' show ?thesis
        by (auto simp: pipe_feed_def near_update split: option.split)
    qed
  next
    assume g: "gone E p p' \<and> dp_pending p' \<noteq> None"
    then have same: "dp_pending p' = dp_pending p" "dp_dec p' = dp_dec p" by (simp_all add: gone_def)
    from g obtain b where "dp_pending p' = Some b" by blast
    with same have b: "dp_pending p = Some b" "dp_dec p' = dp_dec p" "dp_pending p' = Some b" by simp_all
    have "dp_lane (p'\<lparr>dp_dec := dec'\<rparr>) = LzStopped (Some E)" using g by (simp add: gone_def)
    then have "writeSink lzr (p'\<lparr>dp_dec := dec'\<rparr>) b = (p'\<lparr>dp_dec := dec'\<rparr>, Some E)"
      by (simp add: writeSink_def stop_error_def)
    with ok c b have "pipe_feed lzr p' c = (p'\<lparr>dp_dec := dec'\<rparr>, Some E)" by (simp add: pipe_feed_def)
    then show ?thesis by simp
  qed
qed

lemma pipe_done_near:
  assumes "near n E p p'" shows "agree E (near n E) (pipe_done lzr p) (pipe_done lzr p')"
proof -
  from assms obtain o' where o: "limited n E (dp_out p) o'" "p' = p\<lparr>dp_out := o'\<rparr>" by (auto simp: near_def)
  then show ?thesis by (cases "dp_lane p") (auto simp: pipe_done_def pipe_close_def near_def Let_def)
qed

lemma pipe_finish_parted:
  assumes "parted_fed n E p p'"
  shows "agree E (near n E) (pipe_finish lzr p) (pipe_finish lzr p')"
proof -
  have gone: "pipe_done lzr q' = (q', Some E)" if "gone E q q'" for q q' :: "'a decryptPipe"
    using that by (simp add: gone_def pipe_done_def pipe_close_def)
  from assms show ?thesis
  proof
    assume n: "near n E p p'"
    show ?thesis
    proof (cases "dp_pending p")
      case None
      with near_fields [OF n] pipe_done_near [OF n, of lzr] show ?thesis by (simp add: pipe_finish_def)
    next
      case (Some b)
      show ?thesis
      proof (cases "unpadPKCS7 b")
        case (Inl e)
        with Some near_fields [OF n] show ?thesis by (simp add: pipe_finish_def)
      next
        case (Inr tail)
        obtain q r where w: "writeSink lzr p tail = (q, r)" by (cases "writeSink lzr p tail")
        obtain q' r' where w': "writeSink lzr p' tail = (q', r')" by (cases "writeSink lzr p' tail")
        from writeSink_near [OF n, of lzr tail] w w'
        consider "r' = Some E" | e where "r' = Some e" "r = Some e" | "r' = None" "r = None" "near n E q q'"
          | "r' = None" "r = None" "gone E q q'" by (cases r) auto
        then show ?thesis
        proof cases
          case 1
          with Some Inr near_fields [OF n] w w' show ?thesis
            by (cases "pipe_finish lzr p") (simp add: pipe_finish_def)
        next
          case 2
          with Some Inr near_fields [OF n] w w' show ?thesis by (simp add: pipe_finish_def)
        next
          case 3
          with Some Inr near_fields [OF n] w w' pipe_done_near [OF 3(3), of lzr] show ?thesis by (simp add: pipe_finish_def)
        next
          case 4
          with Some Inr near_fields [OF n] w w' gone [OF 4(3)] show ?thesis
            by (cases "pipe_finish lzr p") (simp add: pipe_finish_def)
        qed
      qed
    qed
  next
    assume g: "gone E p p' \<and> dp_pending p' \<noteq> None"
    then have "dp_pending p' = dp_pending p" by (simp add: gone_def)
    moreover from g obtain b where "dp_pending p' = Some b" by blast
    ultimately have b: "dp_pending p' = Some b" "dp_pending p' = dp_pending p" by simp_all
    with g writeSink_gone [of E p p' lzr] show ?thesis
      by (cases "unpadPKCS7 b") (simp_all add: pipe_finish_def)
  qed
qed

section \<open>The two loops\<close>

definition near_state :: "nat \<Rightarrow> error \<Rightarrow> 'd decState \<Rightarrow> 'd decState \<Rightarrow> bool" where
  "near_state n E st st' \<longleftrightarrow>
     d_meta st' = d_meta st \<and> d_snaps st' = d_snaps st \<and> d_logs st' = d_logs st \<and>
     (case (d_pipe st, d_pipe st') of
        (None, None) \<Rightarrow> limited n E (d_out st) (d_out st')
      | (Some p, Some p') \<Rightarrow> parted_fed n E p p'
      | _ \<Rightarrow> False)"

lemma near_state_none: "near_state n E st st' \<Longrightarrow> d_pipe st = None \<longleftrightarrow> d_pipe st' = None"
  by (auto simp: near_state_def split: option.splits)

lemma open_pipe_near:
  assumes "near_state n E st st'" and "d_pipe st = None"
  shows "agree E (near_state n E) (open_pipe lzr opt st) (open_pipe lzr opt st')"
proof -
  from assms near_state_none [OF assms(1)] have "d_pipe st' = None" "limited n E (d_out st) (d_out st')"
    "d_meta st' = d_meta st" "d_snaps st' = d_snaps st" "d_logs st' = d_logs st" by (auto simp: near_state_def)
  with assms(2) show ?thesis
    by (auto simp: open_pipe_def newDecryptPipe_def near_state_def near_def Let_def
        split: option.split sum.split prod.split)
qed

lemma feed_data_near:
  assumes "near_state n E st st'"
  shows "agree E (near_state n E) (feed_data lzr obj st) (feed_data lzr obj st')"
proof (cases "\<exists>c. Lookup obj ''data'' = Some (VBytes c)")
  case True
  then obtain c where c: "Lookup obj ''data'' = Some (VBytes c)" by blast
  show ?thesis
  proof (cases "d_pipe st")
    case None
    with c near_state_none [OF assms] assms show ?thesis by (simp add: feed_data_def)
  next
    case (Some p)
    with near_state_none [OF assms] obtain p' where p': "d_pipe st' = Some p'" by fastforce
    with assms Some have r: "parted_fed n E p p'" by (simp add: near_state_def)
    obtain q e where f: "pipe_feed lzr p c = (q, e)" by (cases "pipe_feed lzr p c")
    obtain q' e' where f': "pipe_feed lzr p' c = (q', e')" by (cases "pipe_feed lzr p' c")
    from pipe_feed_parted [OF r, of lzr c] f f' have "e' = Some E \<or> e' = e \<and> (e = None \<longrightarrow> parted_fed n E q q')" by simp
    with assms c Some p' f f' show ?thesis
      by (cases e; cases e') (auto simp: feed_data_def near_state_def)
  qed
next
  case False
  then show ?thesis by (auto simp: feed_data_def split: option.split wvalue.split)
qed

lemma decrypt_data_near:
  assumes "near_state n E st st'"
  shows "agree E (near_state n E) (decrypt_data lzr opt obj st) (decrypt_data lzr opt obj st')"
proof (cases "d_pipe st")
  case None
  obtain s1 r where o: "open_pipe lzr opt st = (s1, r)" by (cases "open_pipe lzr opt st")
  obtain s1' r' where o': "open_pipe lzr opt st' = (s1', r')" by (cases "open_pipe lzr opt st'")
  from open_pipe_near [OF assms None, of lzr opt] o o' have "r' = Some E \<or> r' = r \<and> (r = None \<longrightarrow> near_state n E s1 s1')" by simp
  with None near_state_none [OF assms] o o' feed_data_near [of n E s1 s1' lzr obj] show ?thesis
    by (cases r; cases r') (auto simp: decrypt_data_def)
next
  case (Some p)
  with near_state_none [OF assms] obtain p' where "d_pipe st' = Some p'" by fastforce
  with Some feed_data_near [OF assms, of lzr obj] show ?thesis by (simp add: decrypt_data_def)
qed

lemma decrypt_metadata_near:
  "near_state n E st st' \<Longrightarrow> agree E (near_state n E) (decrypt_metadata ms st) (decrypt_metadata ms st')"
  by (cases "d_pipe st"; cases "d_pipe st'") (auto simp: decrypt_metadata_def near_state_def split: prod.split)

lemma decrypt_object_near:
  "near_state n E st st' \<Longrightarrow> agree E (near_state n E) (decrypt_object lzr opt obj st) (decrypt_object lzr opt obj st')"
  using decrypt_data_near [of n E st st' lzr opt obj] decrypt_metadata_near [of n E st st']
  by (auto simp: decrypt_object_def split: wvalue.split option.split)

lemma decrypt_end_near:
  assumes "near_state n E st st'"
  shows "snd (decrypt_end lzr st') = Some E \<or> snd (decrypt_end lzr st') = snd (decrypt_end lzr st)"
proof (cases "d_pipe st")
  case None
  with near_state_none [OF assms] show ?thesis by (simp add: decrypt_end_def)
next
  case (Some p)
  with near_state_none [OF assms] obtain p' where p': "d_pipe st' = Some p'" by fastforce
  with assms Some have r: "parted_fed n E p p'" and m: "d_meta st' = d_meta st" by (simp_all add: near_state_def)
  obtain q e where f: "pipe_finish lzr p = (q, e)" by (cases "pipe_finish lzr p")
  obtain q' e' where f': "pipe_finish lzr p' = (q', e')" by (cases "pipe_finish lzr p'")
  from pipe_finish_parted [OF r, of lzr] f f' have "e' = Some E \<or> e' = e \<and> (e = None \<longrightarrow> near n E q q')" by simp
  with Some p' m f f' near_fields [of n E q q'] show ?thesis
    by (cases e; cases e') (auto simp: decrypt_end_def Let_def)
qed

lemma decrypt_loop_near:
  "near_state n E st st' \<Longrightarrow>
     snd (decrypt_loop lzr opt st' r) = Some E \<or> snd (decrypt_loop lzr opt st' r) = snd (decrypt_loop lzr opt st r)"
proof (induction lzr opt st r arbitrary: st' rule: decrypt_loop.induct)
  case (1 lzr opt st r)
  consider e where "Next r = Inl e" | "Next r = Inr None" | obj r' where "Next r = Inr (Some (obj, r'))"
    by (cases "Next r") (auto split: option.splits, metis option.exhaust surj_pair)
  then show ?case
  proof cases
    case 1
    then show ?thesis by (simp add: decrypt_loop.simps [of lzr opt _ r])
  next
    case 2
    with decrypt_end_near [OF "1.prems", of lzr] show ?thesis by (simp add: decrypt_loop.simps [of lzr opt _ r])
  next
    case (3 obj r')
    obtain s1 e where o: "decrypt_object lzr opt obj st = (s1, e)" by (cases "decrypt_object lzr opt obj st")
    obtain s1' e' where o': "decrypt_object lzr opt obj st' = (s1', e')" by (cases "decrypt_object lzr opt obj st'")
    from decrypt_object_near [OF "1.prems", of lzr opt obj] o o'
    consider "e' = Some E" | x where "e' = Some x" "e = Some x" | "e' = None" "e = None" "near_state n E s1 s1'"
      by (cases e) auto
    then show ?thesis
    proof cases
      case 1
      with 3 o' show ?thesis by (simp add: decrypt_loop.simps [of lzr opt st' r])
    next
      case 2
      with 3 o o' show ?thesis by (simp add: decrypt_loop.simps [of lzr opt _ r])
    next
      case cont: 3
      from "1.IH" [OF 3 refl refl o [symmetric] cont(2,3)] o 3 o' cont show ?thesis
        by (simp add: decrypt_loop.simps [of lzr opt st r] decrypt_loop.simps [of lzr opt st' r])
    qed
  qed
qed

lemma Decrypt_cut:
  "snd (Decrypt lzr src \<lparr>written = [], room = Some (n, E)\<rparr> opt) = Some E \<or>
   snd (Decrypt lzr src \<lparr>written = [], room = Some (n, E)\<rparr> opt) = snd (Decrypt lzr src new_sink opt)"
proof (cases "consumeMagic src")
  case (Inr r')
  have "near_state n E (init_decrypt new_sink) (init_decrypt \<lparr>written = [], room = Some (n, E)\<rparr>)"
    by (simp add: near_state_def init_decrypt_def limited_def)
  from decrypt_loop_near [OF this] Inr show ?thesis by (simp add: Decrypt_def)
qed (simp add: Decrypt_def)

section \<open>A sample caller\<close>

text \<open>It reads everything with one call, then the end, then closes.\<close>

lemma reads_all:
  assumes "rd_taken r = 0" and "\<not> rd_ended r" and "\<not> rd_closed r"
  shows "\<exists>r1 r2 r3 e res. reader_reach lzr r r1 (reader_output lzr r) \<and> \<not> rd_closed r1 \<and>
    reader_Read lzr r1 1 r2 [] (Some e) \<and> reader_Close lzr r2 r3 res"
proof -
  let ?n = "length (reader_output lzr r)"
  let ?r1 = "r\<lparr>rd_taken := ?n\<rparr>" and ?r2 = "r\<lparr>rd_taken := ?n, rd_ended := True\<rparr>"
  have o: "reader_output lzr ?r1 = reader_output lzr r" by (simp add: reader_output_def reader_run_def)
  have "reader_Read lzr r ?n ?r1 (reader_output lzr r) None"
    using reader_Read.data [OF assms(3,2), of ?n ?n lzr] assms(1) by simp
  from reader_reach.read [OF reader_reach.start this] have "reader_reach lzr r ?r1 (reader_output lzr r)" by simp
  moreover have "reader_Read lzr ?r1 1 ?r2 [] (Some (read_end (snd (reader_run lzr ?r1))))"
    using reader_Read.ended [of ?r1 lzr 1] o assms(3) by simp
  moreover have "\<exists>r3 res. reader_Close lzr ?r2 r3 res" using reader_Close.whole [of ?r2 _ lzr] assms(3) by auto
  ultimately show ?thesis using assms(3) by fastforce
qed

text \<open>Reading an encrypted file to the end: what \<open>Decrypt_with_digest\<close> says of the run behind the reader.\<close>

lemma decrypt_of_encrypted:
  assumes "Encrypt lzw crand chunks inEnd new_sink opts = (enc, None)"
    and "secret_fits opts (oPassword opt) (oPrivateKey opt)" and "codec_ok lzw lzr opts"
  shows "\<exists>st. Decrypt lzr (reader_of (written enc)) new_sink opt =
      (st, if full_chunks lzw opts chunks then Some ErrClosedPipe else None) \<and> written (dec_out st) = concat chunks"
proof -
  from Encrypt_stream(1) [OF assms(1)] obtain m cs where
    w: "written enc = (leading_stream m @ data_stream cs) @ trailer (concat chunks)"
    by (auto simp: csenc_stream_def trailer_def)
  have "length (hex_encode (md5 (concat chunks))) \<le> 65535" by (simp add: md5.length_hex_H)
  from Decrypt_with_digest [OF assms(1-3) _ w this, of new_sink] show ?thesis
    by (auto simp: w trailer_def)
qed

lemma reader_of_encrypted:
  assumes "Encrypt lzw crand chunks inEnd new_sink opts = (enc, None)"
    and "secret_fits opts (oPassword opt) (oPrivateKey opt)" and "codec_ok lzw lzr opts"
    and "reader_reach lzr (NewReaderWithCloser (reader_of (written enc)) x opt) r bs" and "\<not> rd_closed r"
    and "reader_Read lzr r n r1 b (Some e)" and "reader_Close lzr r1 r2 res"
  shows "bs = concat chunks \<and>
    (if full_chunks lzw opts chunks then e = ErrClosedPipe \<and> res = None
     else e = ErrEOF \<and> res = close_result None (Some x))"
proof -
  let ?r0 = "NewReaderWithCloser (reader_of (written enc)) x opt"
  from decrypt_of_encrypted [OF assms(1-3)] obtain st where
    D: "Decrypt lzr (reader_of (written enc)) new_sink opt =
      (st, if full_chunks lzw opts chunks then Some ErrClosedPipe else None)" "written (dec_out st) = concat chunks"
    by blast
  from reader_reach_inv [OF assms(4)] have i: "rd_in r = reader_of (written enc)" "rd_opts r = opt"
    "rd_extra r = Some x" "bs = take (rd_taken r) (reader_output lzr ?r0)" by simp_all
  have run: "reader_run lzr r = (st, if full_chunks lzw opts chunks then Some ErrClosedPipe else None)"
    "reader_output lzr r = concat chunks" "reader_output lzr ?r0 = concat chunks"
    using D i by (simp_all add: reader_run_def reader_output_def)
  from assms(5,6) have fin: "r1 = r\<lparr>rd_ended := True\<rparr>" "rd_taken r = length (concat chunks)"
    "e = read_end (snd (reader_run lzr r))" using run by (auto elim: Read_endE)
  have "reader_run lzr r1 = reader_run lzr r" using fin(1) by (simp add: reader_run_def)
  moreover from assms(7) fin(1) assms(5) have "res = close_result (snd (reader_run lzr r1)) (rd_extra r1)"
    by (auto elim!: reader_Close.cases)
  ultimately have "res = close_result (snd (reader_run lzr r)) (Some x)" using fin(1) i(3) by simp
  with run fin i(4) show ?thesis
    by (auto simp: read_end_def close_result_def split: option.split)
qed

section \<open>Properties\<close>

text \<open>
  C31: Reading. Whatever calls a caller makes, the bytes it has got are a prefix of what \<open>Decrypt\<close> makes of the
  stream, and once there is one, \<open>Metadata\<close> is what \<open>Inspect\<close> reports. A call of \<open>Read\<close> on the open reader that
  reports an end reports \<open>Decrypt\<close>'s error, or \<open>io.EOF\<close> when the bytes are the complete, genuine plaintext.
\<close>

theorem reader_reads_plaintext:
  assumes "reader_reach lzr (NewReaderWithCloser src x opts) r bs"
  shows "prefix bs (written (dec_out (fst (Decrypt lzr src new_sink opts)))) \<and>
    (bs \<noteq> [] \<and> reader_Metadata lzr r m \<longrightarrow> (\<exists>snap. m = Some snap \<and> Inspect src = Inr snap)) \<and>
    (\<not> rd_closed r \<and> reader_Read lzr r n r' b (Some e) \<longrightarrow>
       snd (Decrypt lzr src new_sink opts) = Some e \<or> e = ErrEOF \<and> genuine lzr opts src bs)"
proof -
  let ?r0 = "NewReaderWithCloser src x opts"
  from reader_reach_inv [OF assms] have i: "rd_in r = src" "rd_opts r = opts"
    "bs = take (rd_taken r) (reader_output lzr ?r0)" by simp_all
  have same: "reader_run lzr r = Decrypt lzr src new_sink opts" "reader_output lzr r = reader_output lzr ?r0"
    using reader_run_same [of r ?r0 lzr] i by (simp_all add: reader_run_def)
  have "prefix bs (written (dec_out (fst (Decrypt lzr src new_sink opts))))"
    using i(3) by (simp add: reader_output_def reader_run_def take_is_prefix)
  moreover have "\<exists>snap. m = Some snap \<and> Inspect src = Inr snap" if "bs \<noteq> []" "reader_Metadata lzr r m"
  proof -
    from that(1) i(3) have ne: "reader_output lzr r \<noteq> []" "rd_taken r \<noteq> 0" by (auto simp: same)
    from reader_snapshot [OF ne(1)] that(2) ne(2) i(1) show ?thesis by (auto elim: reader_Metadata.cases)
  qed
  moreover have "snd (Decrypt lzr src new_sink opts) = Some e \<or> e = ErrEOF \<and> genuine lzr opts src bs"
    if "\<not> rd_closed r" "reader_Read lzr r n r' b (Some e)"
    using that(2)
  proof (cases rule: reader_Read.cases)
    case ended
    with i(3) same(2) have "bs = reader_output lzr ?r0" by simp
    then have bs: "bs = written (dec_out (fst (Decrypt lzr src new_sink opts)))"
      by (simp add: reader_output_def reader_run_def)
    show ?thesis
    proof (cases "snd (Decrypt lzr src new_sink opts)")
      case None
      then have "Decrypt lzr src new_sink opts = (fst (Decrypt lzr src new_sink opts), None)" by (metis prod.collapse)
      from Decrypt_genuine [OF this] bs None ended show ?thesis by (simp add: same read_end_def)
    qed (use ended in \<open>simp add: same read_end_def\<close>)
  qed (use that(1) in simp_all)
  ultimately show ?thesis by blast
qed

theorem reader_reads_plaintext_witness:
  "\<exists>src r r1 snap. reader_reach frame_reader (NewReaderWithCloser src None sample_secret) r [65, 66] \<and>
     reader_Metadata frame_reader r (Some snap) \<and> Inspect src = Inr snap \<and>
     reader_Read frame_reader r 1 r1 [] (Some ErrEOF) \<and> genuine frame_reader sample_secret src [65, 66]"
proof -
  obtain enc where E: "Encrypt frame_writer (reader_of []) [[65, 66]] ErrEOF new_sink (sample_opts False) = (enc, None)"
    using sample_Encrypt by blast
  let ?src = "reader_of (written enc)"
  obtain r bs r1 r2 e res where r: "reader_reach frame_reader (NewReaderWithCloser ?src None sample_secret) r bs"
    "\<not> rd_closed r" "reader_Read frame_reader r 1 r1 [] (Some e)" "reader_Close frame_reader r1 r2 res"
    using reads_all [of "NewReaderWithCloser ?src None sample_secret" frame_reader] by auto
  have nf: "\<not> full_chunks frame_writer (sample_opts False) [[65, 66]]" by (simp add: full_chunks_def)
  from reader_of_encrypted [OF E sample_fits sample_codec r] nf have e: "bs = [65, 66]" "e = ErrEOF" by simp_all
  from decrypt_of_encrypted [OF E sample_fits sample_codec] nf
  have D: "snd (Decrypt frame_reader ?src new_sink sample_secret) \<noteq> Some ErrEOF" by auto
  from decrypt_of_encrypted [OF E sample_fits sample_codec] reader_reach_inv [OF r(1)]
  have "reader_output frame_reader r \<noteq> []" by (auto simp: reader_output_def reader_run_def)
  from reader_snapshot [OF this] obtain snap where "d_snaps (fst (reader_run frame_reader r)) = [snap]" by blast
  then have m: "reader_Metadata frame_reader r (Some snap)" by (simp add: reader_Metadata.snapshot)
  from reader_reads_plaintext [OF r(1), of "Some snap" 1 r1 "[]" e] m r(2,3) D e
  have "Inspect ?src = Inr snap \<and> genuine frame_reader sample_secret ?src bs" by simp
  with r(1,3) m e show ?thesis by blast
qed

text \<open>
  C32: Closing. Whenever it is called, the first \<open>Close\<close> settles the result: closing again changes nothing and
  returns the same, and every further \<open>Read\<close> gets \<open>io.ErrClosedPipe\<close> and no bytes. What it reports is never an
  \<open>io.ErrClosedPipe\<close> and is the error \<open>Decrypt\<close> itself has on the stream or the closer's; so on a stream \<open>Decrypt\<close> accepts,
  a caller may walk away at any point without an error.
\<close>

theorem reader_close_settles:
  assumes "reader_reach lzr (NewReaderWithCloser src x opts) r bs" and "\<not> rd_closed r" and "reader_Close lzr r r1 res"
  shows "(\<forall>r2 res2. reader_Close lzr r1 r2 res2 \<longleftrightarrow> r2 = r1 \<and> res2 = res) \<and>
    (\<forall>n r2 b e. reader_Read lzr r1 n r2 b e \<longleftrightarrow> r2 = r1 \<and> b = [] \<and> e = Some ErrClosedPipe) \<and>
    (\<forall>e. res = Some e \<longrightarrow> \<not> err_is e ErrClosedPipe \<and> (snd (Decrypt lzr src new_sink opts) = Some e \<or> x = Some e))"
proof -
  from Close_closes [OF assms(3)] have c: "rd_closed r1" "rd_closeErr r1 = res" by simp_all
  from reader_reach_inv [OF assms(1)] have i: "rd_in r = src" "rd_opts r = opts" "rd_extra r = Some x" by simp_all
  obtain d where d: "res = close_result d (Some x)"
    "d = Some ErrClosedPipe \<or> d = snd (Decrypt lzr src new_sink opts)"
    using assms(3)
  proof (cases rule: reader_Close.cases)
    case again
    with assms(2) show ?thesis by simp
  next
    case whole
    with i that show ?thesis by (simp add: reader_run_def)
  next
    case (cut d)
    with i that Decrypt_cut [of lzr src "rd_taken r" ErrClosedPipe opts] show ?thesis by auto
  qed
  have "\<not> err_is e ErrClosedPipe \<and> (snd (Decrypt lzr src new_sink opts) = Some e \<or> x = Some e)" if "res = Some e" for e
    using d that close_result_not_closed [of d "Some x" e]
    by (auto simp: close_result_def Let_def split: option.splits if_splits)
  with closed_reader [OF c(1), where lzr = lzr] c(2) show ?thesis by simp
qed

theorem reader_close_settles_witness:
  "\<exists>r1 res. reader_Close frame_reader (NewReaderWithCloser (reader_of []) (Some ErrUnexpectedEOF) sample_secret) r1 res \<and>
     (\<forall>r2 res2. reader_Close frame_reader r1 r2 res2 \<longleftrightarrow> r2 = r1 \<and> res2 = res)"
proof -
  let ?r = "NewReaderWithCloser (reader_of []) (Some ErrUnexpectedEOF) sample_secret"
  obtain r1 res where c: "reader_Close frame_reader ?r r1 res"
    using reader_Close.cut [of ?r "Some ErrClosedPipe" frame_reader] by auto
  from reader_close_settles [OF reader_reach.start _ c] c show ?thesis by auto
qed

text \<open>
  C30: Reading an encrypted file through \<open>OpenFile\<close>. A caller with the fitting secret that reads until \<open>Read\<close> reports
  an end has then got exactly the plaintext, the end is \<open>io.EOF\<close>, and \<open>Close\<close> returns nil (with
  compression, unless the frame ends exactly with a full data chunk).
\<close>

theorem reader_round_trip:
  assumes "Encrypt lzw crand chunks inEnd new_sink opts = (enc, None)"
    and "secret_fits opts (oPassword opt) (oPrivateKey opt)" and "codec_ok lzw lzr opts"
    and "\<not> full_chunks lzw opts chunks"
    and "os_Open fs p = Inr (reader_of (written enc))" and "os_Close (fs_key fs p) fs = None"
    and "OpenFile fs p opt = Inr r0" and "reader_reach lzr r0 r bs" and "\<not> rd_closed r"
    and "reader_Read lzr r n r1 b (Some e)" and "reader_Close lzr r1 r2 res"
  shows "bs = concat chunks \<and> e = ErrEOF \<and> res = None"
proof -
  from assms(5-8) have "reader_reach lzr (NewReaderWithCloser (reader_of (written enc)) None opt) r bs"
    by (simp add: OpenFile_def)
  from reader_of_encrypted [OF assms(1-3) this assms(9-11)] assms(4) show ?thesis
    by (simp add: close_result_def)
qed

theorem reader_round_trip_witness:
  "\<exists>fs r0 r. OpenFile fs ''in'' sample_secret = Inr r0 \<and> reader_reach frame_reader r0 r [65, 66]"
proof -
  obtain enc where E: "Encrypt frame_writer (reader_of []) [[65, 66]] ErrEOF new_sink (sample_opts False) = (enc, None)"
    using sample_Encrypt by blast
  let ?fs = "sample_fs (written enc)"
  have op: "os_Open ?fs ''in'' = Inr (reader_of (written enc))"
    using calm_Open [OF sample_calm, of "''in''" "written enc" "written enc" 7] by (simp add: sample_nodes sample_keys)
  have cl: "os_Close (fs_key ?fs ''in'') ?fs = None" by (simp add: os_Close_def sample_fs_def)
  from op cl have r0: "OpenFile ?fs ''in'' sample_secret = Inr (NewReaderWithCloser (reader_of (written enc)) None sample_secret)"
    by (simp add: OpenFile_def)
  obtain r bs r1 r2 e res where r: "reader_reach frame_reader (NewReaderWithCloser (reader_of (written enc)) None sample_secret) r bs"
    "\<not> rd_closed r" "reader_Read frame_reader r 1 r1 [] (Some e)" "reader_Close frame_reader r1 r2 res"
    using reads_all [of "NewReaderWithCloser (reader_of (written enc)) None sample_secret" frame_reader] by auto
  have "\<not> full_chunks frame_writer (sample_opts False) [[65, 66]]" by (simp add: full_chunks_def)
  from reader_round_trip [OF E sample_fits sample_codec this op cl r0 r] r(1) r0 show ?thesis by auto
qed

text \<open>
  C33: The error of a valid stream that is lost. When the frame ends exactly with a full data chunk, a caller
  that reads to the end gets the whole plaintext and then \<open>io.ErrClosedPipe\<close> in place of \<open>io.EOF\<close>, and \<open>Close\<close> takes
  this for a caller that has walked away: it returns nil, even when the closer has failed.
\<close>

theorem reader_full_chunks:
  assumes "Encrypt lzw crand chunks inEnd new_sink opts = (enc, None)"
    and "secret_fits opts (oPassword opt) (oPrivateKey opt)" and "codec_ok lzw lzr opts"
    and "full_chunks lzw opts chunks"
    and "reader_reach lzr (NewReaderWithCloser (reader_of (written enc)) x opt) r bs" and "\<not> rd_closed r"
    and "reader_Read lzr r n r1 b (Some e)" and "reader_Close lzr r1 r2 res"
  shows "bs = concat chunks \<and> e = ErrClosedPipe \<and> res = None"
  using reader_of_encrypted [OF assms(1-3,5-8)] assms(4) by simp

theorem reader_full_chunks_witness:
  "\<exists>src r1 r2 r3. reader_reach frame_reader (NewReaderWithCloser src None sample_secret) r1 (replicate 16383 7) \<and>
     reader_Read frame_reader r1 1 r2 [] (Some ErrClosedPipe) \<and> reader_Close frame_reader r2 r3 None"
proof -
  obtain enc where E: "Encrypt frame_writer (reader_of []) [replicate 16383 7] ErrEOF new_sink (sample_opts True) = (enc, None)"
    using sample_Encrypt by blast
  obtain r bs r1 r2 e res where r: "reader_reach frame_reader (NewReaderWithCloser (reader_of (written enc)) None sample_secret) r bs"
    "\<not> rd_closed r" "reader_Read frame_reader r 1 r1 [] (Some e)" "reader_Close frame_reader r1 r2 res"
    using reads_all [of "NewReaderWithCloser (reader_of (written enc)) None sample_secret" frame_reader] by auto
  have "full_chunks frame_writer (sample_opts True) [replicate 16383 7]"
    by (simp add: full_chunks_def length_frame writes_def dataChunkSize_def)
  from reader_full_chunks [OF E sample_fits sample_codec this r] have
    "bs = replicate 16383 7" "e = ErrClosedPipe" "res = None" by simp_all
  with r show ?thesis by blast
qed

end
