(* ===== verification/TempNames.thy ===== *)
theory TempNames
  imports BatchRuns
begin

text \<open>
  Why \<open>batch_ok\<close> asks for random numbers that do not repeat. \<open>CreateTemp\<close> never returns a name that is taken, but a
  name is free again as soon as its file has been renamed, and the deferred \<open>os.Remove\<close> of the job that had it
  comes later: a second job that draws the number in between loses its file to the first.
\<close>

section \<open>The steps of a job that goes well\<close>

lemma mkdir_from_exists: "fs_wf fs \<Longrightarrow> node_at fs (k @ xs) = Some DirNode \<Longrightarrow> mkdir_from k xs fs = (fs, None)"
proof (induction xs arbitrary: k)
  case (Cons x xs)
  have "node_at fs (k @ [x]) = Some DirNode"
    using Cons.prems fs_wf_above [of fs "k @ [x]"] by (cases xs) auto
  with Cons show ?case by simp
qed simp

lemma make_parents_exists:
  "fs_wf fs \<Longrightarrow> node_at fs (fs_key fs (Dir out)) = Some DirNode \<Longrightarrow> make_parents out fs = (fs, None)"
  using mkdir_from_exists [of fs "[]"] by (simp add: make_parents_def Let_def os_MkdirAll_def)

lemma job_writes:
  assumes "calm fs" and "fs_wf fs" and "\<not> jc_skip jc" and "jk_ok (jc_kind jc)"
    and "os_Open fs (inPath u) = Inr src" and "jk_run (jc_kind jc) (inPath u) src new_sink = (s, None)"
    and "fs_key fs (Dir (outPath u)) = d" and "node_at fs d = Some DirNode"
    and "fs_rand fs = n # ns" and "tmp = d @ [jk_pat (jc_kind jc) @ dec_digits n]" and "node_at fs tmp = None"
  shows "\<exists>fs'. (job_step jc u ^^ 5) (JCheck, fs) = (JFile (FWritten tmp None), fs') \<and>
    fs_conf fs' = fs_conf fs \<and> fs_rand fs' = ns \<and> fs_wf fs' \<and>
    (\<forall>k. node_at fs' k = (if k = tmp then Some (FileNode (written s) (fs_clock fs)) else node_at fs k))"
proof -
  let ?fs1 = "put_node tmp (FileNode [] (fs_clock fs)) (fs\<lparr>fs_rand := ns\<rparr>)"
  let ?fs2 = "temp_store tmp s ?fs1"
  have t: "tmp \<noteq> []" using assms(10) by simp
  have "draw 10000 (\<lambda>n. node_at fs (d @ [jk_pat (jc_kind jc) @ dec_digits n]) = None) (n # ns) = Some (n, ns)"
    using assms(10,11) by (simp add: numeral_eq_Suc)
  then have tmp: "os_CreateTemp (Dir (outPath u)) (jk_pat (jc_kind jc)) fs = Inr (tmp, ?fs1)"
    using assms(1,7-10) by (simp add: os_CreateTemp_def Let_def calm_def)
  have sink: "temp_sink ?fs1 tmp = new_sink"
    using assms(1) by (simp add: temp_sink_def calm_def new_sink_def put_node_def)
  have steps: "(job_step jc u ^^ 5) (JCheck, fs) = (JFile (FWritten tmp None), ?fs2)"
    using assms(3,5-8) make_parents_exists [OF assms(2)] tmp sink
    by (simp add: numeral_eq_Suc funpow_Suc_right skips_def del: funpow.simps)
  have "fs_wf ?fs1" using CreateTemp_wf [OF tmp assms(2,4)] .
  then have "fs_wf ?fs2" using t by (intro temp_store_wf) simp_all
  moreover have "fs_clock ?fs1 = fs_clock fs" by (simp add: put_node_def)
  ultimately show ?thesis using steps t by (intro exI [of _ ?fs2]) simp
qed

lemma job_moves:
  assumes "calm fs" and "node_at fs tmp = Some (FileNode c t)" and "outPath u \<noteq> []" and "fs_key fs (outPath u) = k"
    and "node_at fs k \<noteq> Some DirNode" and "node_at fs (butlast k) = Some DirNode"
  shows "job_step jc u (JFile (FWritten tmp None), fs) =
    (JFile (FMoved tmp None), put_node k (FileNode c t) (del_node tmp fs))"
  using assms by (simp add: move_temp_def os_Close_def os_Rename_def calm_def Let_def)

lemma job_move_fails:
  assumes "calm fs" and "node_at fs tmp = None" and "outPath u \<noteq> []" and "node_at fs (fs_key fs (outPath u)) \<noteq> Some DirNode"
  shows "(job_step jc u ^^ 3) (JFile (FWritten tmp None), fs) =
    (JDone ((event_of u EventFailed)\<lparr>evErr := Some ENOENT\<rparr>) [], fs)"
  using assms
  by (simp add: numeral_eq_Suc funpow_Suc_right move_temp_def os_Close_def os_Rename_def os_Remove_def calm_def Let_def
      del: funpow.simps)

lemma job_removes:
  assumes "calm fs" and "node_at fs tmp = Some (FileNode c t)"
  shows "job_step jc u (JFile (FMoved tmp None), fs) = (JFile (FEnd None), del_node tmp fs)"
  using assms by (simp add: os_Remove_def calm_def)

lemma after_success_frame:
  assumes "after_success jc u fs = (fs', ev, logs)"
  shows "fs_conf fs' = fs_conf fs" and "k \<noteq> fs_key fs (outPath u) \<Longrightarrow> node_at fs' k = node_at fs k"
proof -
  have "fs' = fs \<or> (\<exists>t. fs' = fst (os_Chtimes (outPath u) t fs))"
    using assms by (auto simp: after_success_def Let_def split: if_splits sum.splits prod.splits)
  then have "fs' = fs \<or> (\<exists>t r. os_Chtimes (outPath u) t fs = (fs', r))" by (metis prod.collapse)
  then show "fs_conf fs' = fs_conf fs" "k \<noteq> fs_key fs (outPath u) \<Longrightarrow> node_at fs' k = node_at fs k"
    using Chtimes_node(1,3) by blast+
qed

section \<open>A number drawn twice\<close>

text \<open>The four pieces of the run, on two running jobs.\<close>

lemma race_reach:
  assumes "(job_step jc u ^^ l) (JCheck, fs) = (j1, fs1)" and "(job_step jc v ^^ m) (JCheck, fs1) = (j2, fs2)"
    and "(job_step jc u ^^ k) (j1, fs2) = (JDone evu logsu, fs3)" and "(job_step jc v ^^ n) (j2, fs3) = (JDone evv logsv, fs4)"
    and "2 \<le> w"
  shows "batch_reach jc w (start_batch [u, v] [] fs)
    (close_job evv logsv (close_job evu logsu ((start_batch [u, v] [] fs)\<lparr>bt_queue := [], bt_fs := fs4\<rparr>)))"
proof -
  let ?b = "\<lambda>q r f. (start_batch [u, v] [] fs)\<lparr>bt_queue := q, bt_running := r, bt_fs := f\<rparr>"
  have s: "start_batch [u, v] [] fs = ?b [u, v] [] fs" by (simp add: start_batch_def)
  have 1: "batch_reach jc w (?b [u, v] [] fs) (?b [v] [(u, JCheck)] fs)"
    using launch_reach [of "?b [u, v] [] fs" u "[v]" w jc] assms(5) by (simp add: start_batch_def)
  have 2: "batch_reach jc w (?b [v] [(u, JCheck)] fs) (?b [] [(u, JCheck), (v, JCheck)] fs)"
    using launch_reach [of "?b [v] [(u, JCheck)] fs" v "[]" w jc] assms(5) by (simp add: start_batch_def)
  have 3: "batch_reach jc w (?b [] [(u, JCheck), (v, JCheck)] fs) (?b [] [(u, j1), (v, JCheck)] fs1)"
    using job_steps_reach [of l jc u JCheck "?b [] [(u, JCheck), (v, JCheck)] fs" j1 fs1 "[]" "[(v, JCheck)]" w] assms(1)
    by simp
  have 4: "batch_reach jc w (?b [] [(u, j1), (v, JCheck)] fs1) (?b [] [(u, j1), (v, j2)] fs2)"
    using job_steps_reach [of m jc v JCheck "?b [] [(u, j1), (v, JCheck)] fs1" j2 fs2 "[(u, j1)]" "[]" w] assms(2) by simp
  have 5: "batch_reach jc w (?b [] [(u, j1), (v, j2)] fs2) (?b [] [(u, JDone evu logsu), (v, j2)] fs3)"
    using job_steps_reach [of k jc u j1 "?b [] [(u, j1), (v, j2)] fs2" "JDone evu logsu" fs3 "[]" "[(v, j2)]" w] assms(3)
    by simp
  have 6: "batch_reach jc w (?b [] [(u, JDone evu logsu), (v, j2)] fs3) (?b [] [(u, JDone evu logsu), (v, JDone evv logsv)] fs4)"
    using job_steps_reach [of n jc v j2 "?b [] [(u, JDone evu logsu), (v, j2)] fs3" "JDone evv logsv" fs4
        "[(u, JDone evu logsu)]" "[]" w] assms(4) by simp
  have 7: "batch_reach jc w (?b [] [(u, JDone evu logsu), (v, JDone evv logsv)] fs4)
      (close_job evu logsu (?b [] [(v, JDone evv logsv)] fs4))"
    using close_reach [of "?b [] [(u, JDone evu logsu), (v, JDone evv logsv)] fs4" "[]" u evu logsu "[(v, JDone evv logsv)]" jc w]
    by (simp add: start_batch_def)
  have 8: "batch_reach jc w (close_job evu logsu (?b [] [(v, JDone evv logsv)] fs4))
      (close_job evv logsv (close_job evu logsu (?b [] [] fs4)))"
    using close_reach [of "close_job evu logsu (?b [] [(v, JDone evv logsv)] fs4)" "[]" v evv logsv "[]" jc w]
    by (simp add: close_job_def start_batch_def)
  have "batch_reach jc w (?b [u, v] [] fs) (close_job evv logsv (close_job evu logsu (?b [] [] fs4)))"
    by (rule batch_reach_trans [OF 8 batch_reach_trans [OF 7 batch_reach_trans [OF 6 batch_reach_trans [OF 5
      batch_reach_trans [OF 4 batch_reach_trans [OF 3 batch_reach_trans [OF 2 1]]]]]]])
  then show ?thesis by (simp add: s [symmetric]) (simp add: start_batch_def)
qed

lemma race:
  assumes "calm fs" and "fs_wf fs" and "\<not> jc_skip jc" and "jk_ok (jc_kind jc)" and "2 \<le> w"
    and "os_Open fs (inPath u) = Inr su" and "jk_run (jc_kind jc) (inPath u) su new_sink = (xu, None)"
    and "os_Open fs (inPath v) = Inr sv" and "jk_run (jc_kind jc) (inPath v) sv new_sink = (xv, None)"
    and "fs_key fs (Dir (outPath u)) = d" and "fs_key fs (Dir (outPath v)) = d" and "node_at fs d = Some DirNode"
    and "outPath u \<noteq> []" and "fs_key fs (outPath u) = ku" and "butlast ku = d" and "ku \<noteq> []" and "node_at fs ku \<noteq> Some DirNode"
    and "outPath v \<noteq> []" and "fs_key fs (outPath v) = kv" and "kv \<noteq> ku" and "node_at fs kv \<noteq> Some DirNode"
    and "fs_key fs (inPath v) \<noteq> ku" and "fs_rand fs = n # n # ns"
    and "tmp = d @ [jk_pat (jc_kind jc) @ dec_digits n]" and "node_at fs tmp = None" and "ku \<noteq> tmp" and "kv \<noteq> tmp"
  shows "\<exists>evu logs fs4. batch_reach jc w (start_batch [u, v] [] fs)
      (close_job ((event_of v EventFailed)\<lparr>evErr := Some ENOENT\<rparr>) []
        (close_job evu logs ((start_batch [u, v] [] fs)\<lparr>bt_queue := [], bt_fs := fs4\<rparr>))) \<and>
    evKind evu = EventSucceeded \<and> node_at fs4 kv = node_at fs kv"
proof -
  let ?tick = "fs_clock fs"
  have t: "tmp \<noteq> []" using assms(24) by simp
  from job_writes [OF assms(1-4,6,7,10,12,23-25)] obtain f1 where f1: "(job_step jc u ^^ 5) (JCheck, fs) = (JFile (FWritten tmp None), f1)" "fs_conf f1 = fs_conf fs"
    "fs_rand f1 = n # ns" "fs_wf f1" "\<And>k. node_at f1 k = (if k = tmp then Some (FileNode (written xu) ?tick) else node_at fs k)"
    by blast
  note c1 = calm_conf [OF f1(2) assms(1)] and k1 = fs_confD(6) [OF f1(2)]
  let ?f2 = "put_node ku (FileNode (written xu) ?tick) (del_node tmp f1)"
  have m: "job_step jc u (JFile (FWritten tmp None), f1) = (JFile (FMoved tmp None), ?f2)"
  proof (rule job_moves [OF c1 _ assms(13)])
    have "d \<noteq> tmp" using assms(24) by (metis append_self_conv list.distinct(1))
    then show "node_at f1 (butlast ku) = Some DirNode" using assms(12,15) by (simp add: f1(5))
  qed (use assms(14,17,26) in \<open>simp_all add: f1(5) k1\<close>)
  have s1: "(job_step jc u ^^ Suc 5) (JCheck, fs) = (JFile (FMoved tmp None), ?f2)"
    by (simp only: funpow.simps(2) comp_apply f1(1) m)
  have n2: "node_at ?f2 k = (if k = ku then Some (FileNode (written xu) ?tick) else if k = tmp then None else node_at fs k)" for k
    using assms(16) t by (simp add: f1(5))
  have "move_temp (outPath u) tmp None f1 = (?f2, None)" using m by (cases "move_temp (outPath u) tmp None f1") simp
  from move_temp_wf [OF this t f1(4)] have wf2: "fs_wf ?f2" .
  have cf2: "fs_conf ?f2 = fs_conf fs" by (simp add: f1(2))
  note c2 = calm_conf [OF cf2 assms(1)] and k2 = fs_confD(6) [OF cf2]
  have "node_at fs (fs_key fs (inPath v)) \<noteq> None" using assms(8) by (auto simp: os_Open_def Let_def split: if_splits option.splits)
  then have "fs_key fs (inPath v) \<noteq> tmp" using assms(25) by auto
  then have op: "os_Open ?f2 (inPath v) = Inr sv"
    using os_Open_same [OF cf2, of "inPath v"] n2 assms(8,22) by simp
  have d2: "node_at ?f2 d = Some DirNode" using n2 [of d] assms(12,15,16,24) by (metis append_butlast_last_id append_self_conv list.distinct(1))
  have "fs_key ?f2 (Dir (outPath v)) = d" "fs_rand ?f2 = n # ns" "node_at ?f2 tmp = None"
    using assms(11,26) n2 [of tmp] by (simp_all only: k2 fs_rand_put f1(3) if_False) simp_all
  from job_writes [OF c2 wf2 assms(3,4) op assms(9) this(1) d2 this(2) assms(24) this(3)] obtain f3 where f3: "(job_step jc v ^^ 5) (JCheck, ?f2) = (JFile (FWritten tmp None), f3)" "fs_conf f3 = fs_conf ?f2"
    "fs_rand f3 = ns" "fs_wf f3" "\<And>k. node_at f3 k = (if k = tmp then Some (FileNode (written xv) (fs_clock ?f2)) else node_at ?f2 k)"
    by blast
  have cf3: "fs_conf f3 = fs_conf fs" using f3(2) cf2 by simp
  note c3 = calm_conf [OF cf3 assms(1)]
  obtain f4 evu logs where a: "after_success jc u (del_node tmp f3) = (f4, evu, logs)"
    by (cases "after_success jc u (del_node tmp f3)") auto
  have "job_step jc u (JFile (FMoved tmp None), f3) = (JFile (FEnd None), del_node tmp f3)"
    by (rule job_removes [OF c3]) (simp add: f3(5))
  then have s3: "(job_step jc u ^^ 2) (JFile (FMoved tmp None), f3) = (JDone evu logs, f4)"
    by (simp add: numeral_2_eq_2 a)
  have cf4: "fs_conf f4 = fs_conf fs" using after_success_frame(1) [OF a] cf3 by simp
  note c4 = calm_conf [OF cf4 assms(1)] and k4 = fs_confD(6) [OF cf4]
  have "fs_key (del_node tmp f3) (outPath u) = ku" using fs_confD(6) [of "del_node tmp f3" fs] cf3 assms(14) by simp
  then have n4: "node_at f4 k = (if k = tmp then None else node_at fs k)" if "k \<noteq> ku" for k
    using after_success_frame(2) [OF a, of k] that t f3(5) n2 by simp
  have s4: "(job_step jc v ^^ 3) (JFile (FWritten tmp None), f4) = (JDone ((event_of v EventFailed)\<lparr>evErr := Some ENOENT\<rparr>) [], f4)"
    using n4 assms(18-21,26,27) by (intro job_move_fails [OF c4]) (simp_all add: k4)
  from after_success_event [OF a] have "evKind evu = EventSucceeded" by (auto simp: event_of_def)
  with race_reach [OF s1 f3(1) s3 s4 assms(5)] n4 [OF assms(20)] assms(27) show ?thesis by auto
qed

text \<open>
  C27: A temporary name used again loses a file. Two units have their outputs in the same directory, and
  \<open>DecryptFile\<close> would succeed on either of them. When \<open>CreateTemp\<close> draws the same number for both, the second draw coming after
  the first job's rename, there is a run of the batch in which the first job's deferred \<open>os.Remove\<close> removes the
  second job's written file: the second unit fails and has no new output.
\<close>

theorem reused_temp_name_fails_job:
  assumes "calm fs" and "fs_wf fs" and "2 \<le> w" and "\<not> bSkipExisting cfg"
    and "opts = \<lparr>oPassword = bPassword cfg, oPrivateKey = bPrivateKey cfg\<rparr>"
    and "os_Open fs (inPath u) = Inr su" and "Decrypt lzr su new_sink opts = (stu, None)"
    and "os_Open fs (inPath v) = Inr sv" and "Decrypt lzr sv new_sink opts = (stv, None)"
    and "out_ok fs (outPath u)" and "out_ok fs (outPath v)"
    and "\<not> temp_name (decrypt_kind lzr opts) (fs_key fs (outPath u))" and "\<not> temp_name (decrypt_kind lzr opts) (fs_key fs (outPath v))"
    and "fs_key fs (Dir (outPath u)) = d" and "fs_key fs (Dir (outPath v)) = d" and "node_at fs d = Some DirNode"
    and "fs_key fs (outPath u) \<noteq> fs_key fs (outPath v)" and "fs_key fs (inPath v) \<noteq> fs_key fs (outPath u)"
    and "fs_rand fs = n # n # ns" and "node_at fs (d @ [''.csenc-'' @ dec_digits n]) = None"
  shows "(\<exists>fs'. DecryptFile lzr (inPath v) (outPath v) opts fs = (fs', None)) \<and>
    (\<exists>b ev. batch_reach (decrypt_conf lzr cfg) w (start_batch [u, v] [] fs) b \<and> finished b \<and>
       ev \<in> set (bt_events b) \<and> unit_of ev = v \<and> evKind ev = EventFailed \<and> rpFailed (bt_rep b) = 1 \<and>
       node_at (bt_fs b) (fs_key fs (outPath v)) = node_at fs (fs_key fs (outPath v)))"
proof
  let ?jc = "decrypt_conf lzr cfg" and ?jk = "decrypt_kind lzr opts" and ?tmp = "d @ [''.csenc-'' @ dec_digits n]"
  let ?ku = "fs_key fs (outPath u)" and ?kv = "fs_key fs (outPath v)"
  have jc: "jc_kind ?jc = ?jk" "\<not> jc_skip ?jc" using assms(4,5) by (simp_all add: decrypt_conf_def)
  have run: "jk_run ?jk p su new_sink = (dec_out stu, None)" "jk_run ?jk p sv new_sink = (dec_out stv, None)" for p
    using assms(7,9) by (simp_all add: decrypt_kind_def)
  have "temp_name ?jk ?tmp" by (auto simp: temp_name_def)
  then have ne: "?ku \<noteq> ?tmp" "?kv \<noteq> ?tmp" using assms(12,13) by auto
  have out: "fs_key fs p = fs_key fs (Dir p) @ [Base p]" "node_at fs (fs_key fs p) \<noteq> Some DirNode" "p \<noteq> []" if "out_ok fs p" for p
    using that fs_key_out [of "Base p" p fs] by (auto simp: out_ok_def upto_slash_def Base_def plain_def elem_ok_def)
  have "name_free ?jk (outPath v) fs" using assms(15,19,20) by (simp add: name_free_def)
  from crypt_file_succeeds [OF assms(1,8) run(2) assms(11) this assms(13,2)]
  show "\<exists>fs'. DecryptFile lzr (inPath v) (outPath v) opts fs = (fs', None)" by (auto simp: DecryptFile_def)
  let ?start = "start_batch [u, v] [] fs" and ?ev = "(event_of v EventFailed)\<lparr>evErr := Some ENOENT\<rparr>"
  have "jk_run (jc_kind ?jc) (inPath u) su new_sink = (dec_out stu, None)"
    "jk_run (jc_kind ?jc) (inPath v) sv new_sink = (dec_out stv, None)" "jk_ok (jc_kind ?jc)"
    "?tmp = d @ [jk_pat (jc_kind ?jc) @ dec_digits n]" "butlast ?ku = d" "?ku \<noteq> []" "?kv \<noteq> ?ku"
    using run out(1) [OF assms(10)] assms(14,17) by (simp_all add: jc)
  from race [OF assms(1,2) jc(2) this(3) assms(3,6) this(1) assms(8) this(2) assms(14-16) out(3) [OF assms(10)] refl
      this(5,6) out(2) [OF assms(10)] out(3) [OF assms(11)] refl this(7) out(2) [OF assms(11)] assms(18,19) this(4) assms(20) ne]
  obtain evu logs fs4 where b: "batch_reach ?jc w ?start (close_job ?ev [] (close_job evu logs (?start\<lparr>bt_queue := [], bt_fs := fs4\<rparr>)))"
    "evKind evu = EventSucceeded" "node_at fs4 ?kv = node_at fs ?kv"
    by blast
  let ?b = "close_job ?ev [] (close_job evu logs (?start\<lparr>bt_queue := [], bt_fs := fs4\<rparr>))"
  have "finished ?b" "?ev \<in> set (bt_events ?b)" "node_at (bt_fs ?b) ?kv = node_at fs ?kv" "rpFailed (bt_rep ?b) = 1"
    using b(2,3) by (simp_all add: close_job_def finished_def start_batch_def record_error_def count_event_def
        empty_report_def event_of_def)
  moreover have "unit_of ?ev = v" "evKind ?ev = EventFailed" by (simp_all add: event_of_def unit_of_def)
  ultimately show "\<exists>b ev. batch_reach ?jc w ?start b \<and> finished b \<and> ev \<in> set (bt_events b) \<and> unit_of ev = v \<and>
      evKind ev = EventFailed \<and> rpFailed (bt_rep b) = 1 \<and> node_at (bt_fs b) ?kv = node_at fs ?kv"
    using b(1) by blast
qed

definition sample_pair :: "bytes \<Rightarrow> fsys" where
  "sample_pair c = (sample_fs c)\<lparr>fs_nodes := [([''in''], FileNode c 7), ([''jn''], FileNode c 7)], fs_rand := [1, 1]\<rparr>"

lemma sample_pair_facts:
  "calm (sample_pair c)" "fs_wf (sample_pair c)" "fs_cwd (sample_pair c) = []" "fs_rand (sample_pair c) = [1, 1]"
  "node_at (sample_pair c) k = (if k = [] then Some DirNode else if k = [''in''] \<or> k = [''jn''] then Some (FileNode c 7) else None)"
proof -
  show n: "node_at (sample_pair c) k = (if k = [] then Some DirNode else if k = [''in''] \<or> k = [''jn''] then Some (FileNode c 7) else None)"
    for k by (simp add: node_at_def sample_pair_def)
  show "calm (sample_pair c)" using sample_calm [of c] by (simp add: calm_def sample_pair_def)
  show "fs_wf (sample_pair c)"
    by (auto simp: fs_wf_def n) (simp_all add: sample_pair_def plain_def elem_ok_def)
qed (simp_all add: sample_pair_def)

lemma sample_pair_paths:
  "Dir ''f'' = ''.''" "Base ''f'' = ''f''" "upto_slash ''f'' = []"
  "fs_cwd fs = [] \<Longrightarrow> fs_key fs ''jn'' = [''jn'']" "fs_cwd fs = [] \<Longrightarrow> fs_key fs ''f'' = [''f'']"
  by (code_simp+, simp_all add: fs_key_def rooted_def push_elem_def)

theorem reused_temp_name_fails_job_witness:
  "\<exists>c b ev. batch_reach (decrypt_conf frame_reader (sample_config [''.''])) 2
       (start_batch [\<lparr>inPath = ''in'', outPath = ''e'', usize = 0\<rparr>, \<lparr>inPath = ''jn'', outPath = ''f'', usize = 0\<rparr>] [] (sample_pair c)) b \<and>
     finished b \<and> ev \<in> set (bt_events b) \<and> evInput ev = ''jn'' \<and> evKind ev = EventFailed \<and>
     node_at (bt_fs b) [''f''] = None"
proof -
  obtain c st where c: "Decrypt frame_reader (reader_of c) new_sink sample_secret = (st, None)" using sample_stream by blast
  let ?fs = "sample_pair c"
  let ?u = "\<lparr>inPath = ''in'', outPath = ''e'', usize = 0\<rparr> :: job_unit" and ?v = "\<lparr>inPath = ''jn'', outPath = ''f'', usize = 0\<rparr> :: job_unit"
  note f = sample_pair_facts [of c] and keys = sample_keys [OF f(3)] sample_pair_paths(4,5) [OF f(3)]
  have op: "os_Open ?fs ''in'' = Inr (reader_of c)" "os_Open ?fs ''jn'' = Inr (reader_of c)"
    using calm_Open [OF f(1), of _ c 7] by (simp_all add: f(5) keys)
  have out: "out_ok ?fs ''e''" "out_ok ?fs ''f''"
    by (simp_all add: out_ok_def sample_paths sample_pair_paths(1-3) keys f(5) plain_def elem_ok_def)
  have "\<not> temp_name (decrypt_kind frame_reader sample_secret) (fs_key ?fs ''e'')"
    "\<not> temp_name (decrypt_kind frame_reader sample_secret) (fs_key ?fs ''f'')"
    by (rule not_temp_name; simp add: keys)+
  note nt = this
  have "\<not> bSkipExisting (sample_config [''.''])" and
    opts: "sample_secret = \<lparr>oPassword = bPassword (sample_config [''.'']), oPrivateKey = bPrivateKey (sample_config [''.''])\<rparr>"
    by (simp_all add: sample_config_def sample_secret_def)
  from reused_temp_name_fails_job [of ?fs 2 "sample_config [''.'']" sample_secret ?u "reader_of c" frame_reader st ?v
      "reader_of c" st "[]" 1 "[]"] this f op c out nt
  obtain b ev where "batch_reach (decrypt_conf frame_reader (sample_config [''.''])) 2 (start_batch [?u, ?v] [] ?fs) b"
    "finished b" "ev \<in> set (bt_events b)" "unit_of ev = ?v" "evKind ev = EventFailed"
    "node_at (bt_fs b) (fs_key ?fs ''f'') = node_at ?fs (fs_key ?fs ''f'')"
    by (auto simp: keys sample_paths sample_pair_paths(1-3))
  then show ?thesis by (intro exI [of _ c] exI [of _ b] exI [of _ ev]) (auto simp: keys f(5) unit_of_def)
qed

end
