(* ===== verification/Spec2Isabelle.thy ===== *)
theory Spec2Isabelle
  imports EndToEnd CliExit ReaderCorrect TempNames
begin

text \<open>
  A model of cloudsync-decrypt, a decoder and encoder for the file format of Synology Cloud Sync, written in
  Go: the package \<open>src/csenc\<close> and the command \<open>src/cmd/cloudsync-decrypt\<close>.

  \<^bold>\<open>The program.\<close> An encrypted file is a 49-byte header, then a stream of tagged objects: dicts of metadata,
  dicts that carry the payload in chunks, and a last dict with the MD5 of the plaintext. The payload is an
  LZ4 frame (or the bytes themselves), padded and encrypted with AES-CBC under a session key, which the
  metadata hold wrapped with a password, with an RSA public key, or both. \<open>Encrypt\<close> (a streaming \<open>Writer\<close>)
  makes such a stream and \<open>Decrypt\<close> reads it; \<open>EncryptFile\<close> and \<open>DecryptFile\<close> run them between files through a
  temporary file; \<open>Batch\<close> and the encryption batch of the command run these on many files at once; \<open>Reader\<close>
  offers the plaintext as an \<open>io.ReadCloser\<close>; the command parses flags and chooses among all of this.

  \<^bold>\<open>The theories\<close>, in the order of their imports.

  \<^item> \<open>Prelude\<close>, \<open>GoBytes\<close>, \<open>GoIO\<close>: bytes, errors, encodings, readers and writers; the interface \<open>io_writer\<close>.
  \<^item> \<open>Digest\<close>, \<open>Cipher\<close>, \<open>Rsa\<close>: MD5, SHA-1, AES, CBC and OAEP from their standards (\<open>crypto/*\<close>), with the
    interfaces \<open>hash_function\<close> and \<open>block_cipher\<close>.
  \<^item> \<open>Wire\<close> (\<open>wire.go\<close>), \<open>WireEncoder\<close>, \<open>Padding\<close>, \<open>Kdf\<close> (\<open>kdf.go\<close>, \<open>hash.go\<close>), \<open>Magic\<close> (\<open>csenc.go\<close>): the object stream with
    its reference encoding \<open>enc_value\<close>, the encoders of \<open>encrypt.go\<close> as instances of the interface \<open>emitter\<close>.
  \<^item> \<open>Writer\<close>, \<open>WriterCorrect\<close>, \<open>EncryptTotal\<close> (\<open>encrypt.go\<close>): the stages of the writer; each is an \<open>io_writer\<close>, and
    their contracts compose to the stream \<open>csenc_stream\<close> that a successful run leaves; when a run succeeds.
  \<^item> \<open>Metadata\<close>, \<open>SessionKey\<close>, \<open>Pipe\<close>, \<open>Decrypt\<close>, \<open>DecryptCorrect\<close>, \<open>DecryptSafety\<close>, \<open>EndToEnd\<close> (\<open>decrypt.go\<close>): the
    metadata, the recovery of the key, the pipeline with its LZ4 goroutine, and the loop; what they do on the
    writer's streams and, by an invariant of the loop, on any stream.
  \<^item> \<open>Paths\<close>, \<open>FileSys\<close>, \<open>Files\<close>, \<open>FileSuccess\<close> (\<open>file.go\<close>, \<open>EncryptFile\<close> and \<open>LoadRSAPublicKey\<close> of \<open>encrypt.go\<close>): paths as
    \<open>path/filepath\<close> computes them, a file system with faults, the temporary-file protocol \<open>crypt_file\<close> common
    to both directions and the interface \<open>crypt_job\<close> to what it computes, instantiated for both.
  \<^item> \<open>Jobs\<close>, \<open>Batch\<close>, \<open>Discovery\<close>, \<open>BatchCorrect\<close>, \<open>BatchFiles\<close>, \<open>BatchRuns\<close>, \<open>TempNames\<close> (\<open>batch.go\<close>): one job, as a
    function and as the system calls other jobs may interleave with; the discovery; the run as the step
    relation \<open>batch_step\<close>, in which a finished job is counted, enters its error, calls \<open>OnEvent\<close> and releases the
    semaphore in four steps; counters, termination and the file system as invariants of all reachable
    states; and the run in which a temporary name is used twice.
  \<^item> \<open>Cli\<close>, \<open>CliCorrect\<close>, \<open>CliRuns\<close>, \<open>CliExit\<close> (\<open>main.go\<close>): from the flags to what the command ends with (\<open>cli_output\<close>,
    of which \<open>exit_code\<close> is the exit code) and the file system it leaves, for every schedule.
  \<^item> \<open>Reader\<close>, \<open>ReaderCorrect\<close> (\<open>reader.go\<close>, \<open>OpenFile\<close>): the relations \<open>reader_Read\<close>, \<open>reader_Metadata\<close> and
    \<open>reader_Close\<close>, and the comparison of a run of \<open>Decrypt\<close> that is cut off with one that is not.

  A Go struct is a record and a method a function from the record to the new one; an error result is
  \<open>error option\<close> or \<open>error + 'a\<close>, with one constructor of \<open>error\<close> per error value of the code. \<open>int64\<close> keeps its
  width. Definitions carry the names of the code where these are free.

  \<^bold>\<open>What is shown.\<close> Here: what involves both directions and the loop of \<open>Decrypt\<close> as a whole. In the other
  theories: the reader of objects inverts the encoding and takes a prefix only (\<open>Wire\<close>); a file operation is
  all or nothing, and inspection reads back what was written (\<open>FileSuccess\<close>); the plan of a batch (\<open>Discovery\<close>);
  what one job does, that at any moment of any interleaving the visible outputs are complete, and that a
  finished batch has accounted for every file (\<open>BatchRuns\<close>); what an exit code promises (\<open>CliExit\<close>); what a caller of a \<open>Reader\<close> gets and what \<open>Close\<close> reports (\<open>Reader\<close>, \<open>ReaderCorrect\<close>).
  Some results show the code where it does not do what it means to: \<open>decrypt_full_chunks_fails\<close>,
  \<open>object_error_leaks_goroutine\<close>, \<open>decrypt_accepts_truncated_trailer\<close> and \<open>Next_truncated_dict_is_clean_end\<close>,
  \<open>parent_input_escapes\<close>, \<open>same_base_same_output\<close>, \<open>reader_full_chunks\<close>, \<open>reused_temp_name_fails_job\<close>.

  \<^bold>\<open>Parameters.\<close> LZ4 frames: \<open>lz_writer\<close> and \<open>lz_reader\<close>, of which theorems on compressed payloads ask that the one
  inverts the other (\<open>lz4_lossless\<close>; the codec of \<open>frame_writer\<close> and \<open>frame_reader\<close> shows that it can hold). The
  decoders of PEM blocks and keys: \<open>pem_lib\<close>. Randomness is a reader of given bytes (and, for temporary names,
  given numbers). RSA keys are numbers; \<open>rsa_key_pair\<close> says that two belong together.

  \<^bold>\<open>Bounds.\<close> No definition needs fuel. \<open>CreateTemp\<close> gives up after 10000 names, as in \<open>os\<close>. A batch takes at most
  thirteen steps per unit: the launch, eight steps of the job, four of the accounting. Seventy bytes of entropy are enough for
  a header. The counters of a report are \<open>int64\<close>: exit code 0 is interpreted for fewer than \<open>2 ^ 63\<close> units and
  errors.

  \<^bold>\<open>Approximations.\<close> Each step of a running job is atomic: the opening of the input, \<open>MkdirAll\<close>, \<open>CreateTemp\<close>, the
  writing of the temporary file (a file that no other job opens, and whose content is looked at only after
  the rename), \<open>Close\<close> with \<open>Rename\<close>, and \<open>Remove\<close>; what \<open>runOne\<close> does after a success is one step. There are no
  symbolic links, permissions or second processes; paths are resolved lexically; the faults of a call
  depend on the call and its path only, not on when it is made; an opened file has the content it had when
  it was opened. The theorems on files in a concurrent run (\<open>batch_ok\<close>) are for random numbers of temporary
  names that do not repeat: \<open>CreateTemp\<close> does not promise that, and \<open>TempNames\<close> shows what a repetition can do.
  The LZ4 goroutine runs inside the writes that feed it, since its pipe has no buffer; so what it can decode
  from the bytes written so far has reached the output when an error ends \<open>Decrypt\<close>, where the real goroutine
  may still be at it. RSA moduli are refused when they are even, as \<open>crypto/rsa\<close> of Go 1.22 does by its
  arithmetic, and not for their size, which later versions check.

  \<^bold>\<open>Not modelled.\<close> Flag parsing (package \<open>flag\<close>), the text of messages, JSON and reports (\<open>printReport\<close>, \<open>Format\<close>,
  \<open>Error\<close> methods), the debug logger of the command, and clock readings for durations: these are input and
  output. A caller's own \<open>OnMetadata\<close> hook behind a \<open>Reader\<close>, which is code of the caller.
\<close>

section \<open>Encryption and decryption together\<close>

text \<open>
  C1: Round trip. Whatever \<open>Encrypt\<close> writes for an input, \<open>Decrypt\<close> with the fitting secret (the password,
  or the private key of the pair) returns without error and has written exactly that input; the
  metadata it reports are the options' name and version and the digest of the input. With compression
  this asks of LZ4 that its reader inverts its writer, and that the frame does not end exactly with a
  full data chunk.
\<close>

theorem decrypt_encrypt:
  assumes "Encrypt lzw crand chunks inEnd new_sink opts = (enc, None)"
    and "secret_fits opts (oPassword opt) (oPrivateKey opt)"
    and "codec_ok lzw lzr opts" and "\<not> full_chunks lzw opts chunks" and "room out = None"
  shows "\<exists>st. Decrypt lzr (reader_of (written enc)) out opt = (st, None) \<and>
    written (dec_out st) = written out @ concat chunks \<and>
    mFilename (d_meta st) = eFilename opts \<and> mMajor (d_meta st) = opt_major opts \<and>
    mMinor (d_meta st) = opt_minor opts \<and> mPlaintextMD5 (d_meta st) = hex_encode (md5 (concat chunks))"
proof -
  from Encrypt_stream(1) [OF assms(1)] obtain m sk cs where
    w: "written enc = (leading_stream m @ data_stream cs) @ trailer (concat chunks)"
    by (auto simp: csenc_stream_def trailer_def)
  have "length (hex_encode (md5 (concat chunks))) \<le> 65535" by (simp add: md5.length_hex_H)
  from Decrypt_with_digest [OF assms(1-3,5) w this] assms(4) prepareHeader_InrD(2-4)
  show ?thesis by (fastforce simp: w trailer_def prepared_def metadata_of_def)
qed

theorem decrypt_encrypt_witness:
  "\<exists>enc st. Encrypt frame_writer (reader_of []) [[1, 2, 3], [4, 5]] ErrEOF new_sink (sample_opts True) = (enc, None) \<and>
     Decrypt frame_reader (reader_of (written enc)) new_sink sample_secret = (st, None) \<and>
     written (dec_out st) = [1, 2, 3, 4, 5] \<and> mFilename (d_meta st) = ''a.txt''"
proof -
  obtain enc where enc: "Encrypt frame_writer (reader_of []) [[1, 2, 3], [4, 5]] ErrEOF new_sink (sample_opts True)
      = (enc, None)" using sample_Encrypt by blast
  have "\<not> full_chunks frame_writer (sample_opts True) [[1, 2, 3], [4, 5]]"
    by (simp add: full_chunks_def length_frame writes_def dataChunkSize_def)
  from decrypt_encrypt [OF enc sample_fits sample_codec this, of new_sink] enc
  show ?thesis by (auto simp: sample_opts_def)
qed

text \<open>
  C4: A valid stream is rejected. When the compressed payload ends exactly with a full data chunk, the
  last data dict decrypts to padding only; \<open>finish\<close> writes the empty tail to a pipe whose LZ4 reader has
  already seen the end of the frame, and \<open>Decrypt\<close> returns \<open>io.ErrClosedPipe\<close> although the whole input
  has been recovered and written.
\<close>

theorem decrypt_full_chunks_fails:
  assumes "Encrypt lzw crand chunks inEnd new_sink opts = (enc, None)"
    and "secret_fits opts (oPassword opt) (oPrivateKey opt)"
    and "codec_ok lzw lzr opts" and "full_chunks lzw opts chunks" and "room out = None"
  shows "\<exists>st. Decrypt lzr (reader_of (written enc)) out opt = (st, Some ErrClosedPipe) \<and>
    written (dec_out st) = written out @ concat chunks \<and>
    mPlaintextMD5 (d_meta st) = hex_encode (md5 (concat chunks))"
proof -
  from Encrypt_stream(1) [OF assms(1)] obtain m sk cs where
    w: "written enc = (leading_stream m @ data_stream cs) @ trailer (concat chunks)"
    by (auto simp: csenc_stream_def trailer_def)
  have "length (hex_encode (md5 (concat chunks))) \<le> 65535" by (simp add: md5.length_hex_H)
  from Decrypt_with_digest [OF assms(1-3,5) w this] assms(4)
  show ?thesis by (fastforce simp: w trailer_def)
qed

theorem decrypt_full_chunks_fails_witness:
  "\<exists>enc st. Encrypt frame_writer (reader_of []) [replicate 16383 7] ErrEOF new_sink (sample_opts True) = (enc, None) \<and>
     Decrypt frame_reader (reader_of (written enc)) new_sink sample_secret = (st, Some ErrClosedPipe) \<and>
     written (dec_out st) = replicate 16383 7"
proof -
  obtain enc where enc: "Encrypt frame_writer (reader_of []) [replicate 16383 7] ErrEOF new_sink (sample_opts True)
      = (enc, None)" using sample_Encrypt by blast
  have "full_chunks frame_writer (sample_opts True) [replicate 16383 7]"
    by (simp add: full_chunks_def length_frame writes_def dataChunkSize_def)
  from decrypt_full_chunks_fails [OF enc sample_fits sample_codec this, of new_sink] enc
  show ?thesis by auto
qed

text \<open>
  C11: Tampering with the recorded digest is detected. When the trailer of a written stream records any
  other non-empty digest, \<open>Decrypt\<close> returns the mismatch with both values (the plaintext has been written
  by then).
\<close>

theorem decrypt_rejects_digest:
  assumes "Encrypt lzw crand chunks inEnd new_sink opts = (enc, None)"
    and "secret_fits opts (oPassword opt) (oPrivateKey opt)"
    and "codec_ok lzw lzr opts" and "\<not> full_chunks lzw opts chunks" and "room out = None"
    and "written enc = pre @ trailer (concat chunks)" and "length h \<le> 65535"
    and "h \<noteq> []" and "h \<noteq> hex_encode (md5 (concat chunks))"
  shows "snd (Decrypt lzr (reader_of (pre @ enc_value (VDict (final_members h)))) out opt) =
    Some (ErrPlaintextMD5 (hex_encode (md5 (concat chunks))) h)"
  using Decrypt_with_digest [OF assms(1-3,5-7)] assms(4,8,9) by auto

theorem decrypt_rejects_digest_witness:
  "\<exists>enc pre. Encrypt frame_writer (reader_of []) [[65]] ErrEOF new_sink (sample_opts True) = (enc, None) \<and>
     written enc = pre @ trailer [65] \<and>
     snd (Decrypt frame_reader (reader_of (pre @ enc_value (VDict (final_members ''00'')))) new_sink sample_secret) =
       Some (ErrPlaintextMD5 (hex_encode (md5 [65])) ''00'')"
proof -
  obtain enc pre where enc: "Encrypt frame_writer (reader_of []) [[65]] ErrEOF new_sink (sample_opts True) = (enc, None)"
    and pre: "written enc = pre @ trailer (concat [[65]])" using sample_Encrypt by blast
  have "\<not> full_chunks frame_writer (sample_opts True) [[65]]"
    by (simp add: full_chunks_def length_frame writes_def dataChunkSize_def)
  moreover have "''00'' \<noteq> hex_encode (md5 (concat [[65]]))"
    using md5.length_hex_H [of "[65]"] by (intro notI) (drule arg_cong [where f = length], simp)
  ultimately show ?thesis
    using decrypt_rejects_digest [OF enc sample_fits sample_codec _ _ pre, of new_sink "''00''"] enc pre by auto
qed

text \<open>
  C10: Truncation of the trailer is not detected. Cut off before the trailing metadata dict, or inside it
  at any boundary between its values, a written stream decrypts without error and without any digest
  having been compared.
\<close>

theorem decrypt_accepts_truncated_trailer:
  assumes "Encrypt lzw crand chunks inEnd new_sink opts = (enc, None)"
    and "secret_fits opts (oPassword opt) (oPrivateKey opt)"
    and "codec_ok lzw lzr opts" and "\<not> full_chunks lzw opts chunks" and "room out = None"
    and "written enc = pre @ trailer (concat chunks)"
    and "t = [] \<or> t = tagDict # concat (map enc_pair (take k (final_members (hex_encode (md5 (concat chunks))))))"
  shows "\<exists>st. Decrypt lzr (reader_of (pre @ t)) out opt = (st, None) \<and>
    written (dec_out st) = written out @ concat chunks \<and> mPlaintextMD5 (d_meta st) = []"
proof -
  let ?h = "hex_encode (md5 (concat chunks))"
  have "length ?h \<le> 65535" by (simp add: md5.length_hex_H)
  from wf_members(3) [OF this] have "list_all wf_pair (final_members ?h)" by simp
  then have "list_all wf_pair (take k (final_members ?h))"
    unfolding list_all_iff by (meson in_set_takeD)
  with assms(7) have "t = [] \<or> (\<exists>ms. list_all wf_pair ms \<and> t = tagDict # concat (map enc_pair ms))" by blast
  from Decrypt_without_digest [OF assms(1-3,5,6) this] assms(4) show ?thesis
    by (auto simp: metadata_of_def)
qed

theorem decrypt_accepts_truncated_trailer_witness:
  "\<exists>enc pre st. Encrypt frame_writer (reader_of []) [[65]] ErrEOF new_sink (sample_opts False) = (enc, None) \<and>
     written enc = pre @ trailer [65] \<and>
     Decrypt frame_reader (reader_of (pre @ [tagDict])) new_sink sample_secret = (st, None) \<and>
     written (dec_out st) = [65]"
proof -
  obtain enc pre where enc: "Encrypt frame_writer (reader_of []) [[65]] ErrEOF new_sink (sample_opts False) = (enc, None)"
    and pre: "written enc = pre @ trailer (concat [[65]])" using sample_Encrypt by blast
  have "\<not> full_chunks frame_writer (sample_opts False) [[65]]" by (simp add: full_chunks_def)
  from decrypt_accepts_truncated_trailer [OF enc sample_fits sample_codec this _ pre, of new_sink "[tagDict]" 0] enc pre
  show ?thesis by auto
qed

section \<open>Decryption of arbitrary streams\<close>

text \<open>
  C2: Soundness of success. When \<open>Decrypt\<close> returns nil on any stream, then the stream begins with the
  header, there was exactly one \<open>OnMetadata\<close> snapshot, the session key was recovered from it, the
  ciphertext of all data dicts together is a CBC encryption under that key of a correctly padded
  payload, what was written is that payload (passed through the LZ4 decoder to its clean end where the
  snapshot says \<open>compress=1\<close>), and a recorded \<open>file_md5\<close> is the digest of exactly these bytes.
\<close>

theorem decrypt_sound:
  assumes "Decrypt lzr r out opt = (st, None)"
  shows "\<exists>r' snap sk pl x. consumeMagic r = Inr r' \<and> d_snaps st = [snap] \<and> checkModes snap = None \<and>
    recoverMeta (oPassword opt) (oPrivateKey opt) snap = Inr sk \<and>
    unpadPKCS7 (snd (cbc_crypt_decrypt (payload_cipher sk) (stream_ciphertext r'))) = Inr pl \<and>
    lane_output lzr (mCompress snap = 1) pl x \<and> written (dec_out st) = written out @ x \<and>
    (mPlaintextMD5 (d_meta st) = [] \<or> mPlaintextMD5 (d_meta st) = hex_encode (md5 x))"
proof -
  from assms obtain r' where r': "consumeMagic r = Inr r'"
    "decrypt_loop lzr opt (init_decrypt out) r' = (st, None)"
    by (auto simp: Decrypt_def split: sum.splits)
  from decrypt_loop_ok [OF init_loop_inv r'(2)] r'(1) show ?thesis
    by (auto simp: decrypted_def snap_ok_def)
qed

theorem decrypt_sound_witness:
  "\<exists>(enc :: sink) st x. Decrypt frame_reader (reader_of (written enc)) new_sink sample_secret = (st, None) \<and>
     written (dec_out st) = x \<and> (\<exists>snap. d_snaps st = [snap])"
proof -
  obtain enc pre where enc: "Encrypt frame_writer (reader_of []) [[65]] ErrEOF new_sink (sample_opts False) = (enc, None)"
    and pre: "written enc = pre @ trailer (concat [[65]])" using sample_Encrypt by blast
  have nf: "\<not> full_chunks frame_writer (sample_opts False) [[65]]" by (simp add: full_chunks_def)
  have "length (hex_encode (md5 (concat [[65]]))) \<le> 65535" by (simp add: md5.length_hex_H)
  from Decrypt_with_digest [OF enc sample_fits sample_codec _ pre this, of new_sink] nf
  obtain st where st: "Decrypt frame_reader (reader_of (written enc)) new_sink sample_secret = (st, None)"
    by (auto simp: pre trailer_def)
  from decrypt_sound [OF st] obtain snap where "d_snaps st = [snap]" by blast
  with st show ?thesis by blast
qed

text \<open>
  C5: No output without the key. However \<open>Decrypt\<close> ends, on any stream and any \<open>out\<close>: either \<open>out\<close> is
  untouched and the hook was called at most once, or it was called exactly once, with metadata whose
  modes are supported and from which the given secret recovers the session key.
\<close>

theorem decrypt_no_output_without_key:
  "let st = fst (Decrypt lzr r out opt) in
     (dec_out st = out \<and> length (d_snaps st) \<le> 1) \<or>
     (\<exists>snap sk. d_snaps st = [snap] \<and> checkModes snap = None \<and>
        recoverMeta (oPassword opt) (oPrivateKey opt) snap = Inr sk)"
proof -
  have "exit_inv opt out (fst (Decrypt lzr r out opt))"
  proof (cases "consumeMagic r")
    case (Inl e)
    then show ?thesis using loop_inv_exit [OF init_loop_inv] by (simp add: Decrypt_def)
  next
    case (Inr r')
    then show ?thesis using decrypt_loop_exit [OF init_loop_inv]
      by (metis Decrypt_def fst_conv old.sum.simps(6) surj_pair)
  qed
  then show ?thesis by (auto simp: exit_inv_def snap_ok_def dec_out_def Let_def split: option.splits)
qed

text \<open>
  C12: \<open>Inspect\<close> and the hook agree. The snapshot \<open>Decrypt\<close> hands to \<open>OnMetadata\<close> is what \<open>Inspect\<close> returns for
  the same stream, whatever happens to the decryption afterwards.
\<close>

theorem inspect_is_snapshot:
  assumes "d_snaps (fst (Decrypt lzr r out opt)) = [snap]"
  shows "Inspect r = Inr snap"
proof (cases "consumeMagic r")
  case (Inl e)
  with assms show ?thesis by (simp add: Decrypt_def init_decrypt_def)
next
  case (Inr r')
  obtain st res where "decrypt_loop lzr opt (init_decrypt out) r' = (st, res)"
    by (cases "decrypt_loop lzr opt (init_decrypt out) r'")
  with assms Inr decrypt_loop_inspect [OF this, of snap] show ?thesis
    by (simp add: Decrypt_def Inspect_def init_decrypt_def)
qed

theorem inspect_is_snapshot_witness:
  "\<exists>(enc :: sink) snap. Inspect (reader_of (written enc)) = Inr snap \<and> mFilename snap = ''a.txt'' \<and> mCompress snap = 1"
proof -
  obtain enc pre where enc: "Encrypt frame_writer (reader_of []) [[65]] ErrEOF new_sink (sample_opts True) = (enc, None)"
    and pre: "written enc = pre @ trailer (concat [[65]])" using sample_Encrypt by blast
  have "length (hex_encode (md5 (concat [[65]]))) \<le> 65535" by (simp add: md5.length_hex_H)
  from Decrypt_with_digest [OF enc sample_fits sample_codec _ pre this, of new_sink]
  obtain m sk where p: "prepared (reader_of []) (sample_opts True) m sk"
    and s: "d_snaps (fst (Decrypt frame_reader (reader_of (written enc)) new_sink sample_secret)) = [metadata_of m]"
    by (auto simp: pre trailer_def)
  have "mFilename (metadata_of m) = ''a.txt''" "mCompress (metadata_of m) = 1"
    using p prepareHeader_InrD(4,5) [of "sample_opts True"]
    by (auto simp: prepared_def metadata_of_def sample_opts_def boolAsInt_def compressOn_def)
  with inspect_is_snapshot [OF s] show ?thesis by blast
qed

text \<open>
  C16: Which failing objects leave the LZ4 goroutine behind. While the goroutine runs, an error found in
  a data dict stops it; every other error in a top-level object (not a dict, no type, unknown type, a
  metadata field that does not decode) returns from \<open>Decrypt\<close> with the goroutine still waiting on its
  pipe.
\<close>

theorem object_error_leaks_goroutine:
  assumes "decrypt_object lzr opt obj st = (st', Some e)" and "lane_running st"
  shows "lane_running st' \<longleftrightarrow> Lookup obj ''type'' \<noteq> Some (VString ''data'')"
  using assms by (rule decrypt_object_stops)

theorem object_error_leaks_goroutine_witness:
  "\<exists>st :: byte option decState. lane_running st \<and> decrypt_object frame_reader sample_secret (VInt 5) st = (st, Some (ErrTopLevelNotDict 4)) \<and>
     lane_running (fst (decrypt_object frame_reader sample_secret (VInt 5) st))"
proof -
  obtain p where p: "newDecryptPipe frame_reader [] new_sink True = Inr p" "dp_lane p = LzRunning (lzr_init frame_reader)"
    using newDecryptPipe_ok [of frame_reader "[]" new_sink True] by auto
  let ?st = "(init_decrypt new_sink)\<lparr>d_pipe := Some p\<rparr>"
  have run: "lane_running ?st" using p by (simp add: lane_running_def)
  have err: "decrypt_object frame_reader sample_secret (VInt 5) ?st = (?st, Some (ErrTopLevelNotDict 4))"
    by (simp add: decrypt_object_def)
  from object_error_leaks_goroutine [OF err run] run err show ?thesis by auto
qed

section \<open>Encryption\<close>

text \<open>
  C3: The stream \<open>Encrypt\<close> produces. A successful run has appended to \<open>out\<close> exactly the magic header,
  the leading metadata dict that was prepared from the options and the entropy, data dicts, and a final
  dict with the MD5 of the input; the data dicts together carry the CBC encryption of the padded
  payload (the input, or its LZ4 frame), each is non-empty, block-aligned and at most 32 KiB, and all but
  the last are full.
\<close>

theorem encrypt_stream_format:
  assumes "Encrypt lz crand chunks inEnd out opts = (out', None)"
  shows "inEnd = ErrEOF \<and> (\<exists>m sk cs. prepareHeader opts (opt_rand crand opts) = Inr (m, sk) \<and>
    written out' = written out @ magic_header @ enc_value (VDict (leading_members m)) @ data_stream cs @
      enc_value (VDict (final_members (hex_encode (md5 (concat chunks))))) \<and>
    concat cs = snd (cbc_crypt_encrypt (payload_cipher sk) (pkcs7Pad
      (if compressOn opts then lz_frame lz (filter (\<lambda>c. c \<noteq> []) chunks) else concat chunks) 16)) \<and>
    (\<forall>c \<in> set cs. c \<noteq> [] \<and> 16 dvd length c \<and> length c \<le> 32768) \<and>
    (\<forall>c \<in> set (butlast cs). length c = 32768))"
proof -
  from Encrypt_stream(1) [OF assms] obtain m sk cs where p: "prepared crand opts m sk"
    and c: "concat cs = ciphertext sk (payload lz opts (filter (\<lambda>c. c \<noteq> []) chunks))" "chunking cs"
    and w: "written out' = written out @ csenc_stream m cs (concat chunks)" by blast
  have "prepareHeader opts (opt_rand crand opts) = Inr (m, sk)" using p by (simp add: prepared_def)
  moreover have "written out' = written out @ magic_header @ enc_value (VDict (leading_members m)) @ data_stream cs @
      enc_value (VDict (final_members (hex_encode (md5 (concat chunks)))))"
    using w by (simp add: csenc_stream_def leading_stream_def)
  moreover have "concat cs = snd (cbc_crypt_encrypt (payload_cipher sk) (pkcs7Pad
      (if compressOn opts then lz_frame lz (filter (\<lambda>c. c \<noteq> []) chunks) else concat chunks) 16))"
    using c(1) by (simp add: ciphertext_def payload_def concat_nonempty)
  moreover have "\<forall>c \<in> set cs. c \<noteq> [] \<and> 16 dvd length c \<and> length c \<le> 32768"
    "\<forall>c \<in> set (butlast cs). length c = 32768"
    using c(2) by (simp_all add: chunking_def chunk_ok_def dataChunkSize_def)
  ultimately show ?thesis using Encrypt_stream(2) [OF assms] by blast
qed

theorem encrypt_stream_format_witness:
  "\<exists>enc m. Encrypt frame_writer (reader_of []) [[65], []] ErrEOF new_sink (sample_opts False) = (enc, None) \<and>
     take 49 (written enc) = magic_header \<and>
     (\<exists>x. written enc = magic_header @ enc_value (VDict (leading_members m)) @ x)"
proof -
  obtain enc where enc: "Encrypt frame_writer (reader_of []) [[65], []] ErrEOF new_sink (sample_opts False) = (enc, None)"
    using sample_Encrypt by blast
  from encrypt_stream_format [OF this] obtain m x where
    "written enc = magic_header @ enc_value (VDict (leading_members m)) @ x" by auto
  with enc length_magic_header show ?thesis by auto
qed

text \<open>
  C7: When \<open>Encrypt\<close> succeeds. With a secret, a supported version, a non-negative minor version, a file
  name and a public key the wire format can carry, seventy bytes of entropy, an input that ends with
  \<open>io.EOF\<close> and an \<open>out\<close> that accepts every write, \<open>Encrypt\<close> returns nil for every input.
\<close>

theorem encrypt_succeeds:
  assumes "opts_encodable opts" and "70 \<le> length (rest (opt_rand crand opts))" and "room out = None"
  shows "snd (Encrypt lz crand chunks ErrEOF out opts) = None"
proof -
  from prepared_total [OF assms(1,2)] obtain m sk where p: "prepared crand opts m sk" by blast
  from assms(1) have "ePassword opts \<noteq> [] \<or> ePublicKey opts \<noteq> None" "opt_major opts = 1 \<or> opt_major opts = 3"
    by (simp_all add: opts_encodable_def)
  from Encrypt_succeeds [OF this assms(3) p, of lz chunks] show ?thesis by auto
qed

theorem encrypt_succeeds_witness:
  "snd (Encrypt frame_writer (reader_of []) [] ErrEOF new_sink (sample_opts True)) = None"
  by (rule encrypt_succeeds [OF sample_encodable]) simp

text \<open>
  C14: Without compression the stream does not depend on how the input arrives: two runs with the same
  options and entropy over the same bytes, split into reads differently, write the same stream.
\<close>

theorem encrypt_split_independent:
  assumes "Encrypt lz crand cs1 e1 new_sink opts = (o1, None)"
    and "Encrypt lz crand cs2 e2 new_sink opts = (o2, None)"
    and "\<not> compressOn opts" and "concat cs1 = concat cs2"
  shows "written o1 = written o2"
  using assms by (rule encrypt_same_stream)

theorem encrypt_split_independent_witness:
  "\<exists>o1 o2. Encrypt frame_writer (reader_of []) [[1, 2], [3]] ErrEOF new_sink (sample_opts False) = (o1, None) \<and>
     Encrypt frame_writer (reader_of []) [[1], [], [2, 3]] ErrEOF new_sink (sample_opts False) = (o2, None) \<and>
     written o1 = written o2"
proof -
  obtain o1 o2 where
    "Encrypt frame_writer (reader_of []) [[1, 2], [3]] ErrEOF new_sink (sample_opts False) = (o1, None)"
    "Encrypt frame_writer (reader_of []) [[1], [], [2, 3]] ErrEOF new_sink (sample_opts False) = (o2, None)"
    using sample_Encrypt by metis
  with encrypt_split_independent [OF this] show ?thesis by simp
qed

text \<open>
  C6: Recovery of the session key inverts its wrapping, on both paths: from the metadata the writer
  prepared, the password that was used, or the private key of the public key that was used, gives back
  the raw session key (through the hex form of version 3 or the raw form of version 1), and the two
  salted hashes verify.
\<close>

theorem recover_inverts_wrapping:
  assumes "prepareHeader opts rnd = Inr (m, sk)" and "secret_fits opts password privateKey"
  shows "recoverSessionKey password privateKey (none_if_nil (lencKey1 m)) (none_if_nil (lencKey2 m)) (lsalt m)
    (lkey1Hash m) (lsessKeyHash m) (lmajor m) = Inr sk"
  using recover_prepared [OF assms] by (simp add: recoverMeta_def metadata_of_def)

theorem recover_inverts_wrapping_witness:
  "\<exists>(m :: leadingMetadata) sk. length sk = 32 \<and>
     recoverSessionKey (oPassword sample_secret) None (none_if_nil (lencKey1 m)) (none_if_nil (lencKey2 m)) (lsalt m)
       (lkey1Hash m) (lsessKeyHash m) (lmajor m) = Inr sk"
proof -
  from prepared_total [OF sample_encodable, of "reader_of []" True] obtain m sk where
    p: "prepareHeader (sample_opts True) (opt_rand (reader_of []) (sample_opts True)) = Inr (m, sk)"
    by (auto simp: prepared_def)
  have "secret_fits (sample_opts True) (oPassword sample_secret) None"
    by (simp add: secret_fits_def sample_opts_def sample_secret_def)
  from recover_inverts_wrapping [OF p this] prepareHeader_InrD(1) [OF p] show ?thesis by blast
qed

text \<open>
  C15: The AES stage is independent of the writes. Fed by any sequence of writes, then finished and
  flushed, the feeder that \<open>start\<close> creates has appended data dicts whose chunks together are one CBC
  encryption of the padded concatenation of the writes.
\<close>

theorem feeder_encrypts_concatenation:
  assumes "newFeeder sk out = Inr a" and "copy_chunks aes_Write a ps = (a1, None)"
    and "aes_finish a1 = (a2, None)" and "pending_flush (af_sink a2) = (s, None)"
  shows "\<exists>cs. written (ps_out s) = written out @ data_stream cs \<and>
    concat cs = snd (cbc_crypt_encrypt (payload_cipher sk) (pkcs7Pad (concat ps) 16)) \<and>
    (\<forall>c \<in> set cs. c \<noteq> [] \<and> length c \<le> dataChunkSize)"
proof -
  from newFeeder_ok [of sk out] assms(1) have "aes_accepted (payload_cipher sk) (written out) a []" by auto
  from aesw.copy_accepted [OF this assms(2)] have "aes_accepted (payload_cipher sk) (written out) a1 (concat ps)" by simp
  from pending_flush_ok [OF aes_finish_ok [OF this assms(3)] assms(4)] show ?thesis by blast
qed

theorem feeder_encrypts_concatenation_witness:
  "\<exists>a a1 a2 s cs. newFeeder [] new_sink = Inr a \<and> copy_chunks aes_Write a [[1, 2], [3]] = (a1, None) \<and>
     aes_finish a1 = (a2, None) \<and> pending_flush (af_sink a2) = (s, None) \<and>
     written (ps_out s) = data_stream cs"
proof -
  from newFeeder_ok [of "[]" new_sink] obtain a where a: "newFeeder [] new_sink = Inr a" "aes_room a" by auto
  from aes_Write_room [OF a(2), of "[1, 2]"] obtain b where b: "aes_Write a [1, 2] = (b, None)" "aes_room b" by blast
  from aes_Write_room [OF b(2), of "[3]"] obtain a1 where a1: "aes_Write b [3] = (a1, None)" "aes_room a1" by blast
  from aes_finish_room [OF a1(2)] obtain a2 where a2: "aes_finish a1 = (a2, None)" "aes_room a2" by blast
  then obtain s where s: "pending_flush (af_sink a2) = (s, None)"
    using pending_flush_room [of "af_sink a2"] by (auto simp: aes_room_def dataChunkSize_def)
  have c: "copy_chunks aes_Write a [[1, 2], [3]] = (a1, None)" using b a1 by simp
  from feeder_encrypts_concatenation [OF a(1) c a2(1) s] a(1) c a2(1) s show ?thesis by auto
qed

text \<open>
  C17: The life of a \<open>Writer\<close>. After \<open>Close\<close>, with whatever result, the writer is closed; closing again
  changes nothing and returns the same result, and every further \<open>Write\<close> is rejected without effect.
\<close>

theorem writer_closed_for_good:
  "let (w', r) = writer_Close lz w in
     w_closed w' \<and> r = w_failed w' \<and> writer_Close lz w' = (w', r) \<and>
     writer_Write lz w' p = (w', Some ErrWriteClosed)"
proof -
  obtain w' r where c: "writer_Close lz w = (w', r)" by (cases "writer_Close lz w")
  have "w_closed w' \<and> r = w_failed w'" using writer_Close_closed [OF c] .
  then show ?thesis by (simp add: c writer_Close_def [of lz w'] writer_Write_def)
qed

section \<open>Components\<close>

text \<open>
  C13: The leading metadata dict. On an \<open>out\<close> that takes everything, \<open>writeLeadingMetadata\<close> succeeds exactly
  when no integer is negative and no string exceeds the 16-bit length of the wire; it then has appended
  the reference encoding of the dict with the members in the code's order, optional members only where
  they are non-empty, and the stream reader gets that dict back.
\<close>

theorem leading_metadata_written:
  assumes "room w = None"
  shows "(snd (writeLeadingMetadata w m) = None \<longleftrightarrow> leading_ok m) \<and>
    (leading_ok m \<longrightarrow>
      written (fst (writeLeadingMetadata w m)) = written w @ enc_value (VDict (leading_members m)) \<and>
      Next (reader_of (enc_value (VDict (leading_members m)))) =
        Inr (Some (VDict (leading_members m), reader_of [])))"
proof -
  have "leading_ok m \<Longrightarrow> snd (writeLeadingMetadata w m) = None"
    using writeLeadingMetadata_succeeds [OF assms, of m] by auto
  moreover have "snd (writeLeadingMetadata w m) = None \<Longrightarrow>
      leading_ok m \<and> written (fst (writeLeadingMetadata w m)) = written w @ enc_value (VDict (leading_members m))"
    using writeLeadingMetadata_ok [of w m "fst (writeLeadingMetadata w m)"] by (metis prod.collapse)
  moreover have "leading_ok m \<Longrightarrow> Next (reader_of (enc_value (VDict (leading_members m)))) =
      Inr (Some (VDict (leading_members m), (reader_of (enc_value (VDict (leading_members m))))\<lparr>rest := []\<rparr>))"
    by (rule Next_enc_value) (simp_all add: wf_members(1) del: wf_value.simps)
  ultimately show ?thesis by (auto simp: reader_of_def)
qed

theorem leading_metadata_written_witness:
  "snd (writeLeadingMetadata new_sink
     \<lparr>lmajor = 3, lminor = - 1, lsalt = [], lencKey1 = [], lencKey2 = [], lkey1Hash = [], lsessKeyHash = [],
      lcompress = 1, lencrypt = 1, lfilename = []\<rparr>) \<noteq> None"
proof -
  have "room new_sink = None" by simp
  from leading_metadata_written [OF this] show ?thesis by (auto simp: leading_ok_def)
qed

end
